(* ===== verification/Prelude.thy ===== *)
theory Prelude
  imports Main "HOL-Library.Word" "HOL-Library.Monad_Syntax"
begin

text \<open>
  Shared foundation of the development: the fixed-width C integers the sources
  compute with, the byte-addressed memory every buffer and property value lives in, and
  the generic lemmas about reading and writing ranges of bytes.  A memory is a partial map
  from addresses to bytes; an address outside its domain is not accessible, and an access
  to it is undefined behaviour, which the model reports as \<^term>\<open>None\<close>.
\<close>

named_theorems mem_simps \<open>rewrite rules for reads and writes of memory ranges\<close>
named_theorems c_arith \<open>C integer conversions that do not change the value\<close>

section \<open>C integers\<close>

text \<open>
  Values of type \<open>int\<close> are mathematical integers in the range of 32 bits, values of the
  unsigned types are naturals; each conversion or operation that can leave the range is
  written with the function that wraps it.
\<close>

definition INT_MAX :: int where
  "INT_MAX = 2147483647"

definition to_int :: "int \<Rightarrow> int" where
  "to_int z = (z + 2147483648) mod 4294967296 - 2147483648"

definition to_size_t :: "int \<Rightarrow> nat" where
  "to_size_t z = nat (z mod 18446744073709551616)"

definition to_uint32 :: "int \<Rightarrow> nat" where
  "to_uint32 z = nat (z mod 4294967296)"

definition to_uint16 :: "int \<Rightarrow> nat" where
  "to_uint16 z = nat (z mod 65536)"

definition to_uint8 :: "int \<Rightarrow> nat" where
  "to_uint8 z = nat (z mod 256)"

definition c_MIN :: "int \<Rightarrow> int \<Rightarrow> int" where
  "c_MIN a b = (if a < b then a else b)"

lemma to_int_id [c_arith]: "- 2147483648 \<le> z \<Longrightarrow> z \<le> 2147483647 \<Longrightarrow> to_int z = z"
  by (simp add: to_int_def)

lemma to_int_range: "- 2147483648 \<le> to_int z \<and> to_int z \<le> INT_MAX"
proof -
  have "0 \<le> (z + 2147483648) mod 4294967296" "(z + 2147483648) mod 4294967296 < 4294967296"
    by simp_all
  then show ?thesis unfolding to_int_def INT_MAX_def by linarith
qed

lemma to_size_t_id [c_arith]: "0 \<le> z \<Longrightarrow> z < 18446744073709551616 \<Longrightarrow> to_size_t z = nat z"
  by (simp add: to_size_t_def)

lemma to_uint32_id [c_arith]: "0 \<le> z \<Longrightarrow> z < 4294967296 \<Longrightarrow> to_uint32 z = nat z"
  by (simp add: to_uint32_def)

lemma to_uint32_bound: "to_uint32 z < 4294967296"
  by (simp add: to_uint32_def nat_less_iff)

lemma to_uint16_id [c_arith]: "0 \<le> z \<Longrightarrow> z < 65536 \<Longrightarrow> to_uint16 z = nat z"
  by (simp add: to_uint16_def)

lemma to_uint16_bound: "to_uint16 z < 65536"
  by (simp add: to_uint16_def nat_less_iff)

lemma to_uint8_id [c_arith]: "0 \<le> z \<Longrightarrow> z < 256 \<Longrightarrow> to_uint8 z = nat z"
  by (simp add: to_uint8_def)

lemma to_uint8_bound: "to_uint8 z < 256"
  by (simp add: to_uint8_def nat_less_iff)

lemma mod_negative: "- N \<le> z \<Longrightarrow> z < 0 \<Longrightarrow> z mod N = z + (N::int)"
proof -
  assume "- N \<le> z" "z < 0"
  then have "(z + N) mod N = z + N" by (intro mod_pos_pos_trivial) auto
  then show ?thesis by simp
qed

lemma to_int_to_size_t: "- 2147483648 \<le> z \<Longrightarrow> z < 0 \<Longrightarrow> to_int (int (to_size_t z)) = z"
proof -
  assume z: "- 2147483648 \<le> z" "z < 0"
  then have "int (to_size_t z) = z + 18446744073709551616"
    by (simp add: to_size_t_def mod_negative)
  then have "int (to_size_t z) + 2147483648 = (z + 2147483648) + 4294967296 * 4294967296" by simp
  then have "(int (to_size_t z) + 2147483648) mod 4294967296 = (z + 2147483648) mod 4294967296"
    by (metis mod_mult_self2)
  with z show ?thesis by (simp add: to_int_def)
qed

lemma c_MIN_min: "c_MIN a b = min a b"
  by (simp add: c_MIN_def min_def)

section \<open>Memory\<close>

type_synonym addr = nat
type_synonym mem = "addr \<Rightarrow> char option"

abbreviation (input) NULL :: addr where
  "NULL \<equiv> 0"

abbreviation (input) NUL :: char where
  "NUL \<equiv> CHR 0x00"

definition put_bytes :: "mem \<Rightarrow> addr \<Rightarrow> char list \<Rightarrow> mem" where
  "put_bytes m p bs = (\<lambda>a. if p \<le> a \<and> a < p + length bs then Some (bs ! (a - p)) else m a)"

definition accessible :: "mem \<Rightarrow> addr \<Rightarrow> nat \<Rightarrow> bool" where
  "accessible m p n = list_all (\<lambda>i. m (p + i) \<noteq> None) [0..<n]"

definition load_bytes :: "mem \<Rightarrow> addr \<Rightarrow> nat \<Rightarrow> char list option" where
  "load_bytes m p n = those (map (\<lambda>i. m (p + i)) [0..<n])"

definition store_bytes :: "mem \<Rightarrow> addr \<Rightarrow> char list \<Rightarrow> mem option" where
  "store_bytes m p bs = (if accessible m p (length bs) then Some (put_bytes m p bs) else None)"

definition bytes_at :: "mem \<Rightarrow> addr \<Rightarrow> char list \<Rightarrow> bool" where
  "bytes_at m p bs = list_all (\<lambda>i. m (p + i) = Some (bs ! i)) [0..<length bs]"

definition disjoint_ranges :: "addr \<Rightarrow> nat \<Rightarrow> addr \<Rightarrow> nat \<Rightarrow> bool" where
  "disjoint_ranges p n q k = (p + n \<le> q \<or> q + k \<le> p \<or> n = 0 \<or> k = 0)"

text \<open>\<open>unchanged m m' p n\<close>: the two memories agree outside the range of \<open>n\<close> bytes at \<open>p\<close>.\<close>

definition unchanged :: "mem \<Rightarrow> mem \<Rightarrow> addr \<Rightarrow> nat \<Rightarrow> bool" where
  "unchanged m m' p n = (\<forall>a. a < p \<or> p + n \<le> a \<longrightarrow> m' a = m a)"

definition alloc_bytes :: "mem \<Rightarrow> addr \<Rightarrow> char list \<Rightarrow> mem" where
  "alloc_bytes m p bs = put_bytes m p bs"

definition free_bytes :: "mem \<Rightarrow> addr \<Rightarrow> nat \<Rightarrow> mem" where
  "free_bytes m p n = (\<lambda>a. if p \<le> a \<and> a < p + n then None else m a)"

lemma accessible_iff: "accessible m p n \<longleftrightarrow> (\<forall>i<n. m (p + i) \<noteq> None)"
  by (auto simp: accessible_def list_all_iff)

lemma accessible_addr: "accessible m p n \<Longrightarrow> p \<le> a \<Longrightarrow> a < p + n \<Longrightarrow> m a \<noteq> None"
  unfolding accessible_iff by (metis add_diff_inverse_nat leD nat_add_left_cancel_less)

lemma accessible_0 [simp]: "accessible m p 0"
  by (simp add: accessible_def)

lemma accessible_sub: "accessible m p n \<Longrightarrow> p \<le> q \<Longrightarrow> q + k \<le> p + n \<Longrightarrow> accessible m q k"
proof -
  assume a: "accessible m p n" and b: "p \<le> q" "q + k \<le> p + n"
  have "m (q + i) \<noteq> None" if "i < k" for i
    by (rule accessible_addr [OF a]) (use b that in linarith)+
  then show ?thesis by (simp add: accessible_iff)
qed

lemma bytes_at_iff: "bytes_at m p bs \<longleftrightarrow> (\<forall>i<length bs. m (p + i) = Some (bs ! i))"
  by (auto simp: bytes_at_def list_all_iff)

lemma bytes_at_Nil [simp]: "bytes_at m p []"
  by (simp add: bytes_at_def)

lemma bytes_at_Cons [simp]: "bytes_at m p (b # bs) \<longleftrightarrow> m p = Some b \<and> bytes_at m (Suc p) bs"
  by (simp add: bytes_at_iff All_less_Suc2)

lemma bytes_at_append [simp]:
  "bytes_at m p (bs @ cs) \<longleftrightarrow> bytes_at m p bs \<and> bytes_at m (p + length bs) cs"
  by (induction bs arbitrary: p) auto

lemma bytes_at_accessible: "bytes_at m p bs \<Longrightarrow> accessible m p (length bs)"
  by (simp add: bytes_at_iff accessible_iff)

lemma bytes_at_take: "bytes_at m p bs \<Longrightarrow> bytes_at m p (take n bs)"
  by (simp add: bytes_at_iff)

lemma bytes_at_cong:
  "bytes_at m p bs \<Longrightarrow> (\<And>a. p \<le> a \<Longrightarrow> a < p + length bs \<Longrightarrow> m' a = m a) \<Longrightarrow> bytes_at m' p bs"
  by (simp add: bytes_at_iff)

lemma those_map_Some:
  "(\<And>x. x \<in> set xs \<Longrightarrow> f x = Some (g x)) \<Longrightarrow> those (map f xs) = Some (map g xs)"
  by (induction xs) auto

lemma those_Some_iff: "those xs = Some ys \<longleftrightarrow> xs = map Some ys"
proof (induction xs arbitrary: ys)
  case (Cons x xs)
  then show ?case by (cases x; cases ys) auto
qed auto

lemma load_bytes_iff: "load_bytes m p n = Some bs \<longleftrightarrow> length bs = n \<and> bytes_at m p bs"
  unfolding load_bytes_def those_Some_iff bytes_at_iff
  by (auto simp: list_eq_iff_nth_eq)

lemma load_bytes_at [mem_simps]: "bytes_at m p bs \<Longrightarrow> n = length bs \<Longrightarrow> load_bytes m p n = Some bs"
  by (simp add: load_bytes_iff)

lemma load_bytes_length: "load_bytes m p n = Some bs \<Longrightarrow> length bs = n"
  by (simp add: load_bytes_iff)

lemma load_bytes_accessible: "accessible m p n \<Longrightarrow> \<exists>bs. load_bytes m p n = Some bs"
proof -
  assume a: "accessible m p n"
  have "load_bytes m p n = Some (map (\<lambda>i. the (m (p + i))) [0..<n])"
    unfolding load_bytes_def by (rule those_map_Some) (use a in \<open>auto simp: accessible_iff\<close>)
  then show ?thesis by blast
qed

lemma put_bytes_Nil [simp]: "put_bytes m p [] = m"
  by (auto simp: put_bytes_def fun_eq_iff)

lemma put_bytes_apply: "put_bytes m p bs a = (if p \<le> a \<and> a < p + length bs then Some (bs ! (a - p)) else m a)"
  by (simp add: put_bytes_def)

lemma put_bytes_outside [mem_simps]: "a < p \<or> p + length bs \<le> a \<Longrightarrow> put_bytes m p bs a = m a"
  by (auto simp: put_bytes_def)

lemma bytes_at_put_same [mem_simps]: "bytes_at (put_bytes m p bs) p bs"
  by (simp add: bytes_at_iff put_bytes_def)

lemma bytes_at_put_other:
  "bytes_at m q cs \<Longrightarrow> disjoint_ranges p (length bs) q (length cs) \<Longrightarrow> bytes_at (put_bytes m p bs) q cs"
  by (auto simp: bytes_at_iff put_bytes_def disjoint_ranges_def)

lemma put_bytes_append: "put_bytes m p (bs @ cs) = put_bytes (put_bytes m p bs) (p + length bs) cs"
  by (auto simp: put_bytes_def fun_eq_iff nth_append)

lemma put_bytes_shadow: "length bs \<le> length cs \<Longrightarrow> put_bytes (put_bytes m p bs) p cs = put_bytes m p cs"
  by (auto simp: put_bytes_def fun_eq_iff)

lemma accessible_put [mem_simps]: "accessible m q k \<Longrightarrow> accessible (put_bytes m p bs) q k"
  by (auto simp: accessible_iff put_bytes_def)

lemma unchanged_put: "p \<le> q \<Longrightarrow> q + length bs \<le> p + n \<Longrightarrow> unchanged m (put_bytes m q bs) p n"
  by (auto simp: unchanged_def put_bytes_def)

lemma unchanged_refl [simp]: "unchanged m m p n"
  by (simp add: unchanged_def)

lemma unchanged_trans: "unchanged m m' p n \<Longrightarrow> unchanged m' m'' p n \<Longrightarrow> unchanged m m'' p n"
  by (simp add: unchanged_def)

lemma unchanged_sub: "unchanged m m' q k \<Longrightarrow> p \<le> q \<Longrightarrow> q + k \<le> p + n \<Longrightarrow> unchanged m m' p n"
  by (auto simp: unchanged_def)

lemma bytes_at_unchanged:
  "bytes_at m q cs \<Longrightarrow> unchanged m m' p n \<Longrightarrow> disjoint_ranges p n q (length cs) \<Longrightarrow> bytes_at m' q cs"
  by (erule bytes_at_cong) (auto simp: disjoint_ranges_def unchanged_def)

lemma store_bytes_ok [mem_simps]: "accessible m p (length bs) \<Longrightarrow> store_bytes m p bs = Some (put_bytes m p bs)"
  by (simp add: store_bytes_def)

lemma store_bytes_SomeD: "store_bytes m p bs = Some m' \<Longrightarrow> m' = put_bytes m p bs \<and> accessible m p (length bs)"
  by (simp add: store_bytes_def split: if_splits)

end
