(* ===== verification/C_Runtime.thy ===== *)
theory C_Runtime
  imports Prelude
begin

text \<open>
  What the sources use of the C library and of the macro package they include.

  The rendering of a format by the C library is the field \<open>fmt\<close> of the environment
  \<open>c_env\<close>: \<^term>\<open>None\<close> is an encoding error, which every caller in the sources
  handles.  \<open>c_printf\<close> is an executable model of the conversions the sources use
  (\<open>%s\<close>, \<open>%.Ns\<close>, \<open>%d\<close>, \<open>%u\<close>, \<open>%x\<close> with length modifiers);
  an environment is \<open>conforming\<close> when its library agrees with \<open>c_printf\<close> wherever
  that model is defined.  Truncation, the null terminator and the return value of the
  \<open>printf\<close> family are modelled here once, on the memory of \<open>Prelude\<close>.

  The macros of the \<open>macro_utils\<close> submodule (\<open>MU_FAILURE\<close>, \<open>MU_BOOL_VALUE\<close>,
  \<open>MU_P_OR_NULL\<close>, \<open>MU_WP_OR_NULL\<close>, \<open>MU_ENUM_TO_STRING\<close>, \<open>PRI_MU_ENUM\<close>, \<open>MU_ENUM_VALUE\<close>) are fields of
  the environment.
\<close>

section \<open>Numbers as text and as bytes\<close>

definition digit_char :: "nat \<Rightarrow> char" where
  "digit_char d = char_of (if d < 10 then 48 + d else 87 + d)"

fun show_base :: "nat \<Rightarrow> nat \<Rightarrow> string" where
  "show_base b n =
     (if b < 2 \<or> n < b then [digit_char n] else show_base b (n div b) @ [digit_char (n mod b)])"

declare show_base.simps [simp del]

definition show_nat :: "nat \<Rightarrow> string" where
  "show_nat = show_base 10"

definition show_hex :: "nat \<Rightarrow> string" where
  "show_hex = show_base 16"

definition show_int :: "int \<Rightarrow> string" where
  "show_int z = (if z < 0 then CHR ''-'' # show_nat (nat (- z)) else show_nat (nat z))"

definition digit_value :: "char \<Rightarrow> nat" where
  "digit_value c = (if of_char c < (58::nat) then of_char c - 48 else of_char c - 87)"

definition read_base :: "nat \<Rightarrow> string \<Rightarrow> nat" where
  "read_base b s = foldl (\<lambda>acc c. acc * b + digit_value c) 0 s"

definition read_int :: "string \<Rightarrow> int" where
  "read_int s = (case s of c # cs \<Rightarrow> (if c = CHR ''-'' then - int (read_base 10 cs) else int (read_base 10 s))
                 | [] \<Rightarrow> 0)"

fun le_bytes :: "nat \<Rightarrow> nat \<Rightarrow> char list" where
  "le_bytes 0 v = []"
| "le_bytes (Suc k) v = char_of (v mod 256) # le_bytes k (v div 256)"

fun le_nat :: "char list \<Rightarrow> nat" where
  "le_nat [] = 0"
| "le_nat (c # cs) = of_char c + 256 * le_nat cs"

lemma digit_value_char: "d < 16 \<Longrightarrow> digit_value (digit_char d) = d"
  by (auto simp: digit_value_def digit_char_def)

lemma read_base_append: "read_base b (s @ [c]) = read_base b s * b + digit_value c"
  by (simp add: read_base_def)

lemma read_show_base: "2 \<le> b \<Longrightarrow> b \<le> 16 \<Longrightarrow> read_base b (show_base b n) = n"
proof (induction b n rule: show_base.induct)
  case (1 b n)
  show ?case
  proof (cases "n < b")
    case True
    with 1 show ?thesis
      by (subst show_base.simps) (simp add: read_base_def digit_value_char)
  next
    case False
    have "n mod b < b" using 1(2) by simp
    then have "n mod b < 16" using 1(3) by linarith
    with False 1 show ?thesis
      by (subst show_base.simps) (auto simp: read_base_append digit_value_char)
  qed
qed

lemma show_base_not_Nil [simp]: "show_base b n \<noteq> []"
  by (subst show_base.simps) simp

lemma digit_char_not_NUL: "d < 16 \<Longrightarrow> digit_char d \<noteq> NUL"
proof
  assume "d < 16" and "digit_char d = NUL"
  then have "of_char (digit_char d) = (0::nat)" by simp
  with \<open>d < 16\<close> show False by (simp add: digit_char_def split: if_splits)
qed

lemma show_base_digit: "c \<in> set (show_base b n) \<Longrightarrow> 2 \<le> b \<Longrightarrow> b \<le> 16 \<Longrightarrow> \<exists>d<b. c = digit_char d"
proof (induction b n rule: show_base.induct)
  case (1 b n)
  show ?case
  proof (cases "n < b")
    case True
    with 1(2) show ?thesis by (subst (asm) show_base.simps) auto
  next
    case False
    with 1(2,3) consider "c \<in> set (show_base b (n div b))" | "c = digit_char (n mod b)"
      by (subst (asm) show_base.simps) auto
    then show ?thesis
    proof cases
      case 1
      with False \<open>2 \<le> b\<close> \<open>b \<le> 16\<close> show ?thesis using "1.IH" by simp
    next
      case 2
      moreover have "n mod b < b" using \<open>2 \<le> b\<close> by simp
      ultimately show ?thesis by blast
    qed
  qed
qed

lemma show_base_no_NUL: "2 \<le> b \<Longrightarrow> b \<le> 16 \<Longrightarrow> NUL \<notin> set (show_base b n)"
  using show_base_digit [of NUL b n] by (metis digit_char_not_NUL less_le_trans)

lemma show_nat_head: "show_nat n = c # cs \<Longrightarrow> c \<noteq> CHR ''-''"
proof -
  assume a: "show_nat n = c # cs"
  then have "c \<in> set (show_base 10 n)" by (simp add: show_nat_def)
  then obtain d where "d < 10" "c = digit_char d" using show_base_digit [of c 10 n] by auto
  moreover have "of_char (digit_char d) = 48 + d" using \<open>d < 10\<close> by (simp add: digit_char_def)
  ultimately have "of_char c = 48 + d" "of_char (CHR ''-'') = (45::nat)" by simp_all
  then show "c \<noteq> CHR ''-''" by auto
qed

lemma read_show_int [simp]: "read_int (show_int z) = z"
proof (cases "z < 0")
  case True
  then show ?thesis by (simp add: show_int_def read_int_def show_nat_def read_show_base)
next
  case False
  obtain c cs where cs: "show_nat (nat z) = c # cs"
    by (cases "show_nat (nat z)") (auto simp: show_nat_def)
  have "read_base 10 (c # cs) = nat z"
    by (simp add: cs [symmetric] show_nat_def read_show_base)
  with False cs show_nat_head [OF cs] show ?thesis
    by (simp add: show_int_def read_int_def)
qed

lemma show_int_no_NUL: "NUL \<notin> set (show_int z)"
  by (auto simp: show_int_def show_nat_def show_base_no_NUL)

lemma length_show_base: "2 \<le> b \<Longrightarrow> n < b ^ Suc k \<Longrightarrow> length (show_base b n) \<le> Suc k"
proof (induction k arbitrary: n)
  case 0
  then show ?case by (subst show_base.simps) simp
next
  case (Suc k)
  show ?case
  proof (cases "n < b")
    case True
    then show ?thesis by (subst show_base.simps) simp
  next
    case False
    from Suc.prems have "n div b < b ^ Suc k"
      by (simp add: less_mult_imp_div_less mult.commute)
    with Suc False show ?thesis by (subst show_base.simps) simp
  qed
qed

lemma length_le_bytes [simp]: "length (le_bytes k v) = k"
  by (induction k arbitrary: v) auto

lemma le_nat_le_bytes: "le_nat (le_bytes k v) = v mod 256 ^ k"
proof (induction k arbitrary: v)
  case (Suc k)
  have "v mod 256 ^ Suc k = v mod 256 + 256 * (v div 256 mod 256 ^ k)"
    by (simp add: mod_mult2_eq mult.commute)
  with Suc show ?case by simp
qed auto

lemma base_256_step: "a < 256 \<Longrightarrow> n < B \<Longrightarrow> a + 256 * n < 256 * (B::nat)"
  by linarith

lemma le_nat_bound: "le_nat cs < 256 ^ length cs"
  by (induction cs) (auto intro: base_256_step)

section \<open>The environment\<close>

datatype carg = AStr string | AInt int | AWstr "nat list" | APtr addr

record c_env =
  fmt :: "string \<Rightarrow> carg list \<Rightarrow> string option"
  wfmt :: "nat list \<Rightarrow> carg list \<Rightarrow> nat list option"
  wctomb :: "nat \<Rightarrow> string option"
  sizeof_wchar_t :: nat
  MU_FAILURE :: int
  MU_BOOL_VALUE :: "bool \<Rightarrow> string"
  MU_P_OR_NULL :: "string option \<Rightarrow> string"
  MU_WP_OR_NULL :: "nat list option \<Rightarrow> nat list"
  MU_ENUM_TO_STRING_LOG_LEVEL :: "int \<Rightarrow> string"
  PRI_MU_ENUM :: string
  MU_ENUM_VALUE :: "string \<Rightarrow> int \<Rightarrow> carg list"

text \<open>A call to \<open>printf\<close>: its format and its arguments.\<close>

datatype stdout_call = Printf string "carg list"

definition CRLF :: string where
  "CRLF = [CHR 0x0D, CHR 0x0A]"

section \<open>Formats\<close>

definition is_digit :: "char \<Rightarrow> bool" where
  "is_digit c = (c \<in> set ''0123456789'')"

text \<open>
  The conversions the sources use: strings with or without a precision, and integers without
  one.  The modifiers \<open>h\<close>, \<open>l\<close> and \<open>z\<close> are read over: the sources pass each integer in the
  range of the type its modifier names.
\<close>

definition c_conv :: "nat option \<Rightarrow> char \<Rightarrow> carg \<Rightarrow> string option" where
  "c_conv prec c a =
     (case a of
        AStr s \<Rightarrow> (if c = CHR ''s'' then Some (case prec of None \<Rightarrow> s | Some n \<Rightarrow> take n s) else None)
      | AInt i \<Rightarrow>
          (if prec \<noteq> None then None
           else if c = CHR ''d'' then Some (show_int i)
           else if c = CHR ''u'' \<and> 0 \<le> i then Some (show_nat (nat i))
           else if c = CHR ''x'' \<and> 0 \<le> i then Some (show_hex (nat i))
           else None)
      | AWstr _ \<Rightarrow> None
      | APtr _ \<Rightarrow> None)"

text \<open>
  The first argument is the state of the scan: \<^term>\<open>None\<close> in literal text,
  \<open>Some prec\<close> inside a conversion specification whose precision so far is \<open>prec\<close>.
\<close>

fun c_format :: "nat option option \<Rightarrow> string \<Rightarrow> carg list \<Rightarrow> string option" where
  "c_format st [] args = (if st = None then Some [] else None)"
| "c_format None (c # f) args =
     (if c = CHR ''%'' then c_format (Some None) f args
      else map_option ((#) c) (c_format None f args))"
| "c_format (Some prec) (c # f) args =
     (if c = CHR ''.'' then c_format (Some (Some 0)) f args
      else if is_digit c then
        (case prec of None \<Rightarrow> None | Some n \<Rightarrow> c_format (Some (Some (10 * n + digit_value c))) f args)
      else if c \<in> set ''hlz'' then c_format (Some prec) f args
      else if c = CHR ''%'' then map_option ((#) c) (c_format None f args)
      else (case args of
              [] \<Rightarrow> None
            | a # as \<Rightarrow> (case c_conv prec c a of
                           None \<Rightarrow> None
                         | Some s \<Rightarrow> map_option ((@) s) (c_format None f as))))"

definition c_printf :: "string \<Rightarrow> carg list \<Rightarrow> string option" where
  "c_printf f args = c_format None f args"

definition conforming :: "c_env \<Rightarrow> bool" where
  "conforming E = ((\<forall>f args s. c_printf f args = Some s \<longrightarrow> fmt E f args = Some s) \<and> MU_FAILURE E \<noteq> 0)"

lemma conforming_fmt: "conforming E \<Longrightarrow> c_printf f args = Some s \<Longrightarrow> fmt E f args = Some s"
  by (simp add: conforming_def)

lemma conforming_failure: "conforming E \<Longrightarrow> MU_FAILURE E \<noteq> 0"
  by (simp add: conforming_def)

lemma c_printf_s [simp]: "c_printf ''%s'' [AStr s] = Some s"
  by (simp add: c_printf_def c_conv_def is_digit_def)

section \<open>Strings in memory\<close>

partial_function (option) c_str :: "mem \<Rightarrow> addr \<Rightarrow> string option" where
  "c_str m p = Option.bind (m p) (\<lambda>c. if c = NUL then Some []
     else Option.bind (c_str m (Suc p)) (\<lambda>s. Some (c # s)))"

lemma c_str_at: "bytes_at m p (s @ [NUL]) \<Longrightarrow> NUL \<notin> set s \<Longrightarrow> c_str m p = Some s"
proof (induction s arbitrary: p)
  case Nil
  then show ?case by (subst c_str.simps) simp
next
  case (Cons c s)
  then have "c_str m (Suc p) = Some s" by simp
  with Cons.prems show ?case by (subst c_str.simps) auto
qed

lemma c_str_SomeD: "c_str m p = Some s \<Longrightarrow> bytes_at m p (s @ [NUL]) \<and> NUL \<notin> set s"
proof (induction s arbitrary: p)
  case Nil
  then show ?case
    by (subst (asm) c_str.simps) (auto split: Option.bind_splits if_splits)
next
  case (Cons c s)
  then have "m p = Some c \<and> c \<noteq> NUL \<and> c_str m (Suc p) = Some s"
    by (subst (asm) c_str.simps) (auto split: Option.bind_splits if_splits)
  with Cons.IH [of "Suc p"] show ?case by auto
qed

lemma c_str_iff: "c_str m p = Some s \<longleftrightarrow> bytes_at m p (s @ [NUL]) \<and> NUL \<notin> set s"
  using c_str_at c_str_SomeD by blast

section \<open>The printf family\<close>

text \<open>
  \<open>put_cstr m buf n s\<close>: what \<open>snprintf\<close> stores of the text \<open>s\<close> in a buffer of \<open>n\<close>
  bytes: nothing for \<open>n = 0\<close>, else at most \<open>n - 1\<close> characters and the terminator.
\<close>

definition put_cstr :: "mem \<Rightarrow> addr \<Rightarrow> nat \<Rightarrow> string \<Rightarrow> mem" where
  "put_cstr m buf n s = (if n = 0 then m else put_bytes m buf (take (n - 1) s @ [NUL]))"

text \<open>
  A call that fails returns a negative number; what it may have stored before it failed is not
  modelled, the memory stays as it was.
\<close>

definition vsnprintf :: "c_env \<Rightarrow> addr \<Rightarrow> nat \<Rightarrow> string \<Rightarrow> carg list \<Rightarrow> mem \<Rightarrow> (int \<times> mem) option" where
  "vsnprintf E buf n f args m =
     (case fmt E f args of
        None \<Rightarrow> Some (- 1, m)
      | Some s \<Rightarrow>
          if int (length s) > INT_MAX then Some (- 1, m)
          else if n = 0 then Some (int (length s), m)
          else (case store_bytes m buf (take (n - 1) s @ [NUL]) of
                  None \<Rightarrow> None
                | Some m' \<Rightarrow> Some (int (length s), m')))"

abbreviation (input) snprintf :: "c_env \<Rightarrow> addr \<Rightarrow> nat \<Rightarrow> string \<Rightarrow> carg list \<Rightarrow> mem \<Rightarrow> (int \<times> mem) option" where
  "snprintf \<equiv> vsnprintf"

definition vsprintf :: "c_env \<Rightarrow> addr \<Rightarrow> string \<Rightarrow> carg list \<Rightarrow> mem \<Rightarrow> (int \<times> mem) option" where
  "vsprintf E buf f args m =
     (case fmt E f args of
        None \<Rightarrow> Some (- 1, m)
      | Some s \<Rightarrow>
          if int (length s) > INT_MAX then Some (- 1, m)
          else (case store_bytes m buf (s @ [NUL]) of
                  None \<Rightarrow> None
                | Some m' \<Rightarrow> Some (int (length s), m')))"

lemma vsnprintf_ok [mem_simps]:
  "fmt E f args = Some s \<Longrightarrow> int (length s) \<le> INT_MAX \<Longrightarrow> accessible m buf n \<Longrightarrow>
   vsnprintf E buf n f args m = Some (int (length s), put_cstr m buf n s)"
  using accessible_sub [of m buf n buf "Suc (min (length s) (n - 1))"]
  by (cases n) (auto simp: vsnprintf_def put_cstr_def store_bytes_def)

lemma vsnprintf_total:
  assumes "accessible m buf n"
  shows "\<exists>r m'. vsnprintf E buf n f args m = Some (r, m') \<and> unchanged m m' buf n \<and>
           (\<forall>q k. accessible m q k \<longrightarrow> accessible m' q k) \<and> - 1 \<le> r \<and> r \<le> INT_MAX"
proof (cases "fmt E f args")
  case None
  then show ?thesis by (simp add: vsnprintf_def INT_MAX_def)
next
  case (Some s)
  show ?thesis
  proof (cases "int (length s) > INT_MAX")
    case True
    with Some show ?thesis by (simp add: vsnprintf_def INT_MAX_def)
  next
    case False
    with Some assms have "vsnprintf E buf n f args m = Some (int (length s), put_cstr m buf n s)"
      by (simp add: mem_simps)
    moreover have "unchanged m (put_cstr m buf n s) buf n"
      by (auto simp: put_cstr_def intro!: unchanged_put)
    ultimately show ?thesis using False by (auto simp: put_cstr_def mem_simps)
  qed
qed

section \<open>Copies\<close>

definition memcpy :: "addr \<Rightarrow> addr \<Rightarrow> nat \<Rightarrow> mem \<Rightarrow> mem option" where
  "memcpy dst src n m = do { bs \<leftarrow> load_bytes m src n; store_bytes m dst bs }"

definition strcpy :: "addr \<Rightarrow> addr \<Rightarrow> mem \<Rightarrow> mem option" where
  "strcpy dst src m = do { s \<leftarrow> c_str m src; store_bytes m dst (s @ [NUL]) }"

lemma memcpy_ok [mem_simps]:
  "bytes_at m src bs \<Longrightarrow> length bs = n \<Longrightarrow> accessible m dst n \<Longrightarrow> memcpy dst src n m = Some (put_bytes m dst bs)"
  by (simp add: memcpy_def mem_simps)

lemma strcpy_ok [mem_simps]:
  "c_str m src = Some s \<Longrightarrow> accessible m dst (Suc (length s)) \<Longrightarrow> strcpy dst src m = Some (put_bytes m dst (s @ [NUL]))"
  by (simp add: strcpy_def mem_simps)

section \<open>Wide strings\<close>

definition wchar_bytes :: "c_env \<Rightarrow> nat \<Rightarrow> char list" where
  "wchar_bytes E w = le_bytes (sizeof_wchar_t E) w"

definition wcs_bytes :: "c_env \<Rightarrow> nat list \<Rightarrow> char list" where
  "wcs_bytes E ws = concat (map (wchar_bytes E) (ws @ [0]))"

definition wide :: "c_env \<Rightarrow> nat list \<Rightarrow> bool" where
  "wide E ws = list_all (\<lambda>w. 0 < w \<and> w < 256 ^ sizeof_wchar_t E) ws"

partial_function (option) c_wcs :: "c_env \<Rightarrow> mem \<Rightarrow> addr \<Rightarrow> nat list option" where
  "c_wcs E m p = Option.bind (load_bytes m p (sizeof_wchar_t E)) (\<lambda>bs. if le_nat bs = 0 then Some []
     else Option.bind (c_wcs E m (p + sizeof_wchar_t E)) (\<lambda>ws. Some (le_nat bs # ws)))"

lemma length_wcs_bytes [simp]: "length (wcs_bytes E ws) = sizeof_wchar_t E * (length ws + 1)"
  by (induction ws) (simp_all add: wcs_bytes_def wchar_bytes_def)

lemma c_wcs_at: "bytes_at m p (wcs_bytes E ws) \<Longrightarrow> wide E ws \<Longrightarrow> c_wcs E m p = Some ws"
proof (induction ws arbitrary: p)
  case Nil
  then have "load_bytes m p (sizeof_wchar_t E) = Some (wchar_bytes E 0)"
    by (intro load_bytes_at) (simp_all add: wcs_bytes_def wchar_bytes_def)
  then show ?case
    by (subst c_wcs.simps) (simp add: wchar_bytes_def le_nat_le_bytes)
next
  case (Cons w ws)
  from Cons.prems have here: "load_bytes m p (sizeof_wchar_t E) = Some (wchar_bytes E w)"
    by (intro load_bytes_at) (simp_all add: wcs_bytes_def wchar_bytes_def)
  from Cons.prems have rest: "c_wcs E m (p + sizeof_wchar_t E) = Some ws"
    by (intro Cons.IH) (simp_all add: wcs_bytes_def wchar_bytes_def wide_def)
  from Cons.prems(2) have "le_nat (wchar_bytes E w) = w" "w \<noteq> 0"
    by (simp_all add: wide_def wchar_bytes_def le_nat_le_bytes)
  with here rest show ?case by (subst c_wcs.simps) simp
qed

fun mbs :: "c_env \<Rightarrow> nat list \<Rightarrow> string option" where
  "mbs E [] = Some []"
| "mbs E (w # ws) = do { b \<leftarrow> wctomb E w; s \<leftarrow> mbs E ws; Some (b @ s) }"

text \<open>
  \<open>mbs_fill E n ws\<close>: the bytes \<open>wcstombs\<close> stores in a buffer of \<open>n\<close> bytes, and whether
  the terminator still fits.  The conversion stops before the first character whose bytes
  would not fit.
\<close>

fun mbs_fill :: "c_env \<Rightarrow> nat \<Rightarrow> nat list \<Rightarrow> (string \<times> bool) option" where
  "mbs_fill E n [] = Some ([], 0 < n)"
| "mbs_fill E n (w # ws) =
     (case wctomb E w of
        None \<Rightarrow> None
      | Some b \<Rightarrow>
          if length b \<le> n then map_option (\<lambda>(s, z). (b @ s, z)) (mbs_fill E (n - length b) ws)
          else Some ([], False))"

definition wcstombs :: "c_env \<Rightarrow> addr \<Rightarrow> addr \<Rightarrow> nat \<Rightarrow> mem \<Rightarrow> (nat \<times> mem) option" where
  "wcstombs E dst src n m = do {
     ws \<leftarrow> c_wcs E m src;
     if dst = NULL then
       (case mbs E ws of None \<Rightarrow> Some (to_size_t (- 1), m) | Some s \<Rightarrow> Some (length s, m))
     else
       (case mbs_fill E n ws of
          None \<Rightarrow> Some (to_size_t (- 1), m)
        | Some (s, z) \<Rightarrow> do { m' \<leftarrow> store_bytes m dst (if z then s @ [NUL] else s); Some (length s, m') }) }"

definition vswprintf_result :: "c_env \<Rightarrow> nat \<Rightarrow> nat list \<Rightarrow> carg list \<Rightarrow> int" where
  "vswprintf_result E n f args =
     (case wfmt E f args of
        None \<Rightarrow> - 1
      | Some ws \<Rightarrow> if n \<le> length ws \<or> INT_MAX < int (length ws) then - 1 else int (length ws))"

definition vswprintf :: "c_env \<Rightarrow> addr \<Rightarrow> nat \<Rightarrow> nat list \<Rightarrow> carg list \<Rightarrow> mem \<Rightarrow> (int \<times> mem) option" where
  "vswprintf E dst n f args m =
     (if vswprintf_result E n f args < 0 then Some (- 1, m)
      else do {
        m' \<leftarrow> store_bytes m dst (wcs_bytes E (the (wfmt E f args)));
        Some (vswprintf_result E n f args, m') })"

definition wcscpy :: "c_env \<Rightarrow> addr \<Rightarrow> addr \<Rightarrow> mem \<Rightarrow> mem option" where
  "wcscpy E dst src m = do { ws \<leftarrow> c_wcs E m src; store_bytes m dst (wcs_bytes E ws) }"

lemma mbs_fill_length: "mbs_fill E n ws = Some (s, z) \<Longrightarrow> length s \<le> n \<and> (z \<longrightarrow> length s < n)"
proof (induction E n ws arbitrary: s z rule: mbs_fill.induct)
  case (2 E n w ws)
  then show ?case by (fastforce split: option.splits if_splits)
qed auto

lemma mbs_fill_complete: "mbs E ws = Some s \<Longrightarrow> length s < n \<Longrightarrow> mbs_fill E n ws = Some (s, True)"
proof (induction E n ws arbitrary: s rule: mbs_fill.induct)
  case (2 E n w ws)
  from "2.prems" obtain b s' where b: "wctomb E w = Some b" and s': "mbs E ws = Some s'" "s = b @ s'"
    by (auto split: Option.bind_splits)
  with 2 have "mbs_fill E (n - length b) ws = Some (s', True)" by auto
  with b s' "2.prems" show ?case by simp
qed auto

section \<open>The environment the witnesses use\<close>

text \<open>A C locale on a platform with 32-bit wide characters.\<close>

definition std_env :: c_env where
  "std_env =
     \<lparr>fmt = c_printf,
      wfmt = (\<lambda>f args. if args = [] then Some f else None),
      wctomb = (\<lambda>w. if w < 128 then Some [char_of w] else None),
      sizeof_wchar_t = 4,
      MU_FAILURE = 1,
      MU_BOOL_VALUE = (\<lambda>b. if b then ''true'' else ''false''),
      MU_P_OR_NULL = (\<lambda>p. case p of None \<Rightarrow> ''NULL'' | Some s \<Rightarrow> s),
      MU_WP_OR_NULL = (\<lambda>p. case p of None \<Rightarrow> [78, 85, 76, 76] | Some ws \<Rightarrow> ws),
      MU_ENUM_TO_STRING_LOG_LEVEL = (\<lambda>v.
        if v = 0 then ''LOG_LEVEL_CRITICAL'' else if v = 1 then ''LOG_LEVEL_ERROR''
        else if v = 2 then ''LOG_LEVEL_WARNING'' else if v = 3 then ''LOG_LEVEL_INFO''
        else if v = 4 then ''LOG_LEVEL_VERBOSE'' else ''?''),
      PRI_MU_ENUM = ''d'',
      MU_ENUM_VALUE = (\<lambda>t v. [AInt v])\<rparr>"

lemma conforming_std_env: "conforming std_env"
  by (simp add: conforming_def std_env_def)

end
