(* ===== verification/Property_Types.thy ===== *)
theory Property_Types
  imports C_Runtime
begin

text \<open>
  The property types: \<open>log_context_property_type.h\<close>, \<open>log_context_property_type_if.h\<close>,
  \<open>log_context_property_basic_types.c\<close>, \<open>log_context_property_bool_type.c\<close>,
  \<open>log_context_property_type_struct.c\<close>, \<open>log_context_property_type_ascii_char_ptr.c\<close>
  and \<open>log_context_property_type_wchar_t_ptr.c\<close>.  A type is a record of functions on
  memory, as the source's struct of function pointers is.  The locales state what the
  contexts and the printer rely on: \<open>copyable_type\<close>, \<open>fitting_type\<close> (the text is written
  when it fits) and \<open>printable_type\<close> (it is truncated and terminated when it does not).
  A function gives its result, what it prints and the memory; it prints a diagnostic when it
  is called with invalid arguments and nothing otherwise.
\<close>

section \<open>The interface\<close>

datatype LOG_CONTEXT_PROPERTY_TYPE =
    LOG_CONTEXT_PROPERTY_TYPE_ascii_char_ptr
  | LOG_CONTEXT_PROPERTY_TYPE_bool
  | LOG_CONTEXT_PROPERTY_TYPE_int64_t
  | LOG_CONTEXT_PROPERTY_TYPE_uint64_t
  | LOG_CONTEXT_PROPERTY_TYPE_int32_t
  | LOG_CONTEXT_PROPERTY_TYPE_uint32_t
  | LOG_CONTEXT_PROPERTY_TYPE_int16_t
  | LOG_CONTEXT_PROPERTY_TYPE_uint16_t
  | LOG_CONTEXT_PROPERTY_TYPE_int8_t
  | LOG_CONTEXT_PROPERTY_TYPE_uint8_t
  | LOG_CONTEXT_PROPERTY_TYPE_struct
  | LOG_CONTEXT_PROPERTY_TYPE_wchar_t_ptr
  | LOG_CONTEXT_PROPERTY_TYPE_other int \<comment> \<open>any value that is not an enumerator\<close>

record LOG_CONTEXT_PROPERTY_TYPE_IF =
  to_string :: "addr \<Rightarrow> addr \<Rightarrow> nat \<Rightarrow> mem \<Rightarrow> (int \<times> stdout_call list \<times> mem) option"
  copy :: "addr \<Rightarrow> addr \<Rightarrow> mem \<Rightarrow> (int \<times> stdout_call list \<times> mem) option"
  free :: "addr \<Rightarrow> mem \<Rightarrow> mem"
  get_type :: LOG_CONTEXT_PROPERTY_TYPE

text \<open>A call that prints nothing, and the diagnostics several types share.\<close>

definition silent :: "('a \<times> mem) option \<Rightarrow> ('a \<times> stdout_call list \<times> mem) option" where
  "silent x = map_option (\<lambda>(r, m). (r, [], m)) x"

lemma silent_simps [simp]:
  "silent (Some (r, m)) = Some (r, [], m)" "silent None = None"
  by (simp_all add: silent_def)

definition invalid_to_string :: "addr \<Rightarrow> addr \<Rightarrow> nat \<Rightarrow> stdout_call" where
  "invalid_to_string property_value buffer buffer_length =
     Printf (''Invalid arguments: const void* property_value=%p, char* buffer=%p, size_t buffer_length=%zu'' @ CRLF)
       [APtr property_value, APtr buffer, AInt (int buffer_length)]"

definition invalid_copy :: "string \<Rightarrow> addr \<Rightarrow> addr \<Rightarrow> stdout_call" where
  "invalid_copy parameters dst_value src_value =
     Printf (''Invalid arguments: '' @ parameters @ CRLF) [APtr dst_value, APtr src_value]"

section \<open>Basic types\<close>

datatype basic_type = int64_t | uint64_t | int32_t | uint32_t | int16_t | uint16_t | int8_t | uint8_t

fun sizeof_basic :: "basic_type \<Rightarrow> nat" where
  "sizeof_basic int64_t = 8"
| "sizeof_basic uint64_t = 8"
| "sizeof_basic int32_t = 4"
| "sizeof_basic uint32_t = 4"
| "sizeof_basic int16_t = 2"
| "sizeof_basic uint16_t = 2"
| "sizeof_basic int8_t = 1"
| "sizeof_basic uint8_t = 1"

fun signed_basic :: "basic_type \<Rightarrow> bool" where
  "signed_basic int64_t = True"
| "signed_basic uint64_t = False"
| "signed_basic int32_t = True"
| "signed_basic uint32_t = False"
| "signed_basic int16_t = True"
| "signed_basic uint16_t = False"
| "signed_basic int8_t = True"
| "signed_basic uint8_t = False"

text \<open>The format macros of \<open>inttypes.h\<close> the table at the end of the source passes.\<close>

fun print_format_string :: "basic_type \<Rightarrow> string" where
  "print_format_string int64_t = ''ld''"
| "print_format_string uint64_t = ''lu''"
| "print_format_string int32_t = ''d''"
| "print_format_string uint32_t = ''u''"
| "print_format_string int16_t = ''d''"
| "print_format_string uint16_t = ''u''"
| "print_format_string int8_t = ''d''"
| "print_format_string uint8_t = ''u''"

fun basic_type_tag :: "basic_type \<Rightarrow> LOG_CONTEXT_PROPERTY_TYPE" where
  "basic_type_tag int64_t = LOG_CONTEXT_PROPERTY_TYPE_int64_t"
| "basic_type_tag uint64_t = LOG_CONTEXT_PROPERTY_TYPE_uint64_t"
| "basic_type_tag int32_t = LOG_CONTEXT_PROPERTY_TYPE_int32_t"
| "basic_type_tag uint32_t = LOG_CONTEXT_PROPERTY_TYPE_uint32_t"
| "basic_type_tag int16_t = LOG_CONTEXT_PROPERTY_TYPE_int16_t"
| "basic_type_tag uint16_t = LOG_CONTEXT_PROPERTY_TYPE_uint16_t"
| "basic_type_tag int8_t = LOG_CONTEXT_PROPERTY_TYPE_int8_t"
| "basic_type_tag uint8_t = LOG_CONTEXT_PROPERTY_TYPE_uint8_t"

text \<open>The object representation of a value of a basic type: little endian, two's complement.\<close>

definition encode_basic :: "basic_type \<Rightarrow> int \<Rightarrow> char list" where
  "encode_basic t z = le_bytes (sizeof_basic t) (nat (z mod 256 ^ sizeof_basic t))"

definition decode_basic :: "basic_type \<Rightarrow> char list \<Rightarrow> int" where
  "decode_basic t bs =
     (let v = int (le_nat bs); n = sizeof_basic t in
      if signed_basic t \<and> 2 * v \<ge> 256 ^ n then v - 256 ^ n else v)"

definition in_basic :: "basic_type \<Rightarrow> int \<Rightarrow> bool" where
  "in_basic t z =
     (if signed_basic t then - (256 ^ sizeof_basic t) \<le> 2 * z \<and> 2 * z < 256 ^ sizeof_basic t
      else 0 \<le> z \<and> z < 256 ^ sizeof_basic t)"

definition basic_log_context_property_type_to_string ::
    "c_env \<Rightarrow> basic_type \<Rightarrow> addr \<Rightarrow> addr \<Rightarrow> nat \<Rightarrow> mem \<Rightarrow> (int \<times> stdout_call list \<times> mem) option" where
  "basic_log_context_property_type_to_string E t property_value buffer buffer_length m =
     (if property_value = NULL then Some (- 1, [invalid_to_string property_value buffer buffer_length], m)
      else do {
        bs \<leftarrow> load_bytes m property_value (sizeof_basic t);
        silent (snprintf E buffer buffer_length (''%'' @ print_format_string t) [AInt (decode_basic t bs)] m) })"

definition basic_log_context_property_type_copy ::
    "c_env \<Rightarrow> basic_type \<Rightarrow> addr \<Rightarrow> addr \<Rightarrow> mem \<Rightarrow> (int \<times> stdout_call list \<times> mem) option" where
  "basic_log_context_property_type_copy E t dst_value src_value m =
     (if dst_value = NULL \<or> src_value = NULL
      then Some (MU_FAILURE E, [invalid_copy ''void* dst_value = %p, void* src_value = %p'' dst_value src_value], m)
      else do { m' \<leftarrow> memcpy dst_value src_value (sizeof_basic t) m; Some (0, [], m') })"

definition basic_log_context_property_type_free :: "addr \<Rightarrow> mem \<Rightarrow> mem" where
  "basic_log_context_property_type_free value m = m"

definition basic_log_context_property_type_get_type :: "basic_type \<Rightarrow> LOG_CONTEXT_PROPERTY_TYPE" where
  "basic_log_context_property_type_get_type t = basic_type_tag t"

definition basic_log_context_property_type :: "c_env \<Rightarrow> basic_type \<Rightarrow> LOG_CONTEXT_PROPERTY_TYPE_IF" where
  "basic_log_context_property_type E t =
     \<lparr>to_string = basic_log_context_property_type_to_string E t,
      copy = basic_log_context_property_type_copy E t,
      free = basic_log_context_property_type_free,
      get_type = basic_log_context_property_type_get_type t\<rparr>"

definition basic_log_context_property_type_init ::
    "c_env \<Rightarrow> basic_type \<Rightarrow> addr \<Rightarrow> int \<Rightarrow> mem \<Rightarrow> (int \<times> stdout_call list \<times> mem) option" where
  "basic_log_context_property_type_init E t dst_value src_value m =
     (if dst_value = NULL
      then Some (MU_FAILURE E, [Printf (''Invalid arguments: void* dst_value = %p, void* src_value = %'' @ print_format_string t @ CRLF)
         [APtr dst_value, AInt src_value]], m)
      else do { m' \<leftarrow> store_bytes m dst_value (encode_basic t src_value); Some (0, [], m') })"

definition basic_log_context_property_type_get_init_data_size :: "basic_type \<Rightarrow> int" where
  "basic_log_context_property_type_get_init_data_size t = to_int (int (sizeof_basic t))"

section \<open>bool\<close>

definition encode_bool :: "bool \<Rightarrow> char list" where
  "encode_bool b = [if b then CHR 0x01 else CHR 0x00]"

definition bool_log_context_property_type_to_string ::
    "c_env \<Rightarrow> addr \<Rightarrow> addr \<Rightarrow> nat \<Rightarrow> mem \<Rightarrow> (int \<times> stdout_call list \<times> mem) option" where
  "bool_log_context_property_type_to_string E property_value buffer buffer_length m =
     (if property_value = NULL then Some (- 1, [invalid_to_string property_value buffer buffer_length], m)
      else do {
        b \<leftarrow> m property_value;
        silent (snprintf E buffer buffer_length ''%s'' [AStr (MU_BOOL_VALUE E (b \<noteq> NUL))] m) })"

definition bool_log_context_property_type_copy ::
    "c_env \<Rightarrow> addr \<Rightarrow> addr \<Rightarrow> mem \<Rightarrow> (int \<times> stdout_call list \<times> mem) option" where
  "bool_log_context_property_type_copy E dst_value src_value m =
     (if dst_value = NULL \<or> src_value = NULL
      then Some (MU_FAILURE E, [invalid_copy ''void* dst_value = %p, void* src_value = %p'' dst_value src_value], m)
      else do { m' \<leftarrow> memcpy dst_value src_value 1 m; Some (0, [], m') })"

definition bool_log_context_property_type_free :: "addr \<Rightarrow> mem \<Rightarrow> mem" where
  "bool_log_context_property_type_free value m = m"

definition bool_log_context_property_type_get_type :: LOG_CONTEXT_PROPERTY_TYPE where
  "bool_log_context_property_type_get_type = LOG_CONTEXT_PROPERTY_TYPE_bool"

definition bool_log_context_property_type_init :: "c_env \<Rightarrow> addr \<Rightarrow> bool \<Rightarrow> mem \<Rightarrow> (int \<times> stdout_call list \<times> mem) option" where
  "bool_log_context_property_type_init E dst_value src_value m =
     (if dst_value = NULL
      then Some (MU_FAILURE E, [Printf (''Invalid arguments: void* dst_value = %p, void* src_value = %s'' @ CRLF)
         [APtr dst_value, AStr (MU_BOOL_VALUE E src_value)]], m)
      else do { m' \<leftarrow> store_bytes m dst_value (encode_bool src_value); Some (0, [], m') })"

definition bool_log_context_property_type_get_init_data_size :: int where
  "bool_log_context_property_type_get_init_data_size = 1"

definition bool_log_context_property_type :: "c_env \<Rightarrow> LOG_CONTEXT_PROPERTY_TYPE_IF" where
  "bool_log_context_property_type E =
     \<lparr>to_string = bool_log_context_property_type_to_string E,
      copy = bool_log_context_property_type_copy E,
      free = bool_log_context_property_type_free,
      get_type = bool_log_context_property_type_get_type\<rparr>"

section \<open>struct\<close>

definition struct_log_context_property_type_to_string ::
    "addr \<Rightarrow> addr \<Rightarrow> nat \<Rightarrow> mem \<Rightarrow> (int \<times> stdout_call list \<times> mem) option" where
  "struct_log_context_property_type_to_string property_value buffer buffer_length m =
     (if property_value = NULL then Some (- 1, [invalid_to_string property_value buffer buffer_length], m)
      else if buffer = NULL \<or> buffer_length = 0 then Some (0, [], m)
      else do { m' \<leftarrow> store_bytes m buffer [NUL]; Some (0, [], m') })"

definition struct_log_context_property_type_copy ::
    "c_env \<Rightarrow> addr \<Rightarrow> addr \<Rightarrow> mem \<Rightarrow> (int \<times> stdout_call list \<times> mem) option" where
  "struct_log_context_property_type_copy E dst_value src_value m =
     (if src_value = NULL \<or> dst_value = NULL
      then Some (MU_FAILURE E, [invalid_copy ''void* dst_value=%p, void* src_value=%p'' dst_value src_value], m)
      else do { b \<leftarrow> m src_value; m' \<leftarrow> store_bytes m dst_value [b]; Some (0, [], m') })"

definition struct_log_context_property_type_free :: "addr \<Rightarrow> mem \<Rightarrow> mem" where
  "struct_log_context_property_type_free value m = m"

definition struct_log_context_property_type_get_type :: LOG_CONTEXT_PROPERTY_TYPE where
  "struct_log_context_property_type_get_type = LOG_CONTEXT_PROPERTY_TYPE_struct"

definition struct_log_context_property_type_init :: "c_env \<Rightarrow> addr \<Rightarrow> nat \<Rightarrow> mem \<Rightarrow> (int \<times> stdout_call list \<times> mem) option" where
  "struct_log_context_property_type_init E dst_value src_value m =
     (if dst_value = NULL
      then Some (MU_FAILURE E, [Printf (''Invalid arguments: void* dst_value=%p, uint8_t src_value=%u'' @ CRLF)
         [APtr dst_value, AInt (int src_value)]], m)
      else do { m' \<leftarrow> store_bytes m dst_value [char_of src_value]; Some (0, [], m') })"

definition struct_log_context_property_type_get_init_data_size :: int where
  "struct_log_context_property_type_get_init_data_size = 1"

definition struct_log_context_property_type :: "c_env \<Rightarrow> LOG_CONTEXT_PROPERTY_TYPE_IF" where
  "struct_log_context_property_type E =
     \<lparr>to_string = struct_log_context_property_type_to_string,
      copy = struct_log_context_property_type_copy E,
      free = struct_log_context_property_type_free,
      get_type = struct_log_context_property_type_get_type\<rparr>"

section \<open>ascii\_char\_ptr\<close>

definition ascii_char_ptr_log_context_property_type_to_string ::
    "c_env \<Rightarrow> addr \<Rightarrow> addr \<Rightarrow> nat \<Rightarrow> mem \<Rightarrow> (int \<times> stdout_call list \<times> mem) option" where
  "ascii_char_ptr_log_context_property_type_to_string E property_value buffer buffer_length m =
     (if property_value = NULL \<or> (buffer = NULL \<and> 0 < buffer_length)
      then Some (- 1, [invalid_to_string property_value buffer buffer_length], m)
      else do {
        s \<leftarrow> c_str m property_value;
        silent (snprintf E buffer buffer_length ''%s'' [AStr s] m) })"

definition ascii_char_ptr_log_context_property_type_copy ::
    "c_env \<Rightarrow> addr \<Rightarrow> addr \<Rightarrow> mem \<Rightarrow> (int \<times> stdout_call list \<times> mem) option" where
  "ascii_char_ptr_log_context_property_type_copy E dst_value src_value m =
     (if dst_value = NULL \<or> src_value = NULL
      then Some (MU_FAILURE E, [invalid_copy ''void* dst_value=%p, void* src_value=%p'' dst_value src_value], m)
      else do { m' \<leftarrow> strcpy dst_value src_value m; Some (0, [], m') })"

definition ascii_char_ptr_log_context_property_type_free :: "addr \<Rightarrow> mem \<Rightarrow> mem" where
  "ascii_char_ptr_log_context_property_type_free value m = m"

definition ascii_char_ptr_log_context_property_type_get_type :: LOG_CONTEXT_PROPERTY_TYPE where
  "ascii_char_ptr_log_context_property_type_get_type = LOG_CONTEXT_PROPERTY_TYPE_ascii_char_ptr"

definition ascii_char_ptr_log_context_property_type_init ::
    "c_env \<Rightarrow> addr \<Rightarrow> string option \<Rightarrow> carg list \<Rightarrow> mem \<Rightarrow> (int \<times> stdout_call list \<times> mem) option" where
  "ascii_char_ptr_log_context_property_type_init E dst_value format args m =
     (let invalid = Printf (''Invalid arguments: void* dst_value=%p, const char* format=%s'' @ CRLF)
            [APtr dst_value, AStr (MU_P_OR_NULL E format)] in
      case format of
        None \<Rightarrow> Some (MU_FAILURE E, [invalid], m)
      | Some f \<Rightarrow>
          if dst_value = NULL
      then Some (MU_FAILURE E, [invalid], m)
          else do {
            (vsprintf_result, m') \<leftarrow> vsprintf E dst_value f args m;
            Some (if vsprintf_result < 0 then MU_FAILURE E else 0, [], m') })"

definition ascii_char_ptr_log_context_property_type_get_init_data_size ::
    "c_env \<Rightarrow> string \<Rightarrow> carg list \<Rightarrow> mem \<Rightarrow> (int \<times> mem) option" where
  "ascii_char_ptr_log_context_property_type_get_init_data_size E f args m = do {
     (result, m') \<leftarrow> vsnprintf E NULL 0 f args m;
     Some (if result \<ge> 0 then to_int (result + 1) else result, m') }"

definition ascii_char_ptr_log_context_property_type :: "c_env \<Rightarrow> LOG_CONTEXT_PROPERTY_TYPE_IF" where
  "ascii_char_ptr_log_context_property_type E =
     \<lparr>to_string = ascii_char_ptr_log_context_property_type_to_string E,
      copy = ascii_char_ptr_log_context_property_type_copy E,
      free = ascii_char_ptr_log_context_property_type_free,
      get_type = ascii_char_ptr_log_context_property_type_get_type\<rparr>"

section \<open>wchar\_t\_ptr\<close>

definition LOG_MAX_WCHAR_STRING_LENGTH :: nat where
  "LOG_MAX_WCHAR_STRING_LENGTH = 4096"

definition wchar_t_ptr_log_context_property_type_to_string ::
    "c_env \<Rightarrow> addr \<Rightarrow> addr \<Rightarrow> nat \<Rightarrow> mem \<Rightarrow> (int \<times> stdout_call list \<times> mem) option" where
  "wchar_t_ptr_log_context_property_type_to_string E property_value buffer buffer_length m =
     (if property_value = NULL \<or> (buffer = NULL \<and> 0 < buffer_length)
      then Some (- 1, [invalid_to_string property_value buffer buffer_length], m)
      else do {
        (n, m') \<leftarrow> wcstombs E buffer property_value buffer_length m;
        Some (to_int (int n), [], m') })"

definition wchar_t_ptr_log_context_property_type_copy ::
    "c_env \<Rightarrow> addr \<Rightarrow> addr \<Rightarrow> mem \<Rightarrow> (int \<times> stdout_call list \<times> mem) option" where
  "wchar_t_ptr_log_context_property_type_copy E dst_value src_value m =
     (if dst_value = NULL \<or> src_value = NULL
      then Some (MU_FAILURE E, [invalid_copy ''void* dst_value=%p, const void* src_value=%p'' dst_value src_value], m)
      else do { m' \<leftarrow> wcscpy E dst_value src_value m; Some (0, [], m') })"

definition wchar_t_ptr_log_context_property_type_free :: "addr \<Rightarrow> mem \<Rightarrow> mem" where
  "wchar_t_ptr_log_context_property_type_free value m = m"

definition wchar_t_ptr_log_context_property_type_get_type :: LOG_CONTEXT_PROPERTY_TYPE where
  "wchar_t_ptr_log_context_property_type_get_type = LOG_CONTEXT_PROPERTY_TYPE_wchar_t_ptr"

definition wchar_t_ptr_log_context_property_type_init ::
    "c_env \<Rightarrow> addr \<Rightarrow> nat \<Rightarrow> nat list option \<Rightarrow> carg list \<Rightarrow> mem \<Rightarrow> (int \<times> stdout_call list \<times> mem) option" where
  "wchar_t_ptr_log_context_property_type_init E dst_value count format args m =
     (let invalid = Printf (''Invalid arguments: void* dst_value=%p, const wchar_t* format=%ls'' @ CRLF)
            [APtr dst_value, AWstr (MU_WP_OR_NULL E format)] in
      case format of
        None \<Rightarrow> Some (MU_FAILURE E, [invalid], m)
      | Some f \<Rightarrow>
          if dst_value = NULL
      then Some (MU_FAILURE E, [invalid], m)
          else do {
            (vswprintf_result, m') \<leftarrow> vswprintf E dst_value count f args m;
            Some (if vswprintf_result < 0 then MU_FAILURE E else 0, [], m') })"

text \<open>
  The scratch buffer of \<open>LOG_MAX_WCHAR_STRING_LENGTH\<close> wide characters is local to the
  function and only the result of \<open>vswprintf\<close> is used.
\<close>

definition wchar_t_ptr_log_context_property_type_get_init_data_size ::
    "c_env \<Rightarrow> nat list \<Rightarrow> carg list \<Rightarrow> int" where
  "wchar_t_ptr_log_context_property_type_get_init_data_size E f args =
     (let k = int (sizeof_wchar_t E);
          result = to_int (int (to_size_t (vswprintf_result E LOG_MAX_WCHAR_STRING_LENGTH f args * k)))
      in if result \<ge> 0 then to_int (int (to_size_t (result + k))) else result)"

definition wchar_t_ptr_log_context_property_type :: "c_env \<Rightarrow> LOG_CONTEXT_PROPERTY_TYPE_IF" where
  "wchar_t_ptr_log_context_property_type E =
     \<lparr>to_string = wchar_t_ptr_log_context_property_type_to_string E,
      copy = wchar_t_ptr_log_context_property_type_copy E,
      free = wchar_t_ptr_log_context_property_type_free,
      get_type = wchar_t_ptr_log_context_property_type_get_type\<rparr>"

section \<open>What the clients rely on\<close>

locale copyable_type =
  fixes T :: LOG_CONTEXT_PROPERTY_TYPE_IF
    and stored :: "'v \<Rightarrow> char list"
    and valid :: "'v \<Rightarrow> bool"
  assumes copy_stored:
    "valid v \<Longrightarrow> p \<noteq> NULL \<Longrightarrow> d \<noteq> NULL \<Longrightarrow> bytes_at m p (stored v) \<Longrightarrow>
     accessible m d (length (stored v)) \<Longrightarrow> copy T d p m = Some (0, [], put_bytes m d (stored v))"
begin

lemma copy_both:
  assumes "valid v" "p \<noteq> NULL" "d \<noteq> NULL" "bytes_at m p (stored v)"
    and "accessible m d (length (stored v))"
    and "disjoint_ranges d (length (stored v)) p (length (stored v))"
  shows "\<exists>m'. copy T d p m = Some (0, [], m') \<and> bytes_at m' d (stored v) \<and> bytes_at m' p (stored v) \<and>
           unchanged m m' d (length (stored v))"
  using assms by (auto simp: copy_stored bytes_at_put_same bytes_at_put_other intro!: unchanged_put)

end

locale fitting_type = copyable_type +
  fixes "text" :: "'v \<Rightarrow> string"
  assumes to_string_fits:
    "valid v \<Longrightarrow> p \<noteq> NULL \<Longrightarrow> buf \<noteq> NULL \<Longrightarrow> bytes_at m p (stored v) \<Longrightarrow>
     accessible m buf n \<Longrightarrow> length (text v) < n \<Longrightarrow>
     to_string T p buf n m = Some (int (length (text v)), [], put_cstr m buf n (text v))"
  and text_length: "valid v \<Longrightarrow> int (length (text v)) \<le> INT_MAX"

locale printable_type = copyable_type +
  fixes "text" :: "'v \<Rightarrow> string"
  assumes to_string_stored:
    "valid v \<Longrightarrow> p \<noteq> NULL \<Longrightarrow> buf \<noteq> NULL \<Longrightarrow> bytes_at m p (stored v) \<Longrightarrow> accessible m buf n \<Longrightarrow>
     to_string T p buf n m = Some (int (length (text v)), [], put_cstr m buf n (text v))"
  and text_length: "valid v \<Longrightarrow> int (length (text v)) \<le> INT_MAX"
begin

lemma print_copy:
  assumes "valid v" "p \<noteq> NULL" "d \<noteq> NULL" "buf \<noteq> NULL" "bytes_at m p (stored v)"
    and "accessible m d (length (stored v))" and "accessible m buf n"
  shows "(copy T d p m \<bind> (\<lambda>(r, out, m'). to_string T d buf n m')) =
         Some (int (length (text v)), [], put_cstr (put_bytes m d (stored v)) buf n (text v))"
  using assms by (simp add: copy_stored to_string_stored mem_simps)

end

sublocale printable_type \<subseteq> fits: fitting_type T stored valid "text"
  by unfold_locales (auto simp: to_string_stored text_length)

text \<open>
  \<open>prints T p bs s\<close>: wherever the bytes \<open>bs\<close> are stored at \<open>p\<close>, \<open>T\<close>'s \<open>to_string\<close>
  behaves as \<open>snprintf\<close> of the text \<open>s\<close>; \<open>copies T bs\<close>: its \<open>copy\<close> copies these bytes.
\<close>

definition prints :: "LOG_CONTEXT_PROPERTY_TYPE_IF \<Rightarrow> addr \<Rightarrow> char list \<Rightarrow> string \<Rightarrow> bool" where
  "prints T p bs s =
     (\<forall>m buf n. bytes_at m p bs \<and> buf \<noteq> NULL \<and> accessible m buf n \<longrightarrow>
        to_string T p buf n m = Some (int (length s), [], put_cstr m buf n s))"

definition copies :: "LOG_CONTEXT_PROPERTY_TYPE_IF \<Rightarrow> char list \<Rightarrow> bool" where
  "copies T bs =
     (\<forall>m p d. p \<noteq> NULL \<and> d \<noteq> NULL \<and> bytes_at m p bs \<and> accessible m d (length bs) \<longrightarrow>
        copy T d p m = Some (0, [], put_bytes m d bs))"

lemma printsD:
  "prints T p bs s \<Longrightarrow> bytes_at m p bs \<Longrightarrow> buf \<noteq> NULL \<Longrightarrow> accessible m buf n \<Longrightarrow>
   to_string T p buf n m = Some (int (length s), [], put_cstr m buf n s)"
  by (simp add: prints_def)

context copyable_type
begin

lemma copies_stored: "valid v \<Longrightarrow> copies T (stored v)"
  by (simp add: copies_def copy_stored)

end

context printable_type
begin

lemma prints_stored: "valid v \<Longrightarrow> p \<noteq> NULL \<Longrightarrow> prints T p (stored v) (text v)"
  by (simp add: prints_def to_string_stored)

end

locale c_library =
  fixes E :: c_env
  assumes conforms: "conforming E"
    and bool_text: "int (length (MU_BOOL_VALUE E b)) \<le> INT_MAX"
begin

lemmas fmt_ok = conforming_fmt [OF conforms]

end

interpretation std: c_library std_env
  by unfold_locales (auto simp: conforming_std_env, simp add: std_env_def INT_MAX_def)

section \<open>The provided types satisfy them\<close>

lemma decode_encode_basic: "in_basic t z \<Longrightarrow> decode_basic t (encode_basic t z) = z"
proof -
  assume r: "in_basic t z"
  have n: "int (le_nat (encode_basic t z)) = z mod 256 ^ sizeof_basic t"
    by (simp add: encode_basic_def le_nat_le_bytes nat_mod_distrib [symmetric] zmod_int)
  show ?thesis
  proof (cases "0 \<le> z")
    case True
    with r have "z mod 256 ^ sizeof_basic t = z"
      by (cases t) (simp_all add: in_basic_def)
    with True r n show ?thesis by (simp add: decode_basic_def in_basic_def Let_def split: if_splits)
  next
    case False
    with r have "z mod 256 ^ sizeof_basic t = z + 256 ^ sizeof_basic t"
      by (intro mod_negative) (auto simp: in_basic_def split: if_splits)
    with False r n show ?thesis by (simp add: decode_basic_def in_basic_def Let_def split: if_splits)
  qed
qed

lemma c_printf_basic: "in_basic t z \<Longrightarrow> c_printf (''%'' @ print_format_string t) [AInt z] = Some (show_int z)"
  by (cases t) (simp_all add: c_printf_def c_conv_def is_digit_def in_basic_def show_int_def)

lemma length_show_nat: "n < 100000000000000000000 \<Longrightarrow> length (show_nat n) \<le> 20"
  using length_show_base [of 10 n 19] by (simp add: show_nat_def)

lemma length_show_basic: "in_basic t z \<Longrightarrow> length (show_int z) \<le> 21"
proof -
  assume "in_basic t z"
  then have "\<bar>z\<bar> < 100000000000000000000" by (cases t) (auto simp: in_basic_def)
  then have "length (show_nat (nat \<bar>z\<bar>)) \<le> 20" by (intro length_show_nat) linarith
  then show ?thesis by (auto simp: show_int_def)
qed

lemma length_encode_basic [simp]: "length (encode_basic t z) = sizeof_basic t"
  by (simp add: encode_basic_def)

sublocale c_library \<subseteq> basic: printable_type "basic_log_context_property_type E t" "encode_basic t" "in_basic t" show_int
  for t
proof unfold_locales
  fix v p d m
  assume "p \<noteq> NULL" "d \<noteq> NULL" "bytes_at m p (encode_basic t v)"
    "accessible m d (length (encode_basic t v))"
  then show "copy (basic_log_context_property_type E t) d p m = Some (0, [], put_bytes m d (encode_basic t v))"
    by (simp add: basic_log_context_property_type_def basic_log_context_property_type_copy_def mem_simps)
next
  fix v p buf m n
  assume v: "in_basic t v" and "p \<noteq> NULL" "bytes_at m p (encode_basic t v)" "accessible m buf n"
  moreover have "int (length (show_int v)) \<le> INT_MAX"
    using length_show_basic [OF v] by (simp add: INT_MAX_def)
  moreover have "fmt E (''%'' @ print_format_string t) [AInt v] = Some (show_int v)"
    by (rule fmt_ok) (rule c_printf_basic [OF v])
  ultimately show "to_string (basic_log_context_property_type E t) p buf n m =
      Some (int (length (show_int v)), [], put_cstr m buf n (show_int v))"
    by (simp add: basic_log_context_property_type_def basic_log_context_property_type_to_string_def
        mem_simps decode_encode_basic)
next
  fix v assume "in_basic t v"
  then show "int (length (show_int v)) \<le> INT_MAX"
    using length_show_basic [of t v] by (simp add: INT_MAX_def)
qed

lemma length_encode_bool [simp]: "length (encode_bool b) = 1"
  by (simp add: encode_bool_def)

sublocale c_library \<subseteq> bool: printable_type "bool_log_context_property_type E" encode_bool "\<lambda>_. True" "MU_BOOL_VALUE E"
proof unfold_locales
  fix v p d m
  assume "p \<noteq> NULL" "d \<noteq> NULL" "bytes_at m p (encode_bool v)" "accessible m d (length (encode_bool v))"
  then show "copy (bool_log_context_property_type E) d p m = Some (0, [], put_bytes m d (encode_bool v))"
    by (simp add: bool_log_context_property_type_def bool_log_context_property_type_copy_def mem_simps)
next
  fix v p buf m n
  assume "p \<noteq> NULL" "bytes_at m p (encode_bool v)" "accessible m buf n"
  then show "to_string (bool_log_context_property_type E) p buf n m =
      Some (int (length (MU_BOOL_VALUE E v)), [], put_cstr m buf n (MU_BOOL_VALUE E v))"
    by (simp add: bool_log_context_property_type_def bool_log_context_property_type_to_string_def
        encode_bool_def mem_simps fmt_ok bool_text)
qed (rule bool_text)

definition valid_string :: "string \<Rightarrow> bool" where
  "valid_string s = (NUL \<notin> set s \<and> int (length s) \<le> INT_MAX)"

sublocale c_library \<subseteq> ascii: printable_type "ascii_char_ptr_log_context_property_type E" "\<lambda>s. s @ [NUL]" valid_string "\<lambda>s. s"
proof unfold_locales
  fix v p d m
  assume "valid_string v" "p \<noteq> NULL" "d \<noteq> NULL" "bytes_at m p (v @ [NUL])" "accessible m d (length (v @ [NUL]))"
  then show "copy (ascii_char_ptr_log_context_property_type E) d p m = Some (0, [], put_bytes m d (v @ [NUL]))"
    by (simp add: ascii_char_ptr_log_context_property_type_def valid_string_def
        ascii_char_ptr_log_context_property_type_copy_def c_str_at mem_simps)
next
  fix v p buf m n
  assume "valid_string v" "p \<noteq> NULL" "buf \<noteq> NULL" "bytes_at m p (v @ [NUL])" "accessible m buf n"
  then show "to_string (ascii_char_ptr_log_context_property_type E) p buf n m =
      Some (int (length v), [], put_cstr m buf n v)"
    by (simp add: ascii_char_ptr_log_context_property_type_def valid_string_def
        ascii_char_ptr_log_context_property_type_to_string_def c_str_at mem_simps fmt_ok)
qed (simp add: valid_string_def)

definition valid_wide :: "c_env \<Rightarrow> nat list \<Rightarrow> bool" where
  "valid_wide E ws = (wide E ws \<and> (case mbs E ws of None \<Rightarrow> False | Some s \<Rightarrow> int (length s) \<le> INT_MAX))"

sublocale c_library \<subseteq> wchar: fitting_type "wchar_t_ptr_log_context_property_type E" "wcs_bytes E" "valid_wide E" "\<lambda>ws. the (mbs E ws)"
proof unfold_locales
  fix v p d m
  assume "valid_wide E v" "p \<noteq> NULL" "d \<noteq> NULL" "bytes_at m p (wcs_bytes E v)" "accessible m d (length (wcs_bytes E v))"
  then show "copy (wchar_t_ptr_log_context_property_type E) d p m = Some (0, [], put_bytes m d (wcs_bytes E v))"
    by (simp add: wchar_t_ptr_log_context_property_type_def wchar_t_ptr_log_context_property_type_copy_def
        wcscpy_def valid_wide_def c_wcs_at mem_simps)
next
  fix v p buf m n
  assume v: "valid_wide E v" "length (the (mbs E v)) < n"
    and a: "p \<noteq> NULL" "buf \<noteq> NULL" "bytes_at m p (wcs_bytes E v)" "accessible m buf n"
  then obtain s where s: "mbs E v = Some s" "int (length s) \<le> INT_MAX"
    by (auto simp: valid_wide_def split: option.splits)
  have "accessible m buf (Suc (length s))"
    by (rule accessible_sub [OF a(4)]) (use s v in auto)
  with s v a show "to_string (wchar_t_ptr_log_context_property_type E) p buf n m =
      Some (int (length (the (mbs E v))), [], put_cstr m buf n (the (mbs E v)))"
    by (simp add: wchar_t_ptr_log_context_property_type_def valid_wide_def
        wchar_t_ptr_log_context_property_type_to_string_def wcstombs_def c_wcs_at mbs_fill_complete
        mem_simps put_cstr_def c_arith INT_MAX_def)
qed (auto simp: valid_wide_def split: option.splits)

sublocale c_library \<subseteq> struct: copyable_type "struct_log_context_property_type E" "\<lambda>n. [char_of n]" "\<lambda>n. n < (256::nat)"
  by unfold_locales
    (simp add: struct_log_context_property_type_def struct_log_context_property_type_copy_def mem_simps)


section \<open>Memory safety without assumptions on the library\<close>

text \<open>
  \<open>safe_value T p bs\<close>: where the bytes \<open>bs\<close> are stored at \<open>p\<close>, \<open>T\<close>'s \<open>to_string\<close>
  returns and writes only inside the buffer it is given, whatever the library's formatting
  does, encoding errors included.
\<close>

definition keeps_accessible :: "mem \<Rightarrow> mem \<Rightarrow> bool" where
  "keeps_accessible m m' = (\<forall>a. m a \<noteq> None \<longrightarrow> m' a \<noteq> None)"

definition safe_value :: "LOG_CONTEXT_PROPERTY_TYPE_IF \<Rightarrow> addr \<Rightarrow> char list \<Rightarrow> bool" where
  "safe_value T p bs =
     (\<forall>m buf n. bytes_at m p bs \<and> buf \<noteq> NULL \<and> accessible m buf n \<longrightarrow>
        (\<exists>r m'. to_string T p buf n m = Some (r, [], m') \<and> unchanged m m' buf n \<and> keeps_accessible m m'))"

lemma safe_valueD:
  "safe_value T p bs \<Longrightarrow> bytes_at m p bs \<Longrightarrow> buf \<noteq> NULL \<Longrightarrow> accessible m buf n \<Longrightarrow>
   \<exists>r m'. to_string T p buf n m = Some (r, [], m') \<and> unchanged m m' buf n \<and> keeps_accessible m m'"
  by (simp add: safe_value_def)

lemma keeps_accessible_put [simp]: "keeps_accessible m (put_bytes m p bs)"
  by (simp add: keeps_accessible_def put_bytes_def)

lemma keeps_accessible_refl [simp]: "keeps_accessible m m"
  by (simp add: keeps_accessible_def)

lemma keeps_accessible_trans: "keeps_accessible m m' \<Longrightarrow> keeps_accessible m' m'' \<Longrightarrow> keeps_accessible m m''"
  by (simp add: keeps_accessible_def)

lemma keeps_accessibleD: "keeps_accessible m m' \<Longrightarrow> accessible m p n \<Longrightarrow> accessible m' p n"
  by (simp add: keeps_accessible_def accessible_iff)

lemma vsnprintf_safe:
  assumes "accessible m buf n"
  shows "\<exists>r m'. vsnprintf E buf n f args m = Some (r, m') \<and> unchanged m m' buf n \<and> keeps_accessible m m'"
  using vsnprintf_total [OF assms, of E f args] accessible_iff [of m _ 1] accessible_iff [of _ _ 1]
  by (metis One_nat_def add.right_neutral keeps_accessible_def less_one)

lemma silent_vsnprintf_safe:
  assumes "accessible m buf n"
  shows "\<exists>r m'. silent (vsnprintf E buf n f args m) = Some (r, [], m') \<and> unchanged m m' buf n \<and> keeps_accessible m m'"
  using vsnprintf_safe [OF assms, of E f args] by auto

locale safe_type =
  fixes T :: LOG_CONTEXT_PROPERTY_TYPE_IF
    and stored :: "'v \<Rightarrow> char list"
    and valid :: "'v \<Rightarrow> bool"
  assumes safe_stored: "valid v \<Longrightarrow> p \<noteq> NULL \<Longrightarrow> safe_value T p (stored v)"

interpretation safe_basic: safe_type "basic_log_context_property_type E t" "encode_basic t" "\<lambda>_. True"
  for E t
  by unfold_locales
    (auto simp: safe_value_def basic_log_context_property_type_def mem_simps
      basic_log_context_property_type_to_string_def intro!: silent_vsnprintf_safe)

interpretation safe_bool: safe_type "bool_log_context_property_type E" encode_bool "\<lambda>_. True" for E
  by unfold_locales
    (auto simp: safe_value_def bool_log_context_property_type_def encode_bool_def
      bool_log_context_property_type_to_string_def intro!: silent_vsnprintf_safe)

interpretation safe_ascii: safe_type "ascii_char_ptr_log_context_property_type E" "\<lambda>s. s @ [NUL]" "\<lambda>s. NUL \<notin> set s"
  for E
proof unfold_locales
  fix s :: string and p :: addr assume s: "NUL \<notin> set s" "p \<noteq> NULL"
  show "safe_value (ascii_char_ptr_log_context_property_type E) p (s @ [NUL])"
    unfolding safe_value_def
  proof (intro allI impI, elim conjE)
    fix m buf n assume a: "bytes_at m p (s @ [NUL])" "buf \<noteq> NULL" "accessible m buf n"
    then have "c_str m p = Some s" using s by (intro c_str_at) auto
    with a s silent_vsnprintf_safe [OF a(3), of E "''%s''" "[AStr s]"]
    show "\<exists>r m'. to_string (ascii_char_ptr_log_context_property_type E) p buf n m = Some (r, [], m') \<and>
        unchanged m m' buf n \<and> keeps_accessible m m'"
      by (simp add: ascii_char_ptr_log_context_property_type_def
          ascii_char_ptr_log_context_property_type_to_string_def)
  qed
qed

lemma wcstombs_safe:
  assumes "c_wcs E m p = Some ws" "accessible m buf n"
  shows "\<exists>r m'. wcstombs E buf p n m = Some (r, m') \<and> unchanged m m' buf n \<and> keeps_accessible m m'"
proof (cases "buf = NULL \<or> mbs_fill E n ws = None")
  case True
  with assms show ?thesis by (auto simp: wcstombs_def split: option.splits)
next
  case False
  then obtain s z where s: "mbs_fill E n ws = Some (s, z)" and b: "buf \<noteq> NULL" by auto
  let ?bs = "if z then s @ [NUL] else s"
  have l: "length ?bs \<le> n" using mbs_fill_length [OF s] by auto
  then have "accessible m buf (length ?bs)" by (intro accessible_sub [OF assms(2)]) auto
  with assms s b have "wcstombs E buf p n m = Some (length s, put_bytes m buf ?bs)"
    by (simp add: wcstombs_def mem_simps)
  moreover have "unchanged m (put_bytes m buf ?bs) buf n" using l by (intro unchanged_put) auto
  ultimately show ?thesis by auto
qed

interpretation safe_wchar: safe_type "wchar_t_ptr_log_context_property_type E" "wcs_bytes E" "wide E" for E
proof unfold_locales
  fix ws p assume s: "wide E ws" "p \<noteq> NULL"
  show "safe_value (wchar_t_ptr_log_context_property_type E) p (wcs_bytes E ws)"
    unfolding safe_value_def
  proof (intro allI impI, elim conjE)
    fix m buf n assume a: "bytes_at m p (wcs_bytes E ws)" "buf \<noteq> NULL" "accessible m buf n"
    then have "c_wcs E m p = Some ws" using s by (intro c_wcs_at) auto
    from wcstombs_safe [OF this a(3)] s a
    show "\<exists>r m'. to_string (wchar_t_ptr_log_context_property_type E) p buf n m = Some (r, [], m') \<and>
        unchanged m m' buf n \<and> keeps_accessible m m'"
      by (auto simp: wchar_t_ptr_log_context_property_type_def
          wchar_t_ptr_log_context_property_type_to_string_def)
  qed
qed


lemma get_type_simps [simp]:
  "get_type (basic_log_context_property_type E t) = basic_type_tag t"
  "get_type (bool_log_context_property_type E) = LOG_CONTEXT_PROPERTY_TYPE_bool"
  "get_type (struct_log_context_property_type E) = LOG_CONTEXT_PROPERTY_TYPE_struct"
  "get_type (ascii_char_ptr_log_context_property_type E) = LOG_CONTEXT_PROPERTY_TYPE_ascii_char_ptr"
  "get_type (wchar_t_ptr_log_context_property_type E) = LOG_CONTEXT_PROPERTY_TYPE_wchar_t_ptr"
  by (simp_all add: basic_log_context_property_type_def basic_log_context_property_type_get_type_def
      bool_log_context_property_type_def bool_log_context_property_type_get_type_def
      struct_log_context_property_type_def struct_log_context_property_type_get_type_def
      ascii_char_ptr_log_context_property_type_def ascii_char_ptr_log_context_property_type_get_type_def
      wchar_t_ptr_log_context_property_type_def wchar_t_ptr_log_context_property_type_get_type_def)

lemma basic_type_tag_not_struct [simp]: "basic_type_tag t \<noteq> LOG_CONTEXT_PROPERTY_TYPE_struct"
  by (cases t) simp_all


section \<open>Creating values\<close>

lemma basic_init_ok [mem_simps]:
  "dst \<noteq> NULL \<Longrightarrow> accessible m dst (sizeof_basic t) \<Longrightarrow>
   basic_log_context_property_type_init E t dst z m = Some (0, [], put_bytes m dst (encode_basic t z))"
  by (simp add: basic_log_context_property_type_init_def mem_simps)

lemma bool_init_ok [mem_simps]:
  "dst \<noteq> NULL \<Longrightarrow> accessible m dst 1 \<Longrightarrow>
   bool_log_context_property_type_init E dst b m = Some (0, [], put_bytes m dst (encode_bool b))"
  by (simp add: bool_log_context_property_type_init_def mem_simps)

lemma struct_init_ok [mem_simps]:
  "dst \<noteq> NULL \<Longrightarrow> accessible m dst 1 \<Longrightarrow>
   struct_log_context_property_type_init E dst n m = Some (0, [], put_bytes m dst [char_of n])"
  by (simp add: struct_log_context_property_type_init_def mem_simps)

lemma ascii_init_ok [mem_simps]:
  "dst \<noteq> NULL \<Longrightarrow> fmt E f args = Some s \<Longrightarrow> int (length s) \<le> INT_MAX \<Longrightarrow> accessible m dst (Suc (length s)) \<Longrightarrow>
   ascii_char_ptr_log_context_property_type_init E dst (Some f) args m = Some (0, [], put_bytes m dst (s @ [NUL]))"
  by (simp add: ascii_char_ptr_log_context_property_type_init_def vsprintf_def mem_simps)

lemma ascii_size_ok:
  "fmt E f args = Some s \<Longrightarrow> int (length s) < INT_MAX \<Longrightarrow>
   ascii_char_ptr_log_context_property_type_get_init_data_size E f args m = Some (int (length s) + 1, m)"
  by (simp add: ascii_char_ptr_log_context_property_type_get_init_data_size_def vsnprintf_def
      INT_MAX_def c_arith)

lemma wchar_init_ok [mem_simps]:
  "dst \<noteq> NULL \<Longrightarrow> wfmt E f args = Some ws \<Longrightarrow> length ws < count \<Longrightarrow> int (length ws) \<le> INT_MAX \<Longrightarrow>
   accessible m dst (sizeof_wchar_t E * (length ws + 1)) \<Longrightarrow>
   wchar_t_ptr_log_context_property_type_init E dst count (Some f) args m = Some (0, [], put_bytes m dst (wcs_bytes E ws))"
  by (simp add: wchar_t_ptr_log_context_property_type_init_def vswprintf_def vswprintf_result_def mem_simps)

lemma wchar_size_ok:
  assumes "wfmt E f args = Some ws" "length ws < LOG_MAX_WCHAR_STRING_LENGTH" "sizeof_wchar_t E \<le> 8"
  shows "wchar_t_ptr_log_context_property_type_get_init_data_size E f args =
         int (sizeof_wchar_t E * (length ws + 1))"
proof -
  have r: "vswprintf_result E LOG_MAX_WCHAR_STRING_LENGTH f args = int (length ws)"
    using assms by (simp add: vswprintf_result_def LOG_MAX_WCHAR_STRING_LENGTH_def INT_MAX_def)
  have "sizeof_wchar_t E * length ws \<le> 8 * 4096"
    using assms by (intro mult_mono) (auto simp: LOG_MAX_WCHAR_STRING_LENGTH_def)
  then have "int (length ws * sizeof_wchar_t E) \<le> 32768"
    by (subst mult.commute) linarith
  then have b: "int (length ws) * int (sizeof_wchar_t E) \<le> 32768" by (simp only: of_nat_mult)
  define z where "z = int (length ws) * int (sizeof_wchar_t E)"
  have z: "0 \<le> z" "z \<le> 32768" using b by (simp_all add: z_def)
  then have "to_int (int (to_size_t z)) = z"
    "to_int (int (to_size_t (z + int (sizeof_wchar_t E)))) = z + int (sizeof_wchar_t E)"
    using assms(3) by (simp_all add: c_arith)
  with z show ?thesis
    by (simp add: wchar_t_ptr_log_context_property_type_get_init_data_size_def r Let_def
        z_def [symmetric] distrib_left) (simp add: z_def mult.commute)
qed

section \<open>Properties\<close>

lemma c_str_put_cstr:
  "NUL \<notin> set s \<Longrightarrow> 0 < n \<Longrightarrow> c_str (put_cstr m buf n s) buf = Some (take (n - 1) s)"
  by (rule c_str_at) (auto simp: put_cstr_def bytes_at_put_same simp del: bytes_at_append dest: in_set_takeD)

context c_library
begin

lemma prints_ascii: "valid_string s \<Longrightarrow> p \<noteq> NULL \<Longrightarrow> prints (ascii_char_ptr_log_context_property_type E) p (s @ [NUL]) s"
  by (rule ascii.prints_stored)

lemma print_copied_basic:
  assumes "in_basic t z" "p \<noteq> NULL" "d \<noteq> NULL" "buf \<noteq> NULL" "22 \<le> n"
    and "accessible m p (sizeof_basic t)" "accessible m d (sizeof_basic t)" "accessible m buf n"
  shows "\<exists>m1 m2 m3 s.
     basic_log_context_property_type_init E t p z m = Some (0, [], m1) \<and>
     copy (basic_log_context_property_type E t) d p m1 = Some (0, [], m2) \<and>
     to_string (basic_log_context_property_type E t) d buf n m2 = Some (int (length s), [], m3) \<and>
     c_str m3 buf = Some s \<and> read_int s = z"
proof -
  let ?bs = "encode_basic t z"
  let ?m1 = "put_bytes m p ?bs"
  let ?m2 = "put_bytes ?m1 d ?bs"
  have "copy (basic_log_context_property_type E t) d p ?m1 = Some (0, [], ?m2)"
    using assms by (intro basic.copy_stored) (auto simp: mem_simps)
  moreover have "to_string (basic_log_context_property_type E t) d buf n ?m2 =
      Some (int (length (show_int z)), [], put_cstr ?m2 buf n (show_int z))"
    using assms by (intro basic.to_string_stored) (auto simp: mem_simps)
  moreover have "c_str (put_cstr ?m2 buf n (show_int z)) buf = Some (show_int z)"
    using assms(5) length_show_basic [OF assms(1)] by (subst c_str_put_cstr) (auto simp: show_int_no_NUL)
  ultimately show ?thesis using assms by (auto simp: mem_simps)
qed

end

text \<open>
  C13: A value of any of the eight integer types survives creation, copying and printing:
  storing it with \<open>init\<close>, copying it with the type's \<open>copy\<close> and printing the copy with its
  \<open>to_string\<close> into a buffer that holds 22 bytes leaves in the buffer a terminated string
  which reads back as the value, negative values and the extreme ones included.
\<close>
theorem basic_roundtrip:
  assumes "c_library E" "in_basic t z" "p \<noteq> NULL" "d \<noteq> NULL" "buf \<noteq> NULL" "22 \<le> n"
    and "accessible m p (sizeof_basic t)" "accessible m d (sizeof_basic t)" "accessible m buf n"
  shows "\<exists>m1 m2 m3 s.
     basic_log_context_property_type_init E t p z m = Some (0, [], m1) \<and>
     copy (basic_log_context_property_type E t) d p m1 = Some (0, [], m2) \<and>
     to_string (basic_log_context_property_type E t) d buf n m2 = Some (int (length s), [], m3) \<and>
     c_str m3 buf = Some s \<and> read_int s = z"
  using assms by (rule c_library.print_copied_basic)

theorem basic_roundtrip_witness:
  "\<exists>m1 m2 m3 s.
     basic_log_context_property_type_init std_env int8_t 100 (- 128) (put_bytes (\<lambda>_. None) 100 (replicate 32 NUL)) = Some (0, [], m1) \<and>
     copy (basic_log_context_property_type std_env int8_t) 101 100 m1 = Some (0, [], m2) \<and>
     to_string (basic_log_context_property_type std_env int8_t) 101 102 22 m2 = Some (int (length s), [], m3) \<and>
     c_str m3 102 = Some s \<and> read_int s = - 128"
  by (rule basic_roundtrip [OF std.c_library_axioms])
    (simp_all add: in_basic_def accessible_iff put_bytes_def)

text \<open>
  C27: The size a formatted string asks for is the size it uses: whenever
  \<open>get_init_data_size\<close> of the ASCII string type succeeds, it is the length of the formatted
  text and its terminator, \<open>init\<close> on a block of exactly this size succeeds and leaves the
  text there as a terminated string, nothing outside the block changes, and \<open>to_string\<close>
  prints the text back, truncated to the buffer it is given.
\<close>
theorem ascii_size_sufficient:
  assumes "c_library E" "fmt E f args = Some s" "NUL \<notin> set s" "int (length s) < INT_MAX"
    and "dst \<noteq> NULL" "accessible m dst (length s + 1)" "buf \<noteq> NULL" "accessible m buf n" "0 < n"
  shows "\<exists>m1 m2.
     ascii_char_ptr_log_context_property_type_get_init_data_size E f args m = Some (int (length s + 1), m) \<and>
     ascii_char_ptr_log_context_property_type_init E dst (Some f) args m = Some (0, [], m1) \<and>
     unchanged m m1 dst (length s + 1) \<and> c_str m1 dst = Some s \<and>
     to_string (ascii_char_ptr_log_context_property_type E) dst buf n m1 = Some (int (length s), [], m2) \<and>
     c_str m2 buf = Some (take (n - 1) s)"
proof -
  let ?m1 = "put_bytes m dst (s @ [NUL])"
  have "prints (ascii_char_ptr_log_context_property_type E) dst (s @ [NUL]) s"
    using assms by (intro c_library.prints_ascii) (auto simp: valid_string_def)
  then have "to_string (ascii_char_ptr_log_context_property_type E) dst buf n ?m1 =
      Some (int (length s), [], put_cstr ?m1 buf n s)"
    using assms by (intro printsD) (auto simp: mem_simps simp del: bytes_at_append)
  moreover have "c_str ?m1 dst = Some s"
    using assms(3) by (intro c_str_at) (auto simp: mem_simps simp del: bytes_at_append)
  ultimately show ?thesis
    using assms by (auto simp: mem_simps ascii_size_ok c_str_put_cstr intro!: unchanged_put)
qed

theorem ascii_size_sufficient_witness:
  "\<exists>m1 m2.
     ascii_char_ptr_log_context_property_type_get_init_data_size std_env ''n=%d'' [AInt 7] (put_bytes (\<lambda>_. None) 100 (replicate 32 NUL)) =
       Some (int (length ''n=7'' + 1), put_bytes (\<lambda>_. None) 100 (replicate 32 NUL)) \<and>
     ascii_char_ptr_log_context_property_type_init std_env 100 (Some ''n=%d'') [AInt 7] (put_bytes (\<lambda>_. None) 100 (replicate 32 NUL)) = Some (0, [], m1) \<and>
     unchanged (put_bytes (\<lambda>_. None) 100 (replicate 32 NUL)) m1 100 (length ''n=7'' + 1) \<and> c_str m1 100 = Some ''n=7'' \<and>
     to_string (ascii_char_ptr_log_context_property_type std_env) 100 110 3 m1 = Some (int (length ''n=7''), [], m2) \<and>
     c_str m2 110 = Some (take (3 - 1) ''n=7'')"
proof -
  have "fmt std_env ''n=%d'' [AInt 7] = Some ''n=7''" by code_simp
  then show ?thesis
    by (intro ascii_size_sufficient std.c_library_axioms)
      (simp_all add: INT_MAX_def accessible_iff put_bytes_def)
qed

lemma mbs_fill_full:
  "mbs E ws = Some s \<Longrightarrow> n \<le> length s \<Longrightarrow> \<exists>k\<le>n. mbs_fill E n ws = Some (take k s, False)"
proof (induction E n ws arbitrary: s rule: mbs_fill.induct)
  case (2 E n w ws)
  from "2.prems" obtain b s' where b: "wctomb E w = Some b" and s': "mbs E ws = Some s'" "s = b @ s'"
    by (auto split: Option.bind_splits)
  show ?case
  proof (cases "length b \<le> n")
    case True
    have "n - length b \<le> length s'" using "2.prems"(2) s'(2) by simp
    from "2.IH" [OF b True s'(1) this] obtain k where
      k: "k \<le> n - length b" "mbs_fill E (n - length b) ws = Some (take k s', False)" by blast
    then show ?thesis using b s' True by (intro exI [of _ "length b + k"]) auto
  next
    case False
    then show ?thesis using b by (intro exI [of _ 0]) auto
  qed
qed auto

text \<open>
  C29: A wide string whose converted text does not fit with its terminator is printed
  without a terminator: \<open>to_string\<close> of the wide string type stores a prefix of the text,
  no byte after it, and returns the length of the prefix, so the buffer does not hold a
  C string of the property.
\<close>
theorem wchar_truncation_unterminated:
  assumes "valid_wide E ws" "mbs E ws = Some s" "n \<le> length s"
    and "p \<noteq> NULL" "buf \<noteq> NULL" "bytes_at m p (wcs_bytes E ws)" "accessible m buf n"
  shows "\<exists>k\<le>n. to_string (wchar_t_ptr_log_context_property_type E) p buf n m =
           Some (int k, [], put_bytes m buf (take k s))"
proof -
  obtain k where k: "k \<le> n" "mbs_fill E n ws = Some (take k s, False)"
    using mbs_fill_full [OF assms(2,3)] by blast
  have "accessible m buf k" using k(1) by (intro accessible_sub [OF assms(7)]) auto
  moreover have "to_int (int k) = int k"
    using assms(1-3) k(1) by (intro to_int_id) (auto simp: valid_wide_def INT_MAX_def)
  ultimately show ?thesis
    using assms k by (intro exI [of _ k])
      (simp add: wchar_t_ptr_log_context_property_type_def valid_wide_def c_wcs_at mem_simps
        wchar_t_ptr_log_context_property_type_to_string_def wcstombs_def min_absorb2)
qed

definition demo_wide :: mem where
  "demo_wide = put_bytes (put_bytes (\<lambda>_. None) 100 (wcs_bytes std_env [65, 66, 67])) 200 (replicate 4 (CHR ''x''))"

theorem wchar_truncation_unterminated_witness:
  "\<exists>k\<le>2. to_string (wchar_t_ptr_log_context_property_type std_env) 100 200 2 demo_wide =
     Some (int k, [], put_bytes demo_wide 200 (take k ''ABC''))"
proof -
  have s: "mbs std_env [65, 66, 67] = Some ''ABC''" by code_simp
  moreover have "valid_wide std_env [65, 66, 67]"
    by (simp add: valid_wide_def s) (simp add: wide_def std_env_def INT_MAX_def)
  moreover have "bytes_at demo_wide 100 (wcs_bytes std_env [65, 66, 67])"
    unfolding demo_wide_def
    by (rule bytes_at_put_other) (auto simp: mem_simps disjoint_ranges_def std_env_def)
  moreover have "accessible demo_wide 200 2" by (simp add: demo_wide_def accessible_iff put_bytes_def)
  ultimately show ?thesis by (intro wchar_truncation_unterminated) auto
qed

text \<open>
  When a wide string property does not format, or formats to 4096 or more wide
  characters, its \<open>get_init_data_size\<close> is negative (minus the size of one wide character).
\<close>
theorem wchar_size_negative:
  assumes "wfmt E f args = None \<or> (\<exists>ws. wfmt E f args = Some ws \<and> LOG_MAX_WCHAR_STRING_LENGTH \<le> length ws)"
    and "0 < sizeof_wchar_t E" "sizeof_wchar_t E \<le> 8"
  shows "wchar_t_ptr_log_context_property_type_get_init_data_size E f args = - int (sizeof_wchar_t E)"
proof -
  let ?k = "int (sizeof_wchar_t E)"
  have r: "vswprintf_result E LOG_MAX_WCHAR_STRING_LENGTH f args = - 1"
    using assms(1) by (auto simp: vswprintf_result_def)
  have "to_int (int (to_size_t (- ?k))) = - ?k"
    using assms(2,3) by (intro to_int_to_size_t) auto
  with r assms(2) show ?thesis
    by (simp add: wchar_t_ptr_log_context_property_type_get_init_data_size_def Let_def)
qed


theorem wchar_size_negative_witness:
  "wchar_t_ptr_log_context_property_type_get_init_data_size std_env [37, 115] [AStr ''x''] = - 4"
  using wchar_size_negative [of std_env "[37, 115]" "[AStr ''x'']"] by (simp add: std_env_def)

end
