(* ===== verification/Property_To_String.thy ===== *)
theory Property_To_String
  imports Property_Types
begin

text \<open>
  \<open>log_context_property_value_pair.h\<close> and \<open>log_context_property_to_string.c\<close>: the
  printer of a context's properties into a bounded buffer.  The array of pairs is a list
  whose entries are \<^term>\<open>None\<close> while they are not initialised; reading one, or reading
  past the end of the array, is undefined behaviour.  The abstract side is a forest of
  named fields and structs and its rendering.
\<close>

section \<open>The code\<close>

record LOG_CONTEXT_PROPERTY_VALUE_PAIR =
  name :: string
  value_ptr :: addr
  type_if :: LOG_CONTEXT_PROPERTY_TYPE_IF

type_synonym pairs = "LOG_CONTEXT_PROPERTY_VALUE_PAIR option list"

text \<open>\<open>UPDATE_BUFFER_AND_SIZE\<close>: the new values of \<open>result\<close>, \<open>buffer\<close> and \<open>buffer_size\<close>.\<close>

definition UPDATE_BUFFER_AND_SIZE :: "int \<Rightarrow> addr \<Rightarrow> nat \<Rightarrow> int \<Rightarrow> int \<times> addr \<times> nat" where
  "UPDATE_BUFFER_AND_SIZE result buffer buffer_size no_of_bytes =
     (let n = c_MIN no_of_bytes (to_int (int buffer_size)) in
      (to_int (result + n), nat (int buffer + n), to_size_t (int buffer_size - n)))"

definition read_pair :: "pairs \<Rightarrow> nat \<Rightarrow> LOG_CONTEXT_PROPERTY_VALUE_PAIR option" where
  "read_pair ps i = (if i < length ps then ps ! i else None)"

text \<open>
  The condition of the loop: all entries at the top level, a number of entries inside a
  struct.
\<close>

definition loop_condition :: "nat \<Rightarrow> nat \<Rightarrow> nat \<Rightarrow> nat \<Rightarrow> bool" where
  "loop_condition depth i added cnt = ((depth = 0 \<and> i < cnt) \<or> (0 < depth \<and> added < cnt))"

text \<open>
  The loop of \<open>log_n_properties\<close>.  It returns the result, the index \<open>i\<close> at which the loop
  ended (which the code adds to \<open>*properties_added\<close>), what the \<open>to_string\<close> functions printed and
  the memory.
\<close>

definition after_output ::
    "stdout_call list \<Rightarrow> ('a \<times> 'b \<times> stdout_call list \<times> mem) option \<Rightarrow> ('a \<times> 'b \<times> stdout_call list \<times> mem) option" where
  "after_output out x = map_option (\<lambda>(r, i, out', m). (r, i, out @ out', m)) x"

lemma after_output_Nil [simp]: "after_output [] x = x"
  by (cases x) (auto simp: after_output_def)

function log_n_properties_loop ::
    "c_env \<Rightarrow> pairs \<Rightarrow> nat \<Rightarrow> nat \<Rightarrow> nat \<Rightarrow> nat \<Rightarrow> int \<Rightarrow> addr \<Rightarrow> nat \<Rightarrow> mem \<Rightarrow>
     (int \<times> nat \<times> stdout_call list \<times> mem) option" where
  "log_n_properties_loop E ps cnt depth i added result buffer buffer_size m =
     (if loop_condition depth i added cnt then
        (case read_pair ps i of
           None \<Rightarrow> None
         | Some pair \<Rightarrow>
             if get_type (type_if pair) = LOG_CONTEXT_PROPERTY_TYPE_struct then
               (case snprintf E buffer buffer_size '' %s%s{''
                       [AStr (name pair), AStr (if name pair = [] then '''' else ''='')] m of
                  None \<Rightarrow> None
                | Some (snprintf_result, m1) \<Rightarrow>
                    if snprintf_result < 0 then Some (- 1, i, [], m1)
                    else
                      (case UPDATE_BUFFER_AND_SIZE result buffer buffer_size snprintf_result of
                         (result1, buffer1, buffer_size1) \<Rightarrow>
                           (case m1 (value_ptr pair) of
                              None \<Rightarrow> None
                            | Some struct_properties_count \<Rightarrow>
                                (case log_n_properties_loop E (drop (Suc i) ps) (of_char struct_properties_count)
                                        (Suc depth) 0 0 0 buffer1 buffer_size1 m1 of
                                   None \<Rightarrow> None
                                 | Some (log_n_properties_result, increment_i, out, m2) \<Rightarrow>
                                     if log_n_properties_result < 0 then Some (- 1, i, out, m2)
                                     else
                                       (case UPDATE_BUFFER_AND_SIZE result1 buffer1 buffer_size1 log_n_properties_result of
                                          (result2, buffer2, buffer_size2) \<Rightarrow>
                                            (case snprintf E buffer2 buffer_size2 '' }'' [] m2 of
                                               None \<Rightarrow> None
                                             | Some (snprintf_result, m3) \<Rightarrow>
                                                 if snprintf_result < 0 then Some (- 1, i + increment_i, out, m3)
                                                 else
                                                   (case UPDATE_BUFFER_AND_SIZE result2 buffer2 buffer_size2 snprintf_result of
                                                      (result3, buffer3, buffer_size3) \<Rightarrow>
                                                        after_output out
                                                          (log_n_properties_loop E ps cnt depth (Suc (i + increment_i))
                                                            (Suc added) result3 buffer3 buffer_size3 m3))))))))
             else
               (case snprintf E buffer buffer_size '' %s='' [AStr (name pair)] m of
                  None \<Rightarrow> None
                | Some (snprintf_result, m1) \<Rightarrow>
                    if snprintf_result < 0 then
                      log_n_properties_loop E ps cnt depth (Suc i) (Suc added) (- 1) buffer buffer_size m1
                    else
                      (case UPDATE_BUFFER_AND_SIZE result buffer buffer_size snprintf_result of
                         (result1, buffer1, buffer_size1) \<Rightarrow>
                           (case to_string (type_if pair) (value_ptr pair) buffer1 buffer_size1 m1 of
                              None \<Rightarrow> None
                            | Some (to_string_result, out, m2) \<Rightarrow>
                                if to_string_result < 0 then Some (- 1, i, out, m2)
                                else
                                  (case UPDATE_BUFFER_AND_SIZE result1 buffer1 buffer_size1 to_string_result of
                                     (result2, buffer2, buffer_size2) \<Rightarrow>
                                       after_output out
                                         (log_n_properties_loop E ps cnt depth (Suc i)
                                           (Suc added) result2 buffer2 buffer_size2 m2))))))
      else Some (result, i, [], m))"
  by pat_completeness auto
termination
  by (relation "measure (\<lambda>(E, ps, cnt, depth, i, _). length ps - i)")
    (auto simp: read_pair_def split: if_splits)

declare log_n_properties_loop.simps [simp del]

definition log_n_properties ::
    "c_env \<Rightarrow> addr \<Rightarrow> nat \<Rightarrow> pairs \<Rightarrow> nat \<Rightarrow> nat \<Rightarrow> mem \<Rightarrow> (int \<times> nat \<times> stdout_call list \<times> mem) option" where
  "log_n_properties E buffer buffer_size ps cnt depth m =
     log_n_properties_loop E ps cnt depth 0 0 0 buffer buffer_size m"

text \<open>A \<open>NULL\<close> array of pairs is \<^term>\<open>None\<close>.\<close>

definition log_context_property_to_string ::
    "c_env \<Rightarrow> addr \<Rightarrow> nat \<Rightarrow> pairs option \<Rightarrow> nat \<Rightarrow> mem \<Rightarrow> (int \<times> stdout_call list \<times> mem) option" where
  "log_context_property_to_string E buffer buffer_size property_value_pairs property_value_pair_count m =
     (case property_value_pairs of
        None \<Rightarrow> Some (- 1, [], m)
      | Some ps \<Rightarrow>
          if buffer = NULL \<or> buffer_size = 0 \<or> property_value_pair_count = 0 then Some (- 1, [], m)
          else do {
            (result, i, out, m') \<leftarrow> log_n_properties E buffer buffer_size ps property_value_pair_count 0 m;
            Some (result, out, m') })"

section \<open>The rendering of a forest\<close>

datatype ptree = Field string string | Struct string "ptree list"

fun render_tree :: "ptree \<Rightarrow> string" where
  "render_tree (Field nm s) = '' '' @ nm @ ''='' @ s"
| "render_tree (Struct nm fs) =
     '' '' @ nm @ (if nm = [] then '''' else ''='') @ ''{'' @ concat (map render_tree fs) @ '' }''"

definition render :: "ptree list \<Rightarrow> string" where
  "render ts = concat (map render_tree ts)"

text \<open>By how much the code advances in a buffer with \<open>n\<close> bytes left when it prints \<open>s\<close>.\<close>

definition advance :: "nat \<Rightarrow> string \<Rightarrow> nat" where
  "advance n s = min (length s) n"

lemma render_simps [simp]:
  "render [] = []" "render (t # ts) = render_tree t @ render ts"
  by (simp_all add: render_def)

lemma UPDATE_text:
  assumes "- 1 \<le> result" "int n \<le> INT_MAX" "result + int n \<le> INT_MAX"
  shows "UPDATE_BUFFER_AND_SIZE result buf n (int (length s)) =
         (result + int (advance n s), buf + advance n s, n - advance n s)"
proof -
  have "to_int (int n) = int n" using assms by (simp add: c_arith INT_MAX_def)
  then have m: "c_MIN (int (length s)) (to_int (int n)) = int (advance n s)"
    by (simp add: c_MIN_min advance_def)
  have a: "int (advance n s) \<le> int n" by (simp add: advance_def)
  have "to_int (result + int (advance n s)) = result + int (advance n s)"
    using assms a by (intro to_int_id) (auto simp: INT_MAX_def)
  moreover have "to_size_t (int n - int (advance n s)) = n - advance n s"
    using assms a by (subst to_size_t_id) (auto simp: INT_MAX_def)
  ultimately show ?thesis by (simp add: UPDATE_BUFFER_AND_SIZE_def Let_def m nat_int_add)
qed

lemma put_cstr_append:
  "put_cstr (put_cstr m buf n s) (buf + advance n s) (n - advance n s) s' = put_cstr m buf n (s @ s')"
proof (cases "length s < n")
  case True
  then have a: "advance n s = length s" by (simp add: advance_def)
  have "put_bytes (put_bytes m buf (s @ [NUL])) (buf + length s) (take (n - length s - 1) s' @ [NUL]) =
        put_bytes m buf (s @ take (n - length s - 1) s' @ [NUL])"
    by (simp add: put_bytes_append [of m buf s] put_bytes_shadow)
  with True a show ?thesis by (simp add: put_cstr_def)
next
  case False
  then show ?thesis by (simp add: put_cstr_def advance_def)
qed

lemma advance_append: "advance n s + advance (n - advance n s) s' = advance n (s @ s')"
  by (auto simp: advance_def)

lemma advance_le: "advance n s \<le> n"
  by (simp add: advance_def)

text \<open>
  \<open>represents m A ts ps\<close>: in memory \<open>m\<close> the pairs \<open>ps\<close> are the forest \<open>ts\<close> in prefix
  order, a struct entry giving its number of children in one byte, and every value they
  point to lies in the set of addresses \<open>A\<close>.
\<close>

inductive represents :: "mem \<Rightarrow> addr set \<Rightarrow> ptree list \<Rightarrow> pairs \<Rightarrow> bool" for m A where
  empty: "represents m A [] []"
| field: "represents m A (Field (name pr) s # ts) (Some pr # ps)"
    if "get_type (type_if pr) \<noteq> LOG_CONTEXT_PROPERTY_TYPE_struct"
      "prints (type_if pr) (value_ptr pr) bs s" "bytes_at m (value_ptr pr) bs"
      "{value_ptr pr..<value_ptr pr + length bs} \<subseteq> A"
      "int (length (name pr)) + 3 \<le> INT_MAX" "represents m A ts ps"
| struct: "represents m A (Struct (name pr) fs # ts) (Some pr # qs @ ps)"
    if "get_type (type_if pr) = LOG_CONTEXT_PROPERTY_TYPE_struct"
      "m (value_ptr pr) = Some (char_of (length fs))" "length fs < 256" "value_ptr pr \<in> A"
      "int (length (name pr)) + 3 \<le> INT_MAX" "represents m A fs qs" "represents m A ts ps"

lemma represents_cong:
  "represents m A ts ps \<Longrightarrow> \<forall>a\<in>A. m' a = m a \<Longrightarrow> represents m' A ts ps"
proof (induction rule: represents.induct)
  case (field pr bs s ts ps)
  have "bytes_at m' (value_ptr pr) bs"
    by (rule bytes_at_cong [OF field(3)]) (use field in auto)
  with field show ?case by (intro represents.field) auto
qed (auto intro: represents.intros)

lemma represents_mono: "represents m A ts ps \<Longrightarrow> A \<subseteq> B \<Longrightarrow> represents m B ts ps"
  by (induction rule: represents.induct) (auto intro: represents.intros)

lemma represents_append:
  "represents m A ts ps \<Longrightarrow> represents m A us qs \<Longrightarrow> represents m A (ts @ us) (ps @ qs)"
  by (induction rule: represents.induct) (auto intro: represents.intros)

lemma c_printf_field: "c_printf '' %s='' [AStr nm] = Some ('' '' @ nm @ ''='')"
  by (simp add: c_printf_def c_conv_def is_digit_def)

lemma c_printf_struct: "c_printf '' %s%s{'' [AStr nm, AStr e] = Some ('' '' @ nm @ e @ ''{'')"
  by (simp add: c_printf_def c_conv_def is_digit_def)

lemma c_printf_close: "c_printf '' }'' [] = Some '' }''"
  by (simp add: c_printf_def)

lemma put_cstr_elsewhere: "a < buf \<or> buf + n \<le> a \<Longrightarrow> put_cstr m buf n s a = m a"
  by (auto simp: put_cstr_def put_bytes_def)

lemma put_cstr_agree:
  "\<forall>a\<in>A. m' a = m a \<Longrightarrow> A \<inter> {buf..<buf + n} = {} \<Longrightarrow> \<forall>a\<in>A. put_cstr m' buf n s a = m a"
  by (metis atLeastLessThan_iff disjoint_iff not_le put_cstr_elsewhere)

lemma accessible_put_cstr: "accessible m q k \<Longrightarrow> accessible (put_cstr m buf n s) q k"
  by (simp add: put_cstr_def mem_simps)

text \<open>
  One appended text: the condition on the buffer that every step of the printer starts
  from, and that it holds again after the step.
\<close>

definition buffer_ok :: "addr set \<Rightarrow> int \<Rightarrow> addr \<Rightarrow> nat \<Rightarrow> mem \<Rightarrow> bool" where
  "buffer_ok A result buf n m \<longleftrightarrow> 0 \<le> result \<and> result + int n \<le> INT_MAX \<and> buf \<noteq> NULL \<and>
     accessible m buf n \<and> A \<inter> {buf..<buf + n} = {}"

lemma buffer_ok_step:
  assumes "buffer_ok A result buf n m"
  shows "buffer_ok A (result + int (advance n s)) (buf + advance n s) (n - advance n s) (put_cstr m buf n s)"
proof -
  have "accessible (put_cstr m buf n s) (buf + advance n s) (n - advance n s)"
    by (rule accessible_put_cstr, rule accessible_sub [of m buf n])
      (use assms advance_le [of n s] in \<open>auto simp: buffer_ok_def\<close>)
  with assms advance_le [of n s] show ?thesis by (auto simp: buffer_ok_def)
qed

lemma buffer_ok_UPDATE:
  "buffer_ok A result buf n m \<Longrightarrow> UPDATE_BUFFER_AND_SIZE result buf n (int (length s)) =
     (result + int (advance n s), buf + advance n s, n - advance n s)"
  by (rule UPDATE_text) (auto simp: buffer_ok_def)

lemma buffer_ok_UPDATE_bytes:
  "buffer_ok A result buf n m \<Longrightarrow> k \<le> n \<Longrightarrow> UPDATE_BUFFER_AND_SIZE result buf n (int k) =
     (result + int k, buf + k, n - k)"
  using buffer_ok_UPDATE [of A result buf n m "replicate k NUL"] by (simp add: advance_def min_def)

lemma buffer_ok_snprintf:
  "conforming E \<Longrightarrow> buffer_ok A result buf n m \<Longrightarrow> c_printf f args = Some s \<Longrightarrow>
   int (length s) \<le> INT_MAX \<Longrightarrow> snprintf E buf n f args m = Some (int (length s), put_cstr m buf n s)"
  by (intro vsnprintf_ok) (auto simp: buffer_ok_def conforming_fmt)

lemma loop_end:
  "\<not> loop_condition depth i added cnt \<Longrightarrow>
   log_n_properties_loop E ps cnt depth i added result buf n m = Some (result, i, [], m)"
  by (subst log_n_properties_loop.simps) simp

text \<open>The two kinds of entries, as one step of the loop.\<close>

lemma loop_field:
  assumes E: "conforming E" and ok: "buffer_ok A result buf n m"
    and run: "loop_condition depth i added cnt"
    and pr: "read_pair ps i = Some pr" "get_type (type_if pr) \<noteq> LOG_CONTEXT_PROPERTY_TYPE_struct"
      "int (length (name pr)) + 3 \<le> INT_MAX"
    and v: "prints (type_if pr) (value_ptr pr) bs s" "bytes_at m (value_ptr pr) bs"
      "{value_ptr pr..<value_ptr pr + length bs} \<subseteq> A"
  defines "t \<equiv> render_tree (Field (name pr) s)"
  shows "log_n_properties_loop E ps cnt depth i added result buf n m =
         log_n_properties_loop E ps cnt depth (Suc i) (Suc added) (result + int (advance n t))
           (buf + advance n t) (n - advance n t) (put_cstr m buf n t)"
proof -
  define h where "h = '' '' @ name pr @ ''=''"
  let ?m1 = "put_cstr m buf n h"
  have sn: "snprintf E buf n '' %s='' [AStr (name pr)] m = Some (int (length h), ?m1)"
    using pr(3) c_printf_field [of "name pr"]
    by (intro buffer_ok_snprintf [OF E ok]) (simp_all add: h_def)
  have ok1: "buffer_ok A (result + int (advance n h)) (buf + advance n h) (n - advance n h) ?m1"
    by (rule buffer_ok_step [OF ok])
  have "bytes_at ?m1 (value_ptr pr) bs"
    by (rule bytes_at_cong [OF v(2)], rule put_cstr_elsewhere)
      (use v(3) ok in \<open>fastforce simp: buffer_ok_def\<close>)
  then have ts: "to_string (type_if pr) (value_ptr pr) (buf + advance n h) (n - advance n h) ?m1 =
      Some (int (length s), [], put_cstr ?m1 (buf + advance n h) (n - advance n h) s)"
    by (rule printsD [OF v(1)]) (use ok1 in \<open>auto simp: buffer_ok_def\<close>)
  have t: "t = h @ s" by (simp add: t_def h_def)
  show ?thesis
    unfolding t
    by (subst log_n_properties_loop.simps)
      (simp add: run pr(1,2) sn buffer_ok_UPDATE [OF ok] ts buffer_ok_UPDATE [OF ok1]
        put_cstr_append advance_append [symmetric] add.assoc)
qed

definition struct_head :: "string \<Rightarrow> string" where
  "struct_head nm = '' '' @ nm @ (if nm = [] then '''' else ''='') @ ''{''"

definition after_fields :: "ptree list \<Rightarrow> mem \<Rightarrow> addr \<Rightarrow> nat \<Rightarrow> mem" where
  "after_fields ts m buf n = (if ts = [] then m else put_cstr m buf n (render ts))"

lemma buffer_ok_after_fields:
  assumes "buffer_ok A result buf n m"
  shows "buffer_ok A (result + int (advance n (render ts))) (buf + advance n (render ts))
           (n - advance n (render ts)) (after_fields ts m buf n)"
proof (cases "ts = []")
  case True
  with assms show ?thesis by (simp add: after_fields_def advance_def)
qed (simp add: after_fields_def buffer_ok_step [OF assms])

lemma put_cstr_after_fields:
  "put_cstr (after_fields ts m buf n) (buf + advance n (render ts)) (n - advance n (render ts)) s =
   put_cstr m buf n (render ts @ s)"
proof (cases "ts = []")
  case True
  then show ?thesis by (simp add: after_fields_def advance_def)
qed (simp add: after_fields_def put_cstr_append)

lemma loop_struct:
  assumes E: "conforming E" and ok: "buffer_ok A result buf n m"
    and run: "loop_condition depth i added cnt"
    and pr: "read_pair ps i = Some pr" "get_type (type_if pr) = LOG_CONTEXT_PROPERTY_TYPE_struct"
      "int (length (name pr)) + 3 \<le> INT_MAX"
    and v: "m (value_ptr pr) = Some (char_of (length fs))" "length fs < 256" "value_ptr pr \<in> A"
  defines "h \<equiv> struct_head (name pr)"
  assumes nested: "log_n_properties_loop E (drop (Suc i) ps) (length fs) (Suc depth) 0 0 0
      (buf + advance n h) (n - advance n h) (put_cstr m buf n h) =
      Some (int (advance (n - advance n h) (render fs)), k, [],
            after_fields fs (put_cstr m buf n h) (buf + advance n h) (n - advance n h))"
  defines "t \<equiv> render_tree (Struct (name pr) fs)"
  shows "log_n_properties_loop E ps cnt depth i added result buf n m =
         log_n_properties_loop E ps cnt depth (Suc (i + k)) (Suc added) (result + int (advance n t))
           (buf + advance n t) (n - advance n t) (put_cstr m buf n t)"
proof -
  let ?m1 = "put_cstr m buf n h"
  have sn: "snprintf E buf n '' %s%s{'' [AStr (name pr), AStr (if name pr = [] then '''' else ''='')] m =
      Some (int (length h), ?m1)"
    using pr(3) c_printf_struct [of "name pr" "if name pr = [] then '''' else ''=''"]
    by (intro buffer_ok_snprintf [OF E ok]) (simp_all add: h_def struct_head_def)
  have ok1: "buffer_ok A (result + int (advance n h)) (buf + advance n h) (n - advance n h) ?m1"
    by (rule buffer_ok_step [OF ok])
  have v1: "?m1 (value_ptr pr) = Some (char_of (length fs))"
    using v(1,3) ok put_cstr_elsewhere [of "value_ptr pr" buf n m h] by (fastforce simp: buffer_ok_def)
  have c: "length fs mod 256 = length fs" using v(2) by simp
  define close where "close = '' }''"
  have sn2: "snprintf E buf' n' '' }'' [] m' = Some (int (length close), put_cstr m' buf' n' close)"
    if "buffer_ok A r' buf' n' m'" for r' buf' n' m'
    unfolding close_def by (rule buffer_ok_snprintf [OF E that c_printf_close]) (simp add: INT_MAX_def)
  note ok2 = buffer_ok_after_fields [OF ok1, of fs]
  have t: "t = h @ render fs @ close"
    by (simp add: t_def h_def struct_head_def render_def close_def)
  define n1 where "n1 = n - advance n h"
  define n2 where "n2 = n1 - advance n1 (render fs)"
  have split: "advance n t = advance n h + (advance n1 (render fs) + advance n2 close)"
    unfolding n1_def n2_def t by (simp only: advance_append)
  have size: "n - advance n t = n2 - advance n2 close" by (simp add: split n1_def n2_def)
  have m3: "put_cstr m buf n t =
      put_cstr (after_fields fs ?m1 (buf + advance n h) n1) (buf + advance n h + advance n1 (render fs)) n2 close"
    unfolding n2_def put_cstr_after_fields by (simp add: n1_def put_cstr_append t)
  note facts = run pr(1,2) sn v1 c nested sn2 [OF ok2] buffer_ok_UPDATE [OF ok]
    buffer_ok_UPDATE_bytes [OF ok1 advance_le] buffer_ok_UPDATE [OF ok2]
  show ?thesis
    unfolding size m3
    by (subst log_n_properties_loop.simps)
      (simp add: facts [folded n1_def, folded n2_def] n1_def [symmetric] n2_def [symmetric],
        simp add: split add.assoc)
qed

lemma read_pair_drop: "drop i ps = Some pr # qs \<Longrightarrow> read_pair ps i = Some pr"
  by (cases "i < length ps") (auto simp: read_pair_def nth_via_drop)

lemma after_fields_put:
  "after_fields ts (put_cstr m buf n t) (buf + advance n t) (n - advance n t) = put_cstr m buf n (t @ render ts)"
  by (simp add: after_fields_def put_cstr_append)

lemma loop_renders_step:
  assumes "log_n_properties_loop E ps cnt depth i added result buf n m =
      log_n_properties_loop E ps cnt depth i' (Suc added) (result + int (advance n t))
        (buf + advance n t) (n - advance n t) (put_cstr m buf n t)"
    and "log_n_properties_loop E ps cnt depth i' (Suc added) (result + int (advance n t))
        (buf + advance n t) (n - advance n t) (put_cstr m buf n t) =
      Some (result + int (advance n t) + int (advance (n - advance n t) (render ts)), k, [],
        after_fields ts (put_cstr m buf n t) (buf + advance n t) (n - advance n t))"
    and "t = render_tree tr"
  shows "log_n_properties_loop E ps cnt depth i added result buf n m =
      Some (result + int (advance n (render (tr # ts))), k, [], after_fields (tr # ts) m buf n)"
proof -
  have "after_fields (tr # ts) m buf n = put_cstr m buf n (t @ render ts)"
    by (simp add: after_fields_def assms(3))
  with assms show ?thesis
    by (simp add: after_fields_put advance_append [symmetric])
qed

theorem loop_renders:
  assumes "represents m A ts qs" "conforming E"
    and "\<forall>a\<in>A. m' a = m a" "buffer_ok A result buf n m'"
    and "drop i ps = qs @ suf" "cnt = (if depth = 0 then i + length qs else added + length ts)"
  shows "log_n_properties_loop E ps cnt depth i added result buf n m' =
         Some (result + int (advance n (render ts)), i + length qs, [], after_fields ts m' buf n)"
  using assms
proof (induction arbitrary: m' result buf n i ps suf cnt depth added rule: represents.induct)
  case empty
  then show ?case
    by (subst loop_end) (auto simp: loop_condition_def after_fields_def advance_def)
next
  case (field pr bs s ts qs)
  define t where "t = render_tree (Field (name pr) s)"
  have rp: "read_pair ps i = Some pr" using field.prems(4) by (intro read_pair_drop) simp
  have run: "loop_condition depth i added cnt" using field.prems(5) by (auto simp: loop_condition_def)
  have "bytes_at m' (value_ptr pr) bs"
    by (rule bytes_at_cong [OF field.hyps(3)]) (use field.hyps(4) field.prems(2) in auto)
  note step = loop_field [OF field.prems(1,3) run rp field.hyps(1,5,2) this field.hyps(4), folded t_def]
  have k: "i + length (Some pr # qs) = Suc i + length qs" by simp
  show ?case unfolding k
  proof (rule loop_renders_step [OF step _ t_def], rule field.IH [where suf = suf])
    show "\<forall>a\<in>A. put_cstr m' buf n t a = m a"
      using field.prems(2,3) by (intro put_cstr_agree) (auto simp: buffer_ok_def)
  qed (use field.prems in \<open>auto simp: buffer_ok_step drop_Suc tl_drop [symmetric]\<close>)
next
  case (struct pr fs qs ts us)
  define h where "h = struct_head (name pr)"
  define t where "t = render_tree (Struct (name pr) fs)"
  have rp: "read_pair ps i = Some pr" using struct.prems(4) by (intro read_pair_drop) simp
  have run: "loop_condition depth i added cnt" using struct.prems(5) by (auto simp: loop_condition_def)
  have v: "m' (value_ptr pr) = Some (char_of (length fs))" using struct.hyps struct.prems(2) by simp
  have dr: "drop (Suc i) ps = qs @ us @ suf" using struct.prems(4) by (simp add: drop_Suc tl_drop [symmetric])
  have agree: "\<forall>a\<in>A. put_cstr m' buf n s a = m a" for s
    using struct.prems(2,3) by (intro put_cstr_agree) (auto simp: buffer_ok_def)
  have ok1: "buffer_ok A 0 (buf + advance n h) (n - advance n h) (put_cstr m' buf n h)"
    using buffer_ok_step [OF struct.prems(3), of h] by (simp add: buffer_ok_def)
  have nested: "log_n_properties_loop E (drop (Suc i) ps) (length fs) (Suc depth) 0 0 0
      (buf + advance n h) (n - advance n h) (put_cstr m' buf n h) =
      Some (0 + int (advance (n - advance n h) (render fs)), 0 + length qs, [],
            after_fields fs (put_cstr m' buf n h) (buf + advance n h) (n - advance n h))"
    by (rule struct.IH(1) [OF struct.prems(1) agree ok1]) (simp_all add: dr)
  note step = loop_struct [OF struct.prems(1,3) run rp struct.hyps(1,5) v struct.hyps(3,4),
      folded h_def t_def, OF nested [simplified]]
  have k: "i + length (Some pr # qs @ us) = Suc (i + length qs) + length us" by simp
  have drop_rest: "drop (Suc (i + length qs)) ps = us @ suf"
    using arg_cong [OF dr, of "drop (length qs)"] by (simp add: add.commute)
  show ?case unfolding k
    by (rule loop_renders_step [OF step _ t_def], rule struct.IH(2) [OF struct.prems(1) agree])
      (use struct.prems in \<open>auto simp: buffer_ok_step drop_rest\<close>)
qed

text \<open>
  A struct entry that announces more fields than there are entries: the printer goes past
  the last initialised entry, which is undefined.
\<close>

lemma loop_overrun:
  assumes "represents m A ts qs" "conforming E"
    and "\<forall>a\<in>A. m' a = m a" "buffer_ok A result buf n m'"
    and "drop i ps = qs @ suf" "0 < depth" "added + length ts < cnt" "suf = [] \<or> hd suf = None"
  shows "log_n_properties_loop E ps cnt depth i added result buf n m' = None"
  using assms
proof (induction arbitrary: m' result buf n i added rule: represents.induct)
  case empty
  have "read_pair ps i = None"
    using empty.prems(4,7) by (cases suf) (auto simp: read_pair_def nth_via_drop)
  moreover have "loop_condition depth i added cnt" using empty.prems by (simp add: loop_condition_def)
  ultimately show ?case by (subst log_n_properties_loop.simps) simp
next
  case (field pr bs s ts qs)
  define t where "t = render_tree (Field (name pr) s)"
  have rp: "read_pair ps i = Some pr" using field.prems(4) by (intro read_pair_drop) simp
  have run: "loop_condition depth i added cnt" using field.prems by (auto simp: loop_condition_def)
  have b: "bytes_at m' (value_ptr pr) bs"
    by (rule bytes_at_cong [OF field.hyps(3)]) (use field.hyps(4) field.prems(2) in auto)
  have agree: "\<forall>a\<in>A. put_cstr m' buf n t a = m a"
    using field.prems(2,3) by (intro put_cstr_agree) (auto simp: buffer_ok_def)
  show ?case
    unfolding loop_field [OF field.prems(1,3) run rp field.hyps(1,5,2) b field.hyps(4), folded t_def]
    by (rule field.IH [OF field.prems(1) agree buffer_ok_step [OF field.prems(3)]])
      (use field.prems in \<open>auto simp: drop_Suc tl_drop [symmetric]\<close>)
next
  case (struct pr fs qs ts us)
  define h where "h = struct_head (name pr)"
  define t where "t = render_tree (Struct (name pr) fs)"
  have rp: "read_pair ps i = Some pr" using struct.prems(4) by (intro read_pair_drop) simp
  have run: "loop_condition depth i added cnt" using struct.prems by (auto simp: loop_condition_def)
  have v: "m' (value_ptr pr) = Some (char_of (length fs))" using struct.hyps struct.prems(2) by simp
  have dr: "drop (Suc i) ps = qs @ us @ suf" using struct.prems(4) by (simp add: drop_Suc tl_drop [symmetric])
  have agree: "\<forall>a\<in>A. put_cstr m' buf n s a = m a" for s
    using struct.prems(2,3) by (intro put_cstr_agree) (auto simp: buffer_ok_def)
  have ok1: "buffer_ok A 0 (buf + advance n h) (n - advance n h) (put_cstr m' buf n h)"
    using buffer_ok_step [OF struct.prems(3), of h] by (simp add: buffer_ok_def)
  have nested: "log_n_properties_loop E (drop (Suc i) ps) (length fs) (Suc depth) 0 0 0
      (buf + advance n h) (n - advance n h) (put_cstr m' buf n h) =
      Some (0 + int (advance (n - advance n h) (render fs)), 0 + length qs, [],
            after_fields fs (put_cstr m' buf n h) (buf + advance n h) (n - advance n h))"
    by (rule loop_renders [OF struct.hyps(6) struct.prems(1) agree ok1]) (simp_all add: dr)
  have drop_rest: "drop (Suc (i + length qs)) ps = us @ suf"
    using arg_cong [OF dr, of "drop (length qs)"] by (simp add: add.commute)
  show ?case
    unfolding loop_struct [OF struct.prems(1,3) run rp struct.hyps(1,5) v struct.hyps(3,4),
      folded h_def t_def, OF nested [simplified]]
    by (rule struct.IH(2) [OF struct.prems(1) agree buffer_ok_step [OF struct.prems(3)] drop_rest])
      (use struct.prems in auto)
qed

lemma struct_overrun:
  assumes E: "conforming E" and ok: "buffer_ok A 0 buf n m"
    and pr: "read_pair ps 0 = Some pr" "get_type (type_if pr) = LOG_CONTEXT_PROPERTY_TYPE_struct"
      "int (length (name pr)) + 3 \<le> INT_MAX" "m (value_ptr pr) = Some (char_of c)" "c < 256" "value_ptr pr \<in> A"
    and fs: "represents m A fs qs" "drop (Suc 0) ps = qs @ suf" "suf = [] \<or> hd suf = None" "length fs < c" "0 < cnt"
  shows "log_n_properties_loop E ps cnt 0 0 0 0 buf n m = None"
proof -
  define h where "h = struct_head (name pr)"
  let ?m1 = "put_cstr m buf n h"
  have sn: "snprintf E buf n '' %s%s{'' [AStr (name pr), AStr (if name pr = [] then '''' else ''='')] m =
      Some (int (length h), ?m1)"
    using pr(3) c_printf_struct [of "name pr" "if name pr = [] then '''' else ''=''"]
    by (intro buffer_ok_snprintf [OF E ok]) (simp_all add: h_def struct_head_def)
  have agree: "\<forall>a\<in>A. ?m1 a = m a" using ok by (intro put_cstr_agree) (auto simp: buffer_ok_def)
  then have v: "?m1 (value_ptr pr) = Some (char_of c)" using pr by simp
  have c: "c mod 256 = c" using pr(5) by simp
  have ok1: "buffer_ok A 0 (buf + advance n h) (n - advance n h) ?m1"
    using buffer_ok_step [OF ok, of h] by (simp add: buffer_ok_def)
  have "log_n_properties_loop E (drop (Suc 0) ps) c (Suc 0) 0 0 0 (buf + advance n h) (n - advance n h) ?m1 = None"
    by (rule loop_overrun [OF fs(1) E agree ok1, where suf = suf]) (use fs in auto)
  with fs(5) show ?thesis
    by (subst log_n_properties_loop.simps)
      (simp add: loop_condition_def pr(1,2) sn buffer_ok_UPDATE [OF ok] v c)
qed

section \<open>Memory safety of the printer\<close>

text \<open>
  \<open>layout m A k ps\<close>: the pairs are \<open>k\<close> trees in prefix order whose values lie in \<open>A\<close> and
  are safe to print.  Nothing is assumed of the formatting.
\<close>

inductive layout :: "mem \<Rightarrow> addr set \<Rightarrow> nat \<Rightarrow> pairs \<Rightarrow> bool" for m A where
  empty: "layout m A 0 []"
| field: "layout m A (Suc k) (Some pr # ps)"
    if "get_type (type_if pr) \<noteq> LOG_CONTEXT_PROPERTY_TYPE_struct"
      "safe_value (type_if pr) (value_ptr pr) bs" "bytes_at m (value_ptr pr) bs"
      "{value_ptr pr..<value_ptr pr + length bs} \<subseteq> A" "layout m A k ps"
| struct: "layout m A (Suc k) (Some pr # qs @ ps)"
    if "get_type (type_if pr) = LOG_CONTEXT_PROPERTY_TYPE_struct"
      "m (value_ptr pr) = Some (char_of c)" "c < 256" "value_ptr pr \<in> A" "layout m A c qs" "layout m A k ps"

definition safe_buffer :: "addr set \<Rightarrow> int \<Rightarrow> addr \<Rightarrow> nat \<Rightarrow> mem \<Rightarrow> bool" where
  "safe_buffer A result buf n m \<longleftrightarrow> - 1 \<le> result \<and> result + int n \<le> INT_MAX \<and> int n \<le> INT_MAX \<and>
     buf \<noteq> NULL \<and> accessible m buf n \<and> A \<inter> {buf..<buf + n} = {}"

definition progress :: "int \<Rightarrow> addr \<Rightarrow> nat \<Rightarrow> mem \<Rightarrow> int \<Rightarrow> addr \<Rightarrow> nat \<Rightarrow> mem \<Rightarrow> bool" where
  "progress result buf n m result' buf' n' m' \<longleftrightarrow>
     (\<exists>k\<le>n. buf' = buf + k \<and> n' = n - k) \<and> unchanged m m' buf n \<and> keeps_accessible m m' \<and>
     - 1 \<le> result' \<and> result' + int n' \<le> result + int n"

lemma progress_trans:
  assumes a: "progress r b n m r' b' n' m'" and b: "progress r' b' n' m' r'' b'' n'' m''"
  shows "progress r b n m r'' b'' n'' m''"
proof -
  from a obtain k where k: "k \<le> n" "b' = b + k" "n' = n - k" by (auto simp: progress_def)
  from b obtain j where j: "j \<le> n'" "b'' = b' + j" "n'' = n' - j" by (auto simp: progress_def)
  have "unchanged m' m'' b n"
    by (rule unchanged_sub [of _ _ b' n']) (use b k in \<open>auto simp: progress_def\<close>)
  then have "unchanged m m'' b n" using a by (auto simp: progress_def intro: unchanged_trans)
  moreover have "\<exists>i\<le>n. b'' = b + i \<and> n'' = n - i" by (rule exI [of _ "k + j"]) (use k j in auto)
  ultimately show ?thesis using a b by (auto simp: progress_def intro: keeps_accessible_trans)
qed

lemma progress_safe:
  assumes "safe_buffer A r b n m" "progress r b n m r' b' n' m'"
  shows "safe_buffer A r' b' n' m'"
proof -
  from assms(2) obtain k where k: "k \<le> n" "b' = b + k" "n' = n - k" by (auto simp: progress_def)
  have "accessible m' b' n'"
    by (rule accessible_sub [of _ b n]) (use assms k in \<open>auto simp: safe_buffer_def progress_def keeps_accessibleD\<close>)
  with assms k show ?thesis by (auto simp: safe_buffer_def progress_def)
qed

lemma progress_agree:
  "progress r b n m r' b' n' m' \<Longrightarrow> safe_buffer A r b n m \<Longrightarrow> \<forall>a\<in>A. m a = m0 a \<Longrightarrow> \<forall>a\<in>A. m' a = m0 a"
  unfolding progress_def safe_buffer_def unchanged_def
  by (metis atLeastLessThan_iff disjoint_iff not_le)

lemma UPDATE_progress:
  assumes "safe_buffer A result buf n m" "0 \<le> z" "unchanged m m' buf n" "keeps_accessible m m'"
  obtains r1 b1 n1 where "UPDATE_BUFFER_AND_SIZE result buf n z = (r1, b1, n1)"
    "progress result buf n m r1 b1 n1 m'"
proof -
  define k where "k = min (nat z) n"
  have n: "to_int (int n) = int n" using assms(1) by (simp add: safe_buffer_def c_arith INT_MAX_def)
  then have m: "c_MIN z (to_int (int n)) = int k" using assms(2) by (simp add: c_MIN_min k_def)
  have k: "k \<le> n" by (simp add: k_def)
  have "to_int (result + int k) = result + int k"
    using assms(1) k by (intro to_int_id) (auto simp: safe_buffer_def INT_MAX_def)
  moreover have "to_size_t (int n - int k) = n - k"
    using assms(1) k by (subst to_size_t_id) (auto simp: safe_buffer_def INT_MAX_def)
  ultimately have "UPDATE_BUFFER_AND_SIZE result buf n z = (result + int k, buf + k, n - k)"
    by (simp add: UPDATE_BUFFER_AND_SIZE_def Let_def m nat_int_add)
  moreover have "progress result buf n m (result + int k) (buf + k) (n - k) m'"
    using assms k by (auto simp: progress_def safe_buffer_def)
  ultimately show ?thesis by (rule that)
qed

text \<open>
  What the loop returns: a result between \<open>-1\<close> and the end of the buffer, with nothing
  written outside it, and the index of the last entry unless it stopped with an error.
\<close>

definition safe_result :: "int \<Rightarrow> addr \<Rightarrow> nat \<Rightarrow> mem \<Rightarrow> nat \<Rightarrow> (int \<times> nat \<times> stdout_call list \<times> mem) option \<Rightarrow> bool" where
  "safe_result result buf n m endi x \<longleftrightarrow>
     (\<exists>r j m'. x = Some (r, j, [], m') \<and> - 1 \<le> r \<and> r \<le> result + int n \<and> (0 \<le> r \<longrightarrow> j = endi) \<and>
        unchanged m m' buf n \<and> keeps_accessible m m')"

lemma safe_result_step:
  assumes "progress result buf n m r1 b1 n1 m1" "safe_result r1 b1 n1 m1 endi x"
  shows "safe_result result buf n m endi x"
proof -
  from assms(2) obtain r j m' where x: "x = Some (r, j, [], m')" "- 1 \<le> r" "r \<le> r1 + int n1"
    "0 \<le> r \<longrightarrow> j = endi" "unchanged m1 m' b1 n1" "keeps_accessible m1 m'"
    by (auto simp: safe_result_def)
  have "progress r1 b1 n1 m1 (- 1) b1 n1 m'"
    using x(5,6) assms(1) by (auto simp: progress_def)
  from progress_trans [OF assms(1) this] x assms(1) show ?thesis
    by (auto simp: safe_result_def progress_def)
qed

lemma safe_result_error:
  "safe_buffer A result buf n m \<Longrightarrow> unchanged m m' buf n \<Longrightarrow> keeps_accessible m m' \<Longrightarrow>
   safe_result result buf n m endi (Some (- 1, j, [], m'))"
  by (auto simp: safe_result_def safe_buffer_def)


text \<open>A call that writes to the buffer either fails or advances in it.\<close>

lemma write_cases:
  assumes ok: "safe_buffer A result buf n m" and x: "x = Some (z, m1)"
    and m1: "unchanged m m1 buf n" "keeps_accessible m m1"
  obtains (fails) "x = Some (z, m1)" "z < 0" "safe_result result buf n m endi (Some (- 1, j, [], m1))"
      "progress result buf n m (- 1) buf n m1"
    | (writes) r1 b1 n1 where "x = Some (z, m1)" "\<not> z < 0"
      "UPDATE_BUFFER_AND_SIZE result buf n z = (r1, b1, n1)" "progress result buf n m r1 b1 n1 m1"
proof (cases "z < 0")
  case True
  have "progress result buf n m (- 1) buf n m1" using m1 ok by (auto simp: progress_def safe_buffer_def)
  with fails True x safe_result_error [OF ok m1] show ?thesis by blast
next
  case False
  then obtain r1 b1 n1 where "UPDATE_BUFFER_AND_SIZE result buf n z = (r1, b1, n1)"
    "progress result buf n m r1 b1 n1 m1"
    using UPDATE_progress [OF ok _ m1] by (metis linorder_not_less)
  with writes False x show ?thesis by blast
qed

lemma snprintf_cases:
  assumes ok: "safe_buffer A result buf n m"
  obtains (fails) z m1 where "snprintf E buf n f args m = Some (z, m1)" "z < 0"
      "safe_result result buf n m endi (Some (- 1, j, [], m1))" "progress result buf n m (- 1) buf n m1"
    | (writes) z m1 r1 b1 n1 where "snprintf E buf n f args m = Some (z, m1)" "\<not> z < 0"
      "UPDATE_BUFFER_AND_SIZE result buf n z = (r1, b1, n1)" "progress result buf n m r1 b1 n1 m1"
proof -
  have "accessible m buf n" using ok by (simp add: safe_buffer_def)
  from vsnprintf_safe [OF this, of E f args] obtain z m1 where
    "snprintf E buf n f args m = Some (z, m1)" "unchanged m m1 buf n" "keeps_accessible m m1" by blast
  from write_cases [OF ok this, of endi j] that show thesis by metis
qed

lemma field_safe:
  assumes ok: "safe_buffer A result buf n m" and run: "loop_condition depth i added cnt"
    and pr: "read_pair ps i = Some pr" "get_type (type_if pr) \<noteq> LOG_CONTEXT_PROPERTY_TYPE_struct"
    and v: "safe_value (type_if pr) (value_ptr pr) bs" "bytes_at m (value_ptr pr) bs"
      "{value_ptr pr..<value_ptr pr + length bs} \<subseteq> A"
    and rest: "\<And>r1 b1 n1 m1. progress result buf n m r1 b1 n1 m1 \<Longrightarrow>
      safe_result r1 b1 n1 m1 endi (log_n_properties_loop E ps cnt depth (Suc i) (Suc added) r1 b1 n1 m1)"
  shows "safe_result result buf n m endi (log_n_properties_loop E ps cnt depth i added result buf n m)"
proof (cases rule: snprintf_cases [OF ok, of E "'' %s=''" "[AStr (name pr)]" endi i, case_names fails writes])
  case (fails z m1)
  from safe_result_step [OF fails(4) rest [OF fails(4)]] fails(1,2) run pr show ?thesis
    by (simp add: log_n_properties_loop.simps [of E ps cnt depth i])
next
  case (writes z m1 r1 b1 n1)
  note p = \<open>progress result buf n m r1 b1 n1 m1\<close>
  note ok1 = progress_safe [OF ok p]
  note unf = log_n_properties_loop.simps [of E ps cnt depth i] run pr writes(1-3)
  have "\<forall>a\<in>A. m1 a = m a" by (rule progress_agree [OF p ok]) simp
  then have "bytes_at m1 (value_ptr pr) bs" by (intro bytes_at_cong [OF v(2)]) (use v(3) in auto)
  with safe_valueD [OF v(1) this, of b1 n1] ok1 obtain z' m2 where
    ts: "to_string (type_if pr) (value_ptr pr) b1 n1 m1 = Some (z', [], m2)"
    "unchanged m1 m2 b1 n1" "keeps_accessible m1 m2" by (auto simp: safe_buffer_def)
  show ?thesis
  proof (cases rule: write_cases [OF ok1 refl ts(2,3), of z' endi i, case_names fails writes])
    case fails
    from safe_result_step [OF p fails(3)] fails(2) show ?thesis by (simp add: unf ts(1))
  next
    case (writes r2 b2 n2)
    note q = progress_trans [OF p writes(4)]
    from safe_result_step [OF q rest [OF q]] writes(2,3) show ?thesis by (simp add: unf ts(1))
  qed
qed

lemma struct_safe:
  assumes ok: "safe_buffer A result buf n m" and run: "loop_condition depth i added cnt"
    and pr: "read_pair ps i = Some pr" "get_type (type_if pr) = LOG_CONTEXT_PROPERTY_TYPE_struct"
    and v: "m (value_ptr pr) = Some (char_of c)" "c < 256" "value_ptr pr \<in> A"
    and nested: "\<And>r1 b1 n1 m1. progress result buf n m r1 b1 n1 m1 \<Longrightarrow>
      safe_result 0 b1 n1 m1 k (log_n_properties_loop E (drop (Suc i) ps) c (Suc depth) 0 0 0 b1 n1 m1)"
    and rest: "\<And>r1 b1 n1 m1. progress result buf n m r1 b1 n1 m1 \<Longrightarrow>
      safe_result r1 b1 n1 m1 endi (log_n_properties_loop E ps cnt depth (Suc (i + k)) (Suc added) r1 b1 n1 m1)"
  shows "safe_result result buf n m endi (log_n_properties_loop E ps cnt depth i added result buf n m)"
proof (cases rule: snprintf_cases [OF ok, of E "'' %s%s{''"
      "[AStr (name pr), AStr (if name pr = [] then '''' else ''='')]" endi i, case_names fails writes])
  case (fails z m1)
  with run pr show ?thesis by (simp add: log_n_properties_loop.simps [of E ps cnt depth i])
next
  case (writes z m1 r1 b1 n1)
  note p = \<open>progress result buf n m r1 b1 n1 m1\<close>
  note ok1 = progress_safe [OF ok p]
  have "\<forall>a\<in>A. m1 a = m a" by (rule progress_agree [OF p ok]) simp
  then have vm: "m1 (value_ptr pr) = Some (char_of c)" "c mod 256 = c" using v by simp_all
  note unf = log_n_properties_loop.simps [of E ps cnt depth i] run pr writes(1-3) vm
  from nested [OF p] obtain z1 j m2 where
    ne: "log_n_properties_loop E (drop (Suc i) ps) c (Suc depth) 0 0 0 b1 n1 m1 = Some (z1, j, [], m2)"
    and j: "0 \<le> z1 \<longrightarrow> j = k" and m2: "unchanged m1 m2 b1 n1" "keeps_accessible m1 m2"
    by (auto simp: safe_result_def)
  show ?thesis
  proof (cases rule: write_cases [OF ok1 refl m2, of z1 endi i, case_names fails writes])
    case fails
    from safe_result_step [OF p fails(3)] fails(2) show ?thesis by (simp add: unf ne)
  next
    case (writes r2 b2 n2)
    have j: "j = k" using j writes(2) by simp
    note p2 = progress_trans [OF p writes(4)]
    note ok2 = progress_safe [OF ok p2]
    note unf2 = unf ne writes(2,3) j
    show ?thesis
    proof (cases rule: snprintf_cases [OF ok2, of E "'' }''" "[]" endi "i + k", case_names fails writes])
      case fails
      from safe_result_step [OF p2 fails(3)] fails(1,2) show ?thesis by (simp add: unf2)
    next
      case (writes z2 m3 r3 b3 n3)
      note p3 = progress_trans [OF p2 writes(4)]
      from safe_result_step [OF p3 rest [OF p3]] writes(1-3) show ?thesis by (simp add: unf2)
    qed
  qed
qed

theorem loop_safe:
  assumes "layout m A k qs" and "\<forall>a\<in>A. m' a = m a" "safe_buffer A result buf n m'"
    and "drop i ps = qs @ suf" "cnt = (if depth = 0 then i + length qs else added + k)"
  shows "safe_result result buf n m' (i + length qs)
           (log_n_properties_loop E ps cnt depth i added result buf n m')"
  using assms
proof (induction arbitrary: m' result buf n i ps suf cnt depth added rule: layout.induct)
  case empty
  then show ?case
    by (subst loop_end) (auto simp: loop_condition_def safe_result_def safe_buffer_def)
next
  case (field pr bs k qs)
  have rp: "read_pair ps i = Some pr" using field.prems(3) by (intro read_pair_drop) simp
  have run: "loop_condition depth i added cnt" using field.prems(4) by (auto simp: loop_condition_def)
  have b: "bytes_at m' (value_ptr pr) bs"
    by (rule bytes_at_cong [OF field.hyps(3)]) (use field.hyps(4) field.prems(1) in auto)
  show ?case
  proof (rule field_safe [OF field.prems(2) run rp field.hyps(1,2) b field.hyps(4)])
    fix r1 b1 n1 m1 assume p: "progress result buf n m' r1 b1 n1 m1"
    have k: "i + length (Some pr # qs) = Suc i + length qs" by simp
    show "safe_result r1 b1 n1 m1 (i + length (Some pr # qs))
        (log_n_properties_loop E ps cnt depth (Suc i) (Suc added) r1 b1 n1 m1)"
      unfolding k
      by (rule field.IH [OF progress_agree [OF p field.prems(2,1)] progress_safe [OF field.prems(2) p]])
        (use field.prems in \<open>auto simp: drop_Suc tl_drop [symmetric]\<close>)
  qed
next
  case (struct pr c qs k us)
  have rp: "read_pair ps i = Some pr" using struct.prems(3) by (intro read_pair_drop) simp
  have run: "loop_condition depth i added cnt" using struct.prems(4) by (auto simp: loop_condition_def)
  have v: "m' (value_ptr pr) = Some (char_of c)" using struct.hyps struct.prems(1) by simp
  have dr: "drop (Suc i) ps = qs @ us @ suf" using struct.prems(3) by (simp add: drop_Suc tl_drop [symmetric])
  show ?case
  proof (rule struct_safe [OF struct.prems(2) run rp struct.hyps(1) v struct.hyps(3,4)])
    fix r1 b1 n1 m1 assume p: "progress result buf n m' r1 b1 n1 m1"
    note agree = progress_agree [OF p struct.prems(2,1)] and ok = progress_safe [OF struct.prems(2) p]
    have ok0: "safe_buffer A 0 b1 n1 m1" using ok by (simp add: safe_buffer_def)
    have "safe_result 0 b1 n1 m1 (0 + length qs)
        (log_n_properties_loop E (drop (Suc i) ps) c (Suc depth) 0 0 0 b1 n1 m1)"
      by (rule struct.IH(1) [OF agree ok0]) (simp_all add: dr)
    then show "safe_result 0 b1 n1 m1 (length qs)
        (log_n_properties_loop E (drop (Suc i) ps) c (Suc depth) 0 0 0 b1 n1 m1)" by simp
    have k: "i + length (Some pr # qs @ us) = Suc (i + length qs) + length us" by simp
    have "drop (Suc (i + length qs)) ps = us @ suf"
      using arg_cong [OF dr, of "drop (length qs)"] by (simp add: add.commute)
    then show "safe_result r1 b1 n1 m1 (i + length (Some pr # qs @ us))
        (log_n_properties_loop E ps cnt depth (Suc (i + length qs)) (Suc added) r1 b1 n1 m1)"
      unfolding k by (intro struct.IH(2) [OF agree ok]) (use struct.prems in auto)
  qed
qed

section \<open>Properties\<close>

text \<open>
  C3: Given a buffer of at least one and at most \<open>INT_MAX\<close> bytes that does not overlap the
  values, and an array whose first entries represent a forest, \<open>log_context_property_to_string\<close> stores exactly
  what \<open>snprintf\<close> of the forest's rendering would (all of it when it fits, else the first
  \<open>buffer_size - 1\<close> characters, always terminated), changes nothing else, and returns the
  number of characters of the rendering, capped by the size of the buffer.
\<close>
theorem to_string_renders:
  assumes "conforming E" "represents m A ts ps" "ps \<noteq> []"
    and "buffer \<noteq> NULL" "0 < buffer_size" "int buffer_size \<le> INT_MAX"
    and "accessible m buffer buffer_size" "A \<inter> {buffer..<buffer + buffer_size} = {}"
  shows "log_context_property_to_string E buffer buffer_size (Some (ps @ rest)) (length ps) m =
         Some (int (min (length (render ts)) buffer_size), [], put_cstr m buffer buffer_size (render ts))"
proof -
  have ok: "buffer_ok A 0 buffer buffer_size m" using assms by (simp add: buffer_ok_def)
  have ne: "ts \<noteq> []" using assms(2,3) by (auto elim: represents.cases)
  have "log_n_properties_loop E (ps @ rest) (length ps) 0 0 0 0 buffer buffer_size m =
      Some (0 + int (advance buffer_size (render ts)), 0 + length ps, [], after_fields ts m buffer buffer_size)"
    by (rule loop_renders [OF assms(2,1) _ ok]) auto
  with assms ne show ?thesis
    by (simp add: log_context_property_to_string_def log_n_properties_def after_fields_def advance_def)
qed

definition demo_mem :: mem where
  "demo_mem = put_bytes (put_bytes (\<lambda>_. None) 100
     (encode_basic int32_t (- 5) @ ''hi'' @ [NUL, char_of (2::nat)])) 200 (replicate 64 NUL)"

definition demo_pairs :: "pairs" where
  "demo_pairs =
     [Some \<lparr>name = ''ctx'', value_ptr = 107, type_if = struct_log_context_property_type std_env\<rparr>,
      Some \<lparr>name = ''a'', value_ptr = 100, type_if = basic_log_context_property_type std_env int32_t\<rparr>,
      Some \<lparr>name = ''s'', value_ptr = 104, type_if = ascii_char_ptr_log_context_property_type std_env\<rparr>]"

definition demo_tree :: "ptree list" where
  "demo_tree = [Struct ''ctx'' [Field ''a'' (show_int (- 5)), Field ''s'' ''hi'']]"

lemma demo_values:
  "bytes_at demo_mem 100 (encode_basic int32_t (- 5))" "bytes_at demo_mem 104 (''hi'' @ [NUL])"
  "demo_mem 107 = Some (char_of (2::nat))" "accessible demo_mem 200 64"
  by (simp_all add: demo_mem_def encode_basic_def bytes_at_iff accessible_iff put_bytes_def
      All_less_Suc2 nth_append)

lemma render_demo: "render demo_tree = '' ctx={ a=-5 s=hi }''"
  by code_simp

lemma demo_represents: "represents demo_mem {100..<108} demo_tree demo_pairs"
proof -
  let ?S = "\<lparr>name = ''ctx'', value_ptr = 107, type_if = struct_log_context_property_type std_env\<rparr>"
  let ?I = "\<lparr>name = ''a'', value_ptr = 100, type_if = basic_log_context_property_type std_env int32_t\<rparr>"
  let ?T = "\<lparr>name = ''s'', value_ptr = 104, type_if = ascii_char_ptr_log_context_property_type std_env\<rparr>"
  have t: "represents demo_mem {100..<108} (Field (name ?T) ''hi'' # []) (Some ?T # [])"
    using demo_values(2) std.ascii.prints_stored [of "''hi''" 104]
    by (intro represents.field [where bs = "''hi'' @ [NUL]"] represents.empty)
      (simp_all add: valid_string_def INT_MAX_def)
  have i: "represents demo_mem {100..<108} (Field (name ?I) (show_int (- 5)) # [Field (name ?T) ''hi''])
      (Some ?I # [Some ?T])"
    using demo_values(1) std.basic.prints_stored [of int32_t "- 5" 100]
    by (intro represents.field [where bs = "encode_basic int32_t (- 5)", OF _ _ _ _ _ t])
      (simp_all add: in_basic_def INT_MAX_def)
  have "represents demo_mem {100..<108}
      (Struct (name ?S) (Field (name ?I) (show_int (- 5)) # [Field (name ?T) ''hi'']) # [])
      (Some ?S # [Some ?I, Some ?T] @ [])"
    by (rule represents.struct [OF _ _ _ _ _ i represents.empty])
      (simp_all add: INT_MAX_def demo_values(3))
  then show ?thesis by (simp add: demo_tree_def demo_pairs_def)
qed

lemma length_demo_pairs: "length demo_pairs = 3"
  by (simp add: demo_pairs_def)

theorem to_string_renders_witness:
  "log_context_property_to_string std_env 200 64 (Some demo_pairs) 3 demo_mem =
   Some (18, [], put_cstr demo_mem 200 64 '' ctx={ a=-5 s=hi }'')"
proof -
  have "demo_pairs \<noteq> []" using length_demo_pairs by auto
  with length_demo_pairs to_string_renders [OF conforming_std_env demo_represents, of 200 64 "[]"] demo_values(4) show ?thesis
    by (simp add: INT_MAX_def render_demo)
qed

text \<open>
  C12: Whatever the library's formatting does (encoding errors included) and whatever the
  size of the buffer, up to \<open>INT_MAX\<close>, printing an array laid out as trees of safe values
  terminates without undefined behaviour, writes nothing outside the buffer, prints nothing
  to the output, and returns
  \<open>-1\<close> or a number of bytes that is not larger than the buffer.
\<close>
theorem to_string_memory_safe:
  assumes "layout m A k ps" "buffer \<noteq> NULL" "int buffer_size \<le> INT_MAX"
    and "accessible m buffer buffer_size" "A \<inter> {buffer..<buffer + buffer_size} = {}"
  shows "\<exists>r m'. log_context_property_to_string E buffer buffer_size (Some (ps @ rest)) (length ps) m = Some (r, [], m') \<and>
           - 1 \<le> r \<and> r \<le> int buffer_size \<and> unchanged m m' buffer buffer_size \<and> keeps_accessible m m'"
proof -
  have ok: "safe_buffer A 0 buffer buffer_size m" using assms by (simp add: safe_buffer_def)
  have "safe_result 0 buffer buffer_size m (0 + length ps)
      (log_n_properties_loop E (ps @ rest) (length ps) 0 0 0 0 buffer buffer_size m)"
    by (rule loop_safe [OF assms(1) _ ok]) auto
  then show ?thesis
    by (auto simp: log_context_property_to_string_def log_n_properties_def safe_result_def)
qed


lemma demo_layout: "layout demo_mem {100..<108} 1 demo_pairs"
proof -
  let ?S = "\<lparr>name = ''ctx'', value_ptr = 107, type_if = struct_log_context_property_type std_env\<rparr>"
  let ?I = "\<lparr>name = ''a'', value_ptr = 100, type_if = basic_log_context_property_type std_env int32_t\<rparr>"
  let ?T = "\<lparr>name = ''s'', value_ptr = 104, type_if = ascii_char_ptr_log_context_property_type std_env\<rparr>"
  have t: "layout demo_mem {100..<108} 1 (Some ?T # [])" unfolding One_nat_def
    using demo_values(2) safe_ascii.safe_stored [of "''hi''" 104 std_env]
    by (intro layout.field [where bs = "''hi'' @ [NUL]"] layout.empty) simp_all
  have i: "layout demo_mem {100..<108} (Suc 1) (Some ?I # [Some ?T])"
    using demo_values(1) safe_basic.safe_stored [where v = "- 5" and p = 100 and E = std_env and t = int32_t]
    by (intro layout.field [where bs = "encode_basic int32_t (- 5)", OF _ _ _ _ t]) simp_all
  have "layout demo_mem {100..<108} (Suc 0) (Some ?S # [Some ?I, Some ?T] @ [])"
    by (rule layout.struct [OF _ _ _ _ i layout.empty]) (simp_all add: demo_values(3))
  then show ?thesis by (simp add: demo_pairs_def)
qed

theorem to_string_memory_safe_witness:
  "\<exists>r m'. log_context_property_to_string (std_env\<lparr>fmt := \<lambda>_ _. None\<rparr>) 200 64 (Some demo_pairs) 3 demo_mem = Some (r, [], m') \<and>
     - 1 \<le> r \<and> r \<le> 64 \<and> unchanged demo_mem m' 200 64 \<and> keeps_accessible demo_mem m'"
  using to_string_memory_safe [OF demo_layout, of 200 64 "std_env\<lparr>fmt := \<lambda>_ _. None\<rparr>" "[]"] demo_values(4)
  by (simp add: INT_MAX_def length_demo_pairs)

text \<open>
  C28: An encoding error while the name of a property that is not a struct is printed does
  not stop the printer: it sets the result to \<open>-1\<close> and goes on, so that the next property
  is printed in place of the failed one and the caller receives the number of bytes of the
  next property less one, which is not negative.
\<close>
theorem to_string_name_error_masked:
  assumes "fmt E '' %s='' [AStr (name p1)] = None"
    and "fmt E '' %s='' [AStr (name p2)] = Some ('' '' @ name p2 @ ''='')" "int (length (name p2)) + 3 \<le> INT_MAX"
    and "get_type (type_if p1) \<noteq> LOG_CONTEXT_PROPERTY_TYPE_struct"
      "get_type (type_if p2) \<noteq> LOG_CONTEXT_PROPERTY_TYPE_struct"
    and "prints (type_if p2) (value_ptr p2) bs s" "bytes_at m (value_ptr p2) bs"
    and "buffer \<noteq> NULL" "accessible m buffer n" "int n \<le> INT_MAX" "0 < n"
    and "disjoint_ranges buffer n (value_ptr p2) (length bs)"
  defines "t \<equiv> render_tree (Field (name p2) s)"
  shows "log_context_property_to_string E buffer n (Some [Some p1, Some p2]) 2 m =
         Some (int (min (length t) n) - 1, [], put_cstr m buffer n t)"
proof -
  define h where "h = '' '' @ name p2 @ ''=''"
  define r where "r = - 1 + int (advance n h)"
  let ?m1 = "put_cstr m buffer n h"
  have upd: "UPDATE_BUFFER_AND_SIZE (- 1) buffer n (int (length h)) = (r, buffer + advance n h, n - advance n h)"
    unfolding r_def by (rule UPDATE_text) (use assms(10) in auto)
  have sn: "snprintf E buffer n '' %s='' [AStr (name p2)] m = Some (int (length h), ?m1)"
    using assms(2,3,9) by (intro vsnprintf_ok) (simp_all add: h_def)
  have b1: "buffer_ok {} (int (advance n h)) (buffer + advance n h) (n - advance n h) ?m1"
    using buffer_ok_step [of "{}" 0 buffer n m h] assms(8-11) by (simp add: buffer_ok_def)
  have "bytes_at ?m1 (value_ptr p2) bs"
    by (rule bytes_at_cong [OF assms(7)], rule put_cstr_elsewhere)
      (use assms(12) in \<open>auto simp: disjoint_ranges_def\<close>)
  then have ts: "to_string (type_if p2) (value_ptr p2) (buffer + advance n h) (n - advance n h) ?m1 =
      Some (int (length s), [], put_cstr m buffer n t)"
    using printsD [OF assms(6)] b1 by (simp add: buffer_ok_def put_cstr_append t_def h_def)
  have t: "advance n t = advance n h + advance (n - advance n h) s"
    by (simp add: advance_append t_def h_def)
  have upd2: "UPDATE_BUFFER_AND_SIZE r (buffer + advance n h) (n - advance n h) (int (length s)) =
      (r + int (advance (n - advance n h) s), buffer + advance n h + advance (n - advance n h) s,
       n - advance n h - advance (n - advance n h) s)"
    by (rule UPDATE_text) (use assms(10) advance_le [of n h] in \<open>auto simp: r_def\<close>)
  have "r + int (advance (n - advance n h) s) = int (min (length t) n) - 1"
    using t by (simp add: r_def advance_def [of n t])
  then show ?thesis using assms(1,4,5,8,11)
    by (simp add: log_context_property_to_string_def log_n_properties_def log_n_properties_loop.simps
        loop_condition_def read_pair_def sn upd ts upd2 vsnprintf_def [of E buffer n _ "[AStr (name p1)]"])
qed


theorem to_string_name_error_masked_witness:
  "log_context_property_to_string (std_env\<lparr>fmt := \<lambda>f args. if args = [AStr ''bad''] then None else c_printf f args\<rparr>)
     200 64 (Some [Some \<lparr>name = ''bad'', value_ptr = 100, type_if = basic_log_context_property_type std_env int32_t\<rparr>,
                   Some \<lparr>name = ''a'', value_ptr = 100, type_if = basic_log_context_property_type std_env int32_t\<rparr>])
     2 demo_mem = Some (4, [], put_cstr demo_mem 200 64 '' a=-5'')"
proof -
  let ?E = "std_env\<lparr>fmt := \<lambda>f args. if args = [AStr ''bad''] then None else c_printf f args\<rparr>"
  let ?bad = "\<lparr>name = ''bad'', value_ptr = 100, type_if = basic_log_context_property_type std_env int32_t\<rparr>"
  let ?a = "\<lparr>name = ''a'', value_ptr = 100, type_if = basic_log_context_property_type std_env int32_t\<rparr>"
  have five: "show_int (- 5) = ''-5''" by code_simp
  have "prints (type_if ?a) (value_ptr ?a) (encode_basic int32_t (- 5)) ''-5''"
    using std.basic.prints_stored [of int32_t "- 5" 100] by (simp add: in_basic_def five)
  from to_string_name_error_masked [of ?E ?bad ?a, OF _ _ _ _ _ this, of demo_mem 200 64] demo_values(1,4)
  show ?thesis by (simp add: c_printf_field INT_MAX_def disjoint_ranges_def)
qed

end
