(* ===== verification/Log_Context.thy ===== *)
theory Log_Context
  imports Property_To_String
begin

text \<open>
  \<open>log_context.h\<close>, \<open>log_context.c\<close> and \<open>log_internal_error.c\<close>: contexts on the stack
  (\<open>LOG_CONTEXT_LOCAL_DEFINE\<close>) and on the heap (\<open>LOG_CONTEXT_CREATE\<close>), which hold one
  struct property with the parent's properties and the properties of the macro arguments.
  A context is a record whose array of pairs is a list (\<^term>\<open>None\<close> for an entry that is
  not initialised yet); the values live in the byte memory.  A handle is an \<open>option\<close>,
  \<^term>\<open>None\<close> for \<open>NULL\<close>.  The invariant is \<open>context_inv\<close>: the pairs are a tree in prefix
  order whose values all lie in the context's data block.
\<close>

section \<open>Contexts\<close>

definition LOG_MAX_STACK_DATA_SIZE :: nat where
  "LOG_MAX_STACK_DATA_SIZE = 4096"

definition LOG_MAX_STACK_PROPERTY_VALUE_PAIR_COUNT :: nat where
  "LOG_MAX_STACK_PROPERTY_VALUE_PAIR_COUNT = 64"

record LOG_CONTEXT =
  values_data :: addr
  values_data_length :: nat
  property_value_pairs_ptr :: pairs
  property_value_pair_count :: nat

type_synonym LOG_CONTEXT_HANDLE = "LOG_CONTEXT option"

text \<open>
  The ways a run can end without a result: undefined behaviour, or a call to \<open>abort\<close>, with what
  the run has printed before.
\<close>

datatype failure = Undefined | Aborted "stdout_call list"

fun printed_before :: "stdout_call list \<Rightarrow> failure \<Rightarrow> failure" where
  "printed_before out Undefined = Undefined"
| "printed_before out (Aborted out') = Aborted (out @ out')"

definition defined :: "'a option \<Rightarrow> failure + 'a" where
  "defined x = (case x of None \<Rightarrow> Inl Undefined | Some y \<Rightarrow> Inr y)"

definition log_context_get_property_value_pair_count :: "LOG_CONTEXT_HANDLE \<Rightarrow> nat" where
  "log_context_get_property_value_pair_count log_context =
     (case log_context of None \<Rightarrow> 0 | Some C \<Rightarrow> property_value_pair_count C)"

definition log_context_get_property_value_pairs :: "LOG_CONTEXT_HANDLE \<Rightarrow> pairs option" where
  "log_context_get_property_value_pairs log_context =
     (case log_context of None \<Rightarrow> None | Some C \<Rightarrow> Some (property_value_pairs_ptr C))"

definition internal_log_context_get_values_data_length_or_zero :: "LOG_CONTEXT_HANDLE \<Rightarrow> nat" where
  "internal_log_context_get_values_data_length_or_zero log_context =
     (case log_context of None \<Rightarrow> 0 | Some C \<Rightarrow> values_data_length C)"

text \<open>\<open>LOG_ABORT_ON_ERROR\<close> is the build option of that name.\<close>

definition log_internal_error_report :: "bool \<Rightarrow> failure + unit" where
  "log_internal_error_report LOG_ABORT_ON_ERROR = (if LOG_ABORT_ON_ERROR then Inl (Aborted []) else Inr ())"

definition write_pair :: "pairs \<Rightarrow> nat \<Rightarrow> LOG_CONTEXT_PROPERTY_VALUE_PAIR \<Rightarrow> pairs option" where
  "write_pair ps i pr = (if i < length ps then Some (ps[i := Some pr]) else None)"

text \<open>
  The loop of \<open>internal_log_context_init_from_parent\<close>: the index at which it ended, the
  destination's pairs, what was printed and the memory.
\<close>

function init_from_parent_loop ::
    "LOG_CONTEXT \<Rightarrow> LOG_CONTEXT \<Rightarrow> nat \<Rightarrow> pairs \<Rightarrow> mem \<Rightarrow> (nat \<times> pairs \<times> stdout_call list \<times> mem) option" where
  "init_from_parent_loop dest parent i ps m =
     (if i < property_value_pair_count parent then do {
        pr \<leftarrow> read_pair (property_value_pairs_ptr parent) i;
        let v = nat (int (values_data dest) + 1 + (int (value_ptr pr) - int (values_data parent)));
        ps' \<leftarrow> write_pair ps (i + 1) (pr\<lparr>value_ptr := v\<rparr>);
        (r, out, m') \<leftarrow> copy (type_if pr) v (value_ptr pr) m;
        if r \<noteq> 0 then
          Some (i, ps', out @ [Printf (''Error copying property value/pair %zu'' @ CRLF) [AInt (int i)]], m')
        else after_output out (init_from_parent_loop dest parent (i + 1) ps' m') }
      else Some (i, ps, [], m))"
  by pat_completeness auto
termination
  by (relation "measure (\<lambda>(dest, parent, i, _). property_value_pair_count parent - i)") auto

declare init_from_parent_loop.simps [simp del]

definition internal_log_context_init_from_parent ::
    "c_env \<Rightarrow> LOG_CONTEXT \<Rightarrow> LOG_CONTEXT_HANDLE \<Rightarrow> mem \<Rightarrow> (int \<times> LOG_CONTEXT \<times> stdout_call list \<times> mem) option" where
  "internal_log_context_init_from_parent E dest parent_log_context m =
     (case parent_log_context of
        None \<Rightarrow> Some (0, dest, [], m)
      | Some parent \<Rightarrow> do {
          (prop_copy_index, ps, out, m') \<leftarrow> init_from_parent_loop dest parent 0 (property_value_pairs_ptr dest) m;
          Some (if prop_copy_index < property_value_pair_count parent then MU_FAILURE E else 0,
                dest\<lparr>property_value_pairs_ptr := ps\<rparr>, out, m') })"

section \<open>Macro arguments\<close>

text \<open>
  The arguments a context is defined with.  The value of a \<open>LOG_CONTEXT_PROPERTY\<close> has one of
  the types the library provides an \<open>init\<close> for; the function of a
  \<open>LOG_CONTEXT_PROPERTY_CUSTOM_FUNCTION\<close> is the caller's: it is called with \<open>NULL\<close> for the
  size and with the position to store the value at.
\<close>

datatype field_value = Basic basic_type int | Bool bool

datatype field_desc =
    LOG_MESSAGE string "carg list"
  | LOG_CONTEXT_STRING_PROPERTY string string "carg list"
  | LOG_CONTEXT_WSTRING_PROPERTY string "nat list" "carg list"
  | LOG_CONTEXT_NAME string
  | LOG_CONTEXT_PROPERTY field_value string
  | LOG_CONTEXT_PROPERTY_CUSTOM_FUNCTION LOG_CONTEXT_PROPERTY_TYPE_IF string "addr \<Rightarrow> mem \<Rightarrow> (int \<times> mem) option"

text \<open>
  \<open>LOG_CONTEXT_CHECK_VARIABLE_ARGS\<close>: a declaration of one parameter per property, and of one
  per use of \<open>LOG_CONTEXT_NAME\<close>; the compiler rejects it when a name repeats.
\<close>

fun DEFINE_PROPERTY_AS_PARAMETER :: "field_desc \<Rightarrow> string list" where
  "DEFINE_PROPERTY_AS_PARAMETER (LOG_MESSAGE f args) = []"
| "DEFINE_PROPERTY_AS_PARAMETER (LOG_CONTEXT_STRING_PROPERTY nm f args) = [nm]"
| "DEFINE_PROPERTY_AS_PARAMETER (LOG_CONTEXT_WSTRING_PROPERTY nm f args) = [nm]"
| "DEFINE_PROPERTY_AS_PARAMETER (LOG_CONTEXT_NAME nm) = []"
| "DEFINE_PROPERTY_AS_PARAMETER (LOG_CONTEXT_PROPERTY v nm) = [nm]"
| "DEFINE_PROPERTY_AS_PARAMETER (LOG_CONTEXT_PROPERTY_CUSTOM_FUNCTION T nm vf) = [nm]"

fun DEFINE_CONTEXT_NAME_AS_PARAMETER :: "field_desc \<Rightarrow> string list" where
  "DEFINE_CONTEXT_NAME_AS_PARAMETER (LOG_CONTEXT_NAME nm) = [''log_context_is_used_multiple_times'']"
| "DEFINE_CONTEXT_NAME_AS_PARAMETER _ = []"

definition LOG_CONTEXT_CHECK_VARIABLE_ARGS :: "field_desc list \<Rightarrow> bool" where
  "LOG_CONTEXT_CHECK_VARIABLE_ARGS fds =
     (distinct (concat (map DEFINE_PROPERTY_AS_PARAMETER fds)) \<and>
      distinct (concat (map DEFINE_CONTEXT_NAME_AS_PARAMETER fds)))"

fun COUNT_PROPERTY :: "field_desc \<Rightarrow> nat" where
  "COUNT_PROPERTY (LOG_MESSAGE f args) = 0"
| "COUNT_PROPERTY (LOG_CONTEXT_STRING_PROPERTY nm f args) = 1"
| "COUNT_PROPERTY (LOG_CONTEXT_WSTRING_PROPERTY nm f args) = 1"
| "COUNT_PROPERTY (LOG_CONTEXT_NAME nm) = 0"
| "COUNT_PROPERTY (LOG_CONTEXT_PROPERTY v nm) = 1"
| "COUNT_PROPERTY (LOG_CONTEXT_PROPERTY_CUSTOM_FUNCTION T nm vf) = 1"

fun COUNT_DATA_BYTES :: "c_env \<Rightarrow> field_desc \<Rightarrow> mem \<Rightarrow> (int \<times> mem) option" where
  "COUNT_DATA_BYTES E (LOG_MESSAGE f args) m = Some (0, m)"
| "COUNT_DATA_BYTES E (LOG_CONTEXT_STRING_PROPERTY nm f args) m =
     ascii_char_ptr_log_context_property_type_get_init_data_size E f args m"
| "COUNT_DATA_BYTES E (LOG_CONTEXT_WSTRING_PROPERTY nm f args) m =
     Some (wchar_t_ptr_log_context_property_type_get_init_data_size E f args, m)"
| "COUNT_DATA_BYTES E (LOG_CONTEXT_NAME nm) m = Some (0, m)"
| "COUNT_DATA_BYTES E (LOG_CONTEXT_PROPERTY (Basic t z) nm) m =
     Some (basic_log_context_property_type_get_init_data_size t, m)"
| "COUNT_DATA_BYTES E (LOG_CONTEXT_PROPERTY (Bool b) nm) m =
     Some (bool_log_context_property_type_get_init_data_size, m)"
| "COUNT_DATA_BYTES E (LOG_CONTEXT_PROPERTY_CUSTOM_FUNCTION T nm vf) m = vf NULL m"

text \<open>The sum of the sizes, as the macro \<open>MU_FOR_EACH_1\<close> of the arguments adds them up.\<close>

fun count_data_bytes :: "c_env \<Rightarrow> field_desc list \<Rightarrow> mem \<Rightarrow> (int \<times> mem) option" where
  "count_data_bytes E [] m = Some (0, m)"
| "count_data_bytes E (fd # fds) m = do {
     (n, m1) \<leftarrow> COUNT_DATA_BYTES E fd m;
     (k, m2) \<leftarrow> count_data_bytes E fds m1;
     Some (n + k, m2) }"

text \<open>
  The state of the code a context is filled with: the destination's pairs, the index that
  \<open>property_value_pair\<close> points at, \<open>data_pos\<close>, what was printed and the memory.
\<close>

type_synonym setup_state = "pairs \<times> nat \<times> addr \<times> stdout_call list \<times> mem"

fun SETUP_PROPERTY_PAIR :: "c_env \<Rightarrow> field_desc \<Rightarrow> setup_state \<Rightarrow> setup_state option" where
  "SETUP_PROPERTY_PAIR E (LOG_MESSAGE f args) st = Some st"
| "SETUP_PROPERTY_PAIR E (LOG_CONTEXT_STRING_PROPERTY nm f args) (ps, i, data_pos, out, m) = do {
     ps' \<leftarrow> write_pair ps i \<lparr>name = nm, value_ptr = data_pos, type_if = ascii_char_ptr_log_context_property_type E\<rparr>;
     (n, m') \<leftarrow> vsprintf E data_pos f args m;
     Some (ps', i + 1, nat (int data_pos + n + 1), out, m') }"
| "SETUP_PROPERTY_PAIR E (LOG_CONTEXT_WSTRING_PROPERTY nm f args) (ps, i, data_pos, out, m) = do {
     ps' \<leftarrow> write_pair ps i \<lparr>name = nm, value_ptr = data_pos, type_if = wchar_t_ptr_log_context_property_type E\<rparr>;
     (n, m') \<leftarrow> vswprintf E data_pos LOG_MAX_WCHAR_STRING_LENGTH f args m;
     Some (ps', i + 1, data_pos + to_size_t (n * int (sizeof_wchar_t E) + int (sizeof_wchar_t E)), out, m') }"
| "SETUP_PROPERTY_PAIR E (LOG_CONTEXT_NAME nm) (ps, i, data_pos, out, m) = do {
     first \<leftarrow> read_pair ps 0;
     ps' \<leftarrow> write_pair ps 0 (first\<lparr>name := nm\<rparr>);
     Some (ps', i, data_pos, out, m) }"
| "SETUP_PROPERTY_PAIR E (LOG_CONTEXT_PROPERTY (Basic t z) nm) (ps, i, data_pos, out, m) = do {
     ps' \<leftarrow> write_pair ps i \<lparr>name = nm, value_ptr = data_pos, type_if = basic_log_context_property_type E t\<rparr>;
     (_, out', m') \<leftarrow> basic_log_context_property_type_init E t data_pos z m;
     Some (ps', i + 1, data_pos + sizeof_basic t, out @ out', m') }"
| "SETUP_PROPERTY_PAIR E (LOG_CONTEXT_PROPERTY (Bool b) nm) (ps, i, data_pos, out, m) = do {
     ps' \<leftarrow> write_pair ps i \<lparr>name = nm, value_ptr = data_pos, type_if = bool_log_context_property_type E\<rparr>;
     (_, out', m') \<leftarrow> bool_log_context_property_type_init E data_pos b m;
     Some (ps', i + 1, data_pos + 1, out @ out', m') }"
| "SETUP_PROPERTY_PAIR E (LOG_CONTEXT_PROPERTY_CUSTOM_FUNCTION T nm vf) (ps, i, data_pos, out, m) = do {
     ps' \<leftarrow> write_pair ps i \<lparr>name = nm, value_ptr = data_pos, type_if = T\<rparr>;
     (n, m') \<leftarrow> vf data_pos m;
     Some (ps', i + 1, nat (int data_pos + n), out, m') }"

fun setup_property_pairs :: "c_env \<Rightarrow> field_desc list \<Rightarrow> setup_state \<Rightarrow> setup_state option" where
  "setup_property_pairs E [] st = Some st"
| "setup_property_pairs E (fd # fds) st = do { st' \<leftarrow> SETUP_PROPERTY_PAIR E fd st; setup_property_pairs E fds st' }"

section \<open>Defining and creating a context\<close>

definition count_properties :: "field_desc list \<Rightarrow> nat" where
  "count_properties fds = sum_list (map COUNT_PROPERTY fds)"

text \<open>
  The part both macros share, after the parent's pairs have been copied: the struct entry
  and the entries of the arguments.
\<close>

definition fill_context :: "c_env \<Rightarrow> LOG_CONTEXT \<Rightarrow> LOG_CONTEXT_HANDLE \<Rightarrow> field_desc list \<Rightarrow> mem \<Rightarrow>
    (LOG_CONTEXT \<times> stdout_call list \<times> mem) option" where
  "fill_context E dest parent fds m = do {
     m1 \<leftarrow> store_bytes m (values_data dest)
        [char_of (to_uint8 (int ((if parent \<noteq> None then 1 else 0) + count_properties fds)))];
     ps1 \<leftarrow> write_pair (property_value_pairs_ptr dest) 0
        \<lparr>name = '''', value_ptr = values_data dest, type_if = struct_log_context_property_type E\<rparr>;
     (ps, _, _, out, m2) \<leftarrow> setup_property_pairs E fds
        (ps1, log_context_get_property_value_pair_count parent + 1,
         values_data dest + 1 + internal_log_context_get_values_data_length_or_zero parent, [], m1);
     Some (dest\<lparr>property_value_pairs_ptr := ps\<rparr>, out, m2) }"

definition context_count :: "LOG_CONTEXT_HANDLE \<Rightarrow> field_desc list \<Rightarrow> nat" where
  "context_count parent fds =
     to_uint32 (int (log_context_get_property_value_pair_count parent) + 1 + int (count_properties fds))"

text \<open>
  \<open>LOG_CONTEXT_LOCAL_DEFINE\<close>, with the address of the array \<open>values_log_data_\<close> on the
  stack: the context, what was printed, and the memory.
\<close>

definition LOG_CONTEXT_LOCAL_DEFINE ::
    "c_env \<Rightarrow> bool \<Rightarrow> addr \<Rightarrow> LOG_CONTEXT_HANDLE \<Rightarrow> field_desc list \<Rightarrow> mem \<Rightarrow>
     failure + (LOG_CONTEXT \<times> stdout_call list \<times> mem)" where
  "LOG_CONTEXT_LOCAL_DEFINE E LOG_ABORT_ON_ERROR values_log_data parent fds m =
     (case count_data_bytes E fds m of
        None \<Rightarrow> Inl Undefined
      | Some (n, m1) \<Rightarrow>
          let dest = \<lparr>values_data = values_log_data,
                      values_data_length =
                        to_uint32 (int (internal_log_context_get_values_data_length_or_zero parent) + 1 + n),
                      property_value_pairs_ptr = replicate LOG_MAX_STACK_PROPERTY_VALUE_PAIR_COUNT None,
                      property_value_pair_count = context_count parent fds\<rparr>;
              empty = dest\<lparr>property_value_pair_count := 0, values_data_length := 0\<rparr>
          in
          if LOG_MAX_STACK_PROPERTY_VALUE_PAIR_COUNT < property_value_pair_count dest then
            let out = [Printf (''Too many properties: property_value_pair_count = %u'' @ CRLF)
                         [AInt (int (property_value_pair_count dest))]]
            in (case log_internal_error_report LOG_ABORT_ON_ERROR of
                  Inl e \<Rightarrow> Inl (printed_before out e)
                | Inr _ \<Rightarrow> Inr (empty, out, m1))
          else if LOG_MAX_STACK_DATA_SIZE < values_data_length dest then
            let out = [Printf (''Data length too big: values_data_length = %u'' @ CRLF)
                         [AInt (int (values_data_length dest))]]
            in (case log_internal_error_report LOG_ABORT_ON_ERROR of
                  Inl e \<Rightarrow> Inl (printed_before out e)
                | Inr _ \<Rightarrow> Inr (empty, out, m1))
          else defined (do {
            (_, dest1, out1, m2) \<leftarrow> internal_log_context_init_from_parent E dest parent m1;
            (dest2, out2, m3) \<leftarrow> fill_context E dest1 parent fds m2;
            Some (dest2, out1 @ out2, m3) }))"

text \<open>
  On the heap the header, the array of pairs and the data are one block; the sizes of the
  two structs are those of a platform with 64-bit pointers.  \<open>malloc\<close> is a parameter and
  gives the address of the block (or \<open>NULL\<close>) and the memory afterwards.
\<close>

definition sizeof_LOG_CONTEXT :: nat where
  "sizeof_LOG_CONTEXT = 32"

definition sizeof_LOG_CONTEXT_PROPERTY_VALUE_PAIR :: nat where
  "sizeof_LOG_CONTEXT_PROPERTY_VALUE_PAIR = 24"

definition context_block_size :: "nat \<Rightarrow> nat \<Rightarrow> nat" where
  "context_block_size properties_count data_size =
     sizeof_LOG_CONTEXT + sizeof_LOG_CONTEXT_PROPERTY_VALUE_PAIR * properties_count + data_size"

definition create_failed :: "nat \<Rightarrow> nat \<Rightarrow> stdout_call" where
  "create_failed properties_count data_size =
     Printf (''malloc(sizeof(LOG_CONTEXT)) failed, properties_count=%u, data_size=%u'' @ CRLF)
       [AInt (int properties_count), AInt (int data_size)]"

definition log_context_create ::
    "c_env \<Rightarrow> (nat \<Rightarrow> mem \<Rightarrow> addr \<times> mem) \<Rightarrow> LOG_CONTEXT_HANDLE \<Rightarrow> nat \<Rightarrow> nat \<Rightarrow> mem \<Rightarrow>
     ((addr \<times> LOG_CONTEXT) option \<times> stdout_call list \<times> mem) option" where
  "log_context_create E malloc parent_context properties_count data_size m =
     (case malloc (context_block_size properties_count data_size) m of
        (p, m1) \<Rightarrow>
          if p = NULL then Some (None, [create_failed properties_count data_size], m1)
          else do {
            (_, C, out, m2) \<leftarrow> internal_log_context_init_from_parent E
               \<lparr>values_data = p + sizeof_LOG_CONTEXT + sizeof_LOG_CONTEXT_PROPERTY_VALUE_PAIR * properties_count,
                values_data_length = data_size,
                property_value_pairs_ptr = replicate properties_count None,
                property_value_pair_count = properties_count\<rparr> parent_context m1;
            Some (Some (p, C), out, m2) })"

definition log_context_destroy :: "(addr \<Rightarrow> mem \<Rightarrow> mem) \<Rightarrow> (addr \<times> LOG_CONTEXT) option \<Rightarrow> mem \<Rightarrow> mem" where
  "log_context_destroy dealloc log_context m =
     (case log_context of None \<Rightarrow> dealloc NULL m | Some (p, _) \<Rightarrow> dealloc p m)"

definition LOG_CONTEXT_DESTROY :: "(addr \<Rightarrow> mem \<Rightarrow> mem) \<Rightarrow> (addr \<times> LOG_CONTEXT) option \<Rightarrow> mem \<Rightarrow> mem" where
  "LOG_CONTEXT_DESTROY dealloc log_context_handle = log_context_destroy dealloc log_context_handle"

definition LOG_CONTEXT_CREATE ::
    "c_env \<Rightarrow> (nat \<Rightarrow> mem \<Rightarrow> addr \<times> mem) \<Rightarrow> LOG_CONTEXT_HANDLE \<Rightarrow> field_desc list \<Rightarrow> mem \<Rightarrow>
     ((addr \<times> LOG_CONTEXT) option \<times> stdout_call list \<times> mem) option" where
  "LOG_CONTEXT_CREATE E malloc parent_context fds m = do {
     (n, m1) \<leftarrow> count_data_bytes E fds m;
     (h, out, m2) \<leftarrow> log_context_create E malloc parent_context (context_count parent_context fds)
        (to_uint32 (int (internal_log_context_get_values_data_length_or_zero parent_context) + 1 + n)) m1;
     (case h of
        None \<Rightarrow> Some (None, out, m2)
      | Some (p, C) \<Rightarrow> do {
          (C', out', m3) \<leftarrow> fill_context E C parent_context fds m2;
          Some (Some (p, C'), out @ out', m3) }) }"

section \<open>What a context stores\<close>

text \<open>
  An item is what one entry of a context holds: its name, its type and the bytes of its
  value.  \<open>shape P ts xs\<close>: the items \<open>xs\<close> are the forest \<open>ts\<close> in prefix order, where
  \<open>P T bs s\<close> says how a value with the bytes \<open>bs\<close> prints; \<open>stored m lo hi ps xs\<close>: the pairs
  \<open>ps\<close> point at the bytes of the items, between \<open>lo\<close> and \<open>hi\<close>.
\<close>

type_synonym item = "string \<times> LOG_CONTEXT_PROPERTY_TYPE_IF \<times> char list"
type_synonym print_law = "LOG_CONTEXT_PROPERTY_TYPE_IF \<Rightarrow> char list \<Rightarrow> string \<Rightarrow> bool"

inductive shape :: "print_law \<Rightarrow> ptree list \<Rightarrow> item list \<Rightarrow> bool" for P where
  empty: "shape P [] []"
| field: "shape P (Field nm s # ts) ((nm, T, bs) # xs)"
    if "get_type T \<noteq> LOG_CONTEXT_PROPERTY_TYPE_struct" "P T bs s" "copies T bs"
      "int (length nm) + 3 \<le> INT_MAX" "shape P ts xs"
| struct: "shape P (Struct nm fs # ts) ((nm, T, [char_of (length fs)]) # ys @ xs)"
    if "get_type T = LOG_CONTEXT_PROPERTY_TYPE_struct" "copies T [char_of (length fs)]" "length fs < 256"
      "int (length nm) + 3 \<le> INT_MAX" "shape P fs ys" "shape P ts xs"

definition stored1 :: "mem \<Rightarrow> addr \<Rightarrow> addr \<Rightarrow> LOG_CONTEXT_PROPERTY_VALUE_PAIR option \<Rightarrow> item \<Rightarrow> bool" where
  "stored1 m lo hi p x =
     (case x of (nm, T, bs) \<Rightarrow>
        (case p of None \<Rightarrow> False
         | Some pr \<Rightarrow> name pr = nm \<and> type_if pr = T \<and> bytes_at m (value_ptr pr) bs \<and>
                     lo \<le> value_ptr pr \<and> value_ptr pr + length bs \<le> hi))"

definition stored :: "mem \<Rightarrow> addr \<Rightarrow> addr \<Rightarrow> pairs \<Rightarrow> item list \<Rightarrow> bool" where
  "stored m lo hi = list_all2 (stored1 m lo hi)"

definition prints_anywhere :: print_law where
  "prints_anywhere T bs s = (\<forall>p. p \<noteq> NULL \<longrightarrow> prints T p bs s)"

definition safe_anywhere :: print_law where
  "safe_anywhere T bs s = (\<forall>p. p \<noteq> NULL \<longrightarrow> safe_value T p bs)"

lemma stored_simps [simp]:
  "stored m lo hi [] []"
  "stored m lo hi (p # ps) (x # xs) \<longleftrightarrow> stored1 m lo hi p x \<and> stored m lo hi ps xs"
  "stored m lo hi [] (x # xs) = False" "stored m lo hi (p # ps) [] = False"
  by (simp_all add: stored_def)

lemma stored_length: "stored m lo hi ps xs \<Longrightarrow> length ps = length xs"
  by (simp add: stored_def list_all2_lengthD)

lemma stored_append:
  "length ps = length xs \<Longrightarrow> stored m lo hi (ps @ qs) (xs @ ys) \<longleftrightarrow> stored m lo hi ps xs \<and> stored m lo hi qs ys"
  by (simp add: stored_def list_all2_append)

lemma stored_split: "stored m lo hi ps (xs @ ys) \<Longrightarrow> \<exists>us vs. ps = us @ vs \<and> stored m lo hi us xs \<and> stored m lo hi vs ys"
  unfolding stored_def by (metis list_all2_append2)

lemma stored1_cong: "stored1 m lo hi p x \<Longrightarrow> \<forall>a\<in>{lo..<hi}. m' a = m a \<Longrightarrow> stored1 m' lo hi p x"
proof -
  assume s: "stored1 m lo hi p x" and a: "\<forall>a\<in>{lo..<hi}. m' a = m a"
  obtain nm T bs where x: "x = (nm, T, bs)" by (cases x)
  from s obtain pr where p: "p = Some pr" "bytes_at m (value_ptr pr) bs"
    "lo \<le> value_ptr pr" "value_ptr pr + length bs \<le> hi" by (auto simp: stored1_def x split: option.splits)
  have "bytes_at m' (value_ptr pr) bs"
    by (rule bytes_at_cong [OF p(2)]) (use a p(3,4) in auto)
  with s p(1) show ?thesis by (simp add: stored1_def x)
qed

lemma stored_cong: "stored m lo hi ps xs \<Longrightarrow> \<forall>a\<in>{lo..<hi}. m' a = m a \<Longrightarrow> stored m' lo hi ps xs"
  unfolding stored_def by (erule list_all2_mono) (rule stored1_cong)

lemma stored_mono: "stored m lo hi ps xs \<Longrightarrow> lo' \<le> lo \<Longrightarrow> hi \<le> hi' \<Longrightarrow> stored m lo' hi' ps xs"
  unfolding stored_def by (erule list_all2_mono) (auto simp: stored1_def split: prod.splits option.splits)

lemma shape_represents: "shape prints_anywhere ts xs \<Longrightarrow> stored m lo hi ps xs \<Longrightarrow> 0 < lo \<Longrightarrow> represents m {lo..<hi} ts ps"
proof (induction arbitrary: ps rule: shape.induct)
  case empty
  then show ?case by (cases ps) (auto intro: represents.empty)
next
  case (field T bs s nm ts xs)
  then obtain pr qs where "ps = Some pr # qs" "stored1 m lo hi (Some pr) (nm, T, bs)" "stored m lo hi qs xs"
    by (cases ps) (auto simp: stored1_def split: option.splits)
  with field show ?case
    by (auto simp: stored1_def prints_anywhere_def intro!: represents.field)
next
  case (struct T fs nm ys ts xs)
  then obtain pr qs where p: "ps = Some pr # qs" "stored1 m lo hi (Some pr) (nm, T, [char_of (length fs)])"
    "stored m lo hi qs (ys @ xs)"
    by (cases ps) (auto simp: stored1_def split: option.splits)
  from stored_split [OF p(3)] obtain us vs where q: "qs = us @ vs" "stored m lo hi us ys" "stored m lo hi vs xs" by blast
  from p(2) have "name pr = nm" "m (value_ptr pr) = Some (char_of (length fs))" "value_ptr pr \<in> {lo..<hi}" "type_if pr = T"
    by (auto simp: stored1_def)
  with struct p q show ?case by (auto intro!: represents.struct)
qed

lemma shape_layout: "shape safe_anywhere ts xs \<Longrightarrow> stored m lo hi ps xs \<Longrightarrow> 0 < lo \<Longrightarrow> layout m {lo..<hi} (length ts) ps"
proof (induction arbitrary: ps rule: shape.induct)
  case empty
  then show ?case by (cases ps) (auto intro: layout.empty)
next
  case (field T bs s nm ts xs)
  then obtain pr qs where "ps = Some pr # qs" "stored1 m lo hi (Some pr) (nm, T, bs)" "stored m lo hi qs xs"
    by (cases ps) (auto simp: stored1_def split: option.splits)
  with field show ?case
    by (auto simp: stored1_def safe_anywhere_def intro!: layout.field)
next
  case (struct T fs nm ys ts xs)
  then obtain pr qs where p: "ps = Some pr # qs" "stored1 m lo hi (Some pr) (nm, T, [char_of (length fs)])"
    "stored m lo hi qs (ys @ xs)"
    by (cases ps) (auto simp: stored1_def split: option.splits)
  from stored_split [OF p(3)] obtain us vs where q: "qs = us @ vs" "stored m lo hi us ys" "stored m lo hi vs xs" by blast
  from p(2) have "m (value_ptr pr) = Some (char_of (length fs))" "value_ptr pr \<in> {lo..<hi}" "type_if pr = T"
    by (auto simp: stored1_def)
  with struct p q show ?case by (auto intro!: layout.struct)
qed

lemma shape_copies: "shape P ts xs \<Longrightarrow> (nm, T, bs) \<in> set xs \<Longrightarrow> copies T bs"
  by (induction rule: shape.induct) auto

lemma shape_append: "shape P ts xs \<Longrightarrow> shape P us ys \<Longrightarrow> shape P (ts @ us) (xs @ ys)"
  by (induction rule: shape.induct) (auto intro: shape.intros)

section \<open>Placing the items of the arguments\<close>

text \<open>
  The contract of a custom value function: without a buffer it returns how many bytes it
  needs, with a buffer of that size it returns the same number, stores the bytes of the value
  at the beginning of the buffer and writes nothing else.
\<close>

definition value_writes :: "(addr \<Rightarrow> mem \<Rightarrow> (int \<times> mem) option) \<Rightarrow> nat \<Rightarrow> char list \<Rightarrow> bool" where
  "value_writes vf n bs \<longleftrightarrow> length bs \<le> n \<and>
     (\<forall>m. vf NULL m = Some (int n, m)) \<and>
     (\<forall>m p. p \<noteq> NULL \<and> accessible m p n \<longrightarrow>
        (\<exists>m'. vf p m = Some (int n, m') \<and> bytes_at m' p bs \<and> unchanged m m' p n \<and> keeps_accessible m m'))"

text \<open>
  \<open>argument E fd n xs\<close>: the items of one macro argument, none for a message or a name, and the
  number of bytes that are reserved for them.
\<close>

inductive argument :: "c_env \<Rightarrow> field_desc \<Rightarrow> nat \<Rightarrow> item list \<Rightarrow> bool" for E where
  message: "argument E (LOG_MESSAGE f args) 0 []"
| context_name: "argument E (LOG_CONTEXT_NAME nm) 0 []"
| string: "argument E (LOG_CONTEXT_STRING_PROPERTY nm f args) (length s + 1)
             [(nm, ascii_char_ptr_log_context_property_type E, s @ [NUL])]"
    if "fmt E f args = Some s" "int (length s) < INT_MAX"
| wstring: "argument E (LOG_CONTEXT_WSTRING_PROPERTY nm f args) (length (wcs_bytes E ws))
              [(nm, wchar_t_ptr_log_context_property_type E, wcs_bytes E ws)]"
    if "wfmt E f args = Some ws" "length ws < LOG_MAX_WCHAR_STRING_LENGTH" "sizeof_wchar_t E \<le> 8"
| basic: "argument E (LOG_CONTEXT_PROPERTY (Basic t z) nm) (sizeof_basic t)
            [(nm, basic_log_context_property_type E t, encode_basic t z)]"
| bool: "argument E (LOG_CONTEXT_PROPERTY (Bool b) nm) 1 [(nm, bool_log_context_property_type E, encode_bool b)]"
| custom: "argument E (LOG_CONTEXT_PROPERTY_CUSTOM_FUNCTION T nm vf) n [(nm, T, bs)]"
    if "value_writes vf n bs"

inductive arguments :: "c_env \<Rightarrow> field_desc list \<Rightarrow> nat \<Rightarrow> item list \<Rightarrow> bool" for E where
  none: "arguments E [] 0 []"
| more: "arguments E (fd # fds) (n + k) (xs @ ys)" if "argument E fd n xs" "arguments E fds k ys"

fun rename_context :: "string \<Rightarrow> field_desc list \<Rightarrow> string" where
  "rename_context nm [] = nm"
| "rename_context nm (LOG_CONTEXT_NAME nm' # fds) = rename_context nm' fds"
| "rename_context nm (_ # fds) = rename_context nm fds"

lemma write_pair_at:
  "i = length ps \<Longrightarrow> write_pair (ps @ p # qs) i pr = Some (ps @ Some pr # qs)"
  by (simp add: write_pair_def)

lemma write_pair_after:
  "write_pair (Some first # ps @ p # qs) (Suc (length ps)) pr = Some (Some first # ps @ Some pr # qs)"
  using write_pair_at [of "Suc (length ps)" "Some first # ps" p qs pr] by simp

lemma wstring_advance:
  "length ws < LOG_MAX_WCHAR_STRING_LENGTH \<Longrightarrow> k \<le> 8 \<Longrightarrow>
   to_size_t (int (length ws) * int k + int k) = k * (length ws + 1)"
proof -
  assume "length ws < LOG_MAX_WCHAR_STRING_LENGTH" "k \<le> 8"
  then have "k * (length ws + 1) \<le> 8 * 4096"
    by (intro mult_mono) (auto simp: LOG_MAX_WCHAR_STRING_LENGTH_def)
  moreover have e: "int (length ws) * int k + int k = int (k * (length ws + 1))" by (simp add: algebra_simps)
  ultimately show ?thesis unfolding e by (subst to_size_t_id) linarith+
qed

text \<open>
  \<open>placed\<close>: what setting up arguments does to the state, with the new pairs behind the first
  one and \<open>ps\<close>, and the values in the \<open>n\<close> bytes at \<open>pos\<close>.
\<close>

definition placed ::
    "LOG_CONTEXT_PROPERTY_VALUE_PAIR \<Rightarrow> pairs \<Rightarrow> pairs \<Rightarrow> addr \<Rightarrow> nat \<Rightarrow> mem \<Rightarrow> item list \<Rightarrow> setup_state option \<Rightarrow> bool" where
  "placed first ps rest pos n m xs r \<longleftrightarrow>
     (\<exists>qs m'. r = Some (Some first # ps @ qs @ drop (length xs) rest, Suc (length ps + length xs), pos + n, [], m') \<and>
        stored m' pos (pos + n) qs xs \<and> unchanged m m' pos n \<and> keeps_accessible m m')"

lemma placed_one:
  assumes "bytes_at m' pos bs" "length bs \<le> n" "unchanged m m' pos n" "keeps_accessible m m'"
  shows "placed first ps (p # rest) pos n m [(nm, T, bs)]
     (Some (Some first # ps @ Some \<lparr>name = nm, value_ptr = pos, type_if = T\<rparr> # rest, Suc (Suc (length ps)), pos + n, [], m'))"
  unfolding placed_def using assms
  by (intro exI [of _ "[Some \<lparr>name = nm, value_ptr = pos, type_if = T\<rparr>]"] exI [of _ m']) (auto simp: stored1_def)

lemma placed_put:
  "placed first ps (p # rest) pos (length bs) m [(nm, T, bs)]
     (Some (Some first # ps @ Some \<lparr>name = nm, value_ptr = pos, type_if = T\<rparr> # rest, Suc (Suc (length ps)),
        pos + length bs, [], put_bytes m pos bs))"
  by (rule placed_one) (auto intro: bytes_at_put_same unchanged_put)

lemma setup_step:
  assumes "argument E fd n xs" "pos \<noteq> NULL" "accessible m pos n" "length xs \<le> length rest"
  shows "placed (first\<lparr>name := rename_context (name first) [fd]\<rparr>) ps rest pos n m xs
     (SETUP_PROPERTY_PAIR E fd (Some first # ps @ rest, Suc (length ps), pos, [], m))"
  using assms
proof (induction rule: argument.induct)
  case (string f args s nm)
  then obtain r rs where rest: "rest = r # rs" by (cases rest) auto
  with string placed_put [of first ps r rs pos "s @ [NUL]" m nm "ascii_char_ptr_log_context_property_type E"] show ?case
    by (simp add: write_pair_after vsprintf_def mem_simps nat_add_distrib)
next
  case (wstring f args ws nm)
  then obtain r rs where "rest = r # rs" by (cases rest) auto
  with wstring placed_put [of first ps r rs pos "wcs_bytes E ws" m nm "wchar_t_ptr_log_context_property_type E"] show ?case
    by (simp add: write_pair_after vswprintf_def vswprintf_result_def mem_simps LOG_MAX_WCHAR_STRING_LENGTH_def
        INT_MAX_def wstring_advance)
next
  case (basic t z nm)
  then obtain r rs where "rest = r # rs" by (cases rest) auto
  with basic placed_put [of first ps r rs pos "encode_basic t z" m nm "basic_log_context_property_type E t"] show ?case
    by (simp add: write_pair_after mem_simps)
next
  case (bool b nm)
  then obtain r rs where "rest = r # rs" by (cases rest) auto
  with bool placed_put [of first ps r rs pos "encode_bool b" m nm "bool_log_context_property_type E"] show ?case
    by (simp add: write_pair_after mem_simps)
next
  case (custom vf n bs T nm)
  then obtain r rs where rest: "rest = r # rs" by (cases rest) auto
  from custom obtain m' where "vf pos m = Some (int n, m')" "bytes_at m' pos bs" "unchanged m m' pos n"
    "keeps_accessible m m'" "length bs \<le> n" unfolding value_writes_def by blast
  with rest placed_one [of m' pos bs n m first ps r rs nm T] show ?case
    by (simp add: write_pair_after nat_int_add)
qed (simp_all add: read_pair_def write_pair_def placed_def)

lemma rename_context_Cons: "rename_context nm (fd # fds) = rename_context (rename_context nm [fd]) fds"
  by (cases fd) simp_all

lemma placed_trans:
  assumes "placed first ps rest pos n m xs r" "\<And>qs m'. r = Some (Some first # ps @ qs @ drop (length xs) rest,
      Suc (length ps + length xs), pos + n, [], m') \<Longrightarrow> length qs = length xs \<Longrightarrow> keeps_accessible m m' \<Longrightarrow>
      placed first' (ps @ qs) (drop (length xs) rest) (pos + n) k m' ys (Option.bind r g)"
  shows "placed first' ps rest pos (n + k) m (xs @ ys) (Option.bind r g)"
proof -
  from assms(1) obtain qs m1 where 1: "r = Some (Some first # ps @ qs @ drop (length xs) rest,
      Suc (length ps + length xs), pos + n, [], m1)" "stored m1 pos (pos + n) qs xs" "unchanged m m1 pos n" "keeps_accessible m m1"
    by (auto simp: placed_def)
  have l: "length qs = length xs" by (rule stored_length [OF 1(2)])
  from assms(2) [OF 1(1) l 1(4)] obtain rs m2 where 2: "Option.bind r g =
      Some (Some first' # (ps @ qs) @ rs @ drop (length ys) (drop (length xs) rest),
        Suc (length (ps @ qs) + length ys), pos + n + k, [], m2)"
      "stored m2 (pos + n) (pos + n + k) rs ys" "unchanged m1 m2 (pos + n) k" "keeps_accessible m1 m2"
    by (auto simp: placed_def)
  have "\<forall>a\<in>{pos..<pos + n}. m2 a = m1 a" using 2(3) by (auto simp: unchanged_def)
  from stored_mono [OF stored_cong [OF 1(2) this]] have "stored m2 pos (pos + (n + k)) qs xs" by auto
  moreover have "stored m2 pos (pos + (n + k)) rs ys" by (rule stored_mono [OF 2(2)]) auto
  ultimately have "stored m2 pos (pos + (n + k)) (qs @ rs) (xs @ ys)" by (simp add: stored_append l)
  moreover have "unchanged m m2 pos (n + k)"
    by (rule unchanged_trans [OF unchanged_sub [OF 1(3)] unchanged_sub [OF 2(3)]]) auto
  ultimately show ?thesis
    unfolding placed_def using 2(1) keeps_accessible_trans [OF 1(4) 2(4)] l
    by (intro exI [of _ "qs @ rs"] exI [of _ m2]) (simp add: add.assoc add.commute [of "length ys"])
qed

lemma setup_all:
  assumes "arguments E fds n xs" "pos \<noteq> NULL" "accessible m pos n" "length xs \<le> length rest"
  shows "placed (first\<lparr>name := rename_context (name first) fds\<rparr>) ps rest pos n m xs
     (setup_property_pairs E fds (Some first # ps @ rest, Suc (length ps), pos, [], m))"
  using assms
proof (induction arbitrary: first ps rest pos m rule: arguments.induct)
  case none
  show ?case by (simp add: placed_def)
next
  case (more fd n xs fds k ys)
  have "accessible m pos n" by (rule accessible_sub [OF more.prems(2)]) auto
  note step = setup_step [OF more.hyps(1) more.prems(1) this, of rest first ps]
  show ?case unfolding setup_property_pairs.simps
  proof (rule placed_trans [OF step])
    show "length xs \<le> length rest" using more.prems by simp
    fix qs m'
    assume r: "SETUP_PROPERTY_PAIR E fd (Some first # ps @ rest, Suc (length ps), pos, [], m) =
        Some (Some (first\<lparr>name := rename_context (name first) [fd]\<rparr>) # ps @ qs @ drop (length xs) rest,
          Suc (length ps + length xs), pos + n, [], m')" and l: "length qs = length xs" and k: "keeps_accessible m m'"
    have "accessible m' (pos + n) k" by (rule accessible_sub [OF keeps_accessibleD [OF k more.prems(2)]]) auto
    from more.IH [OF _ this, of "drop (length xs) rest" "first\<lparr>name := rename_context (name first) [fd]\<rparr>" "ps @ qs"]
    show "placed (first\<lparr>name := rename_context (name first) (fd # fds)\<rparr>) (ps @ qs) (drop (length xs) rest) (pos + n) k m' ys
        (Option.bind (SETUP_PROPERTY_PAIR E fd (Some first # ps @ rest, Suc (length ps), pos, [], m)) (setup_property_pairs E fds))"
      using more.prems l by (simp add: r rename_context_Cons [of _ fd fds])
  qed
qed

lemma count_one: "argument E fd n xs \<Longrightarrow> COUNT_PROPERTY fd = length xs"
  by (induction rule: argument.induct) auto

lemma count_all: "arguments E fds n xs \<Longrightarrow> count_properties fds = length xs"
  by (induction rule: arguments.induct) (auto simp: count_properties_def count_one)

lemma data_bytes_one: "argument E fd n xs \<Longrightarrow> COUNT_DATA_BYTES E fd m = Some (int n, m)"
proof (induction rule: argument.induct)
  case (basic t z nm)
  have "sizeof_basic t \<le> 8" by (cases t) simp_all
  then show ?case by (simp add: basic_log_context_property_type_get_init_data_size_def c_arith)
qed (simp_all add: ascii_size_ok wchar_size_ok bool_log_context_property_type_get_init_data_size_def
      value_writes_def)

lemma data_bytes_all: "arguments E fds n xs \<Longrightarrow> count_data_bytes E fds m = Some (int n, m)"
  by (induction rule: arguments.induct) (auto simp: data_bytes_one)


section \<open>Copying the parent\<close>

text \<open>
  The values of the parent keep their offsets: a value at \<open>lo + o\<close> is copied to \<open>d + o\<close>.
  Copying one value therefore never damages a value copied before it, even where values of
  the parent overlap.
\<close>

definition shift_pair :: "addr \<Rightarrow> addr \<Rightarrow> LOG_CONTEXT_PROPERTY_VALUE_PAIR \<Rightarrow> LOG_CONTEXT_PROPERTY_VALUE_PAIR" where
  "shift_pair lo d pr = pr\<lparr>value_ptr := d + (value_ptr pr - lo)\<rparr>"

lemma bytes_at_translate:
  assumes "bytes_at mp (lo + i) bs" "bytes_at mp (lo + j) cs" "bytes_at m (d + i) bs"
  shows "bytes_at (put_bytes m (d + j) cs) (d + i) bs"
  unfolding bytes_at_iff
proof (intro allI impI)
  fix t assume t: "t < length bs"
  show "put_bytes m (d + j) cs (d + i + t) = Some (bs ! t)"
  proof (cases "j \<le> i + t \<and> i + t < j + length cs")
    case True
    then have k: "i + t - j < length cs" "lo + j + (i + t - j) = lo + i + t" by auto
    from assms(2) k(1) have "Some (cs ! (i + t - j)) = mp (lo + j + (i + t - j))"
      unfolding bytes_at_iff by metis
    also have "\<dots> = Some (bs ! t)" using assms(1) t unfolding k(2) bytes_at_iff by blast
    finally show ?thesis using True by (simp add: put_bytes_def)
  next
    case False
    then show ?thesis using assms(3) t by (auto simp: put_bytes_def bytes_at_iff)
  qed
qed

lemma stored_translate:
  assumes "stored mp lo hi ps xs" "stored m d (d + (hi - lo)) (map (map_option (shift_pair lo d)) ps) xs"
    and "bytes_at mp q cs" "lo \<le> q"
  shows "stored (put_bytes m (d + (q - lo)) cs) d (d + (hi - lo)) (map (map_option (shift_pair lo d)) ps) xs"
  using assms(1,2)
proof (induction ps arbitrary: xs)
  case Nil
  then show ?case by (cases xs) auto
next
  case (Cons p ps)
  then obtain nm T bs ys where xs: "xs = (nm, T, bs) # ys" by (cases xs) auto
  with Cons.prems obtain pr where p: "p = Some pr" by (auto simp: stored1_def split: option.splits)
  have lo: "lo \<le> value_ptr pr" and b: "bytes_at mp (lo + (value_ptr pr - lo)) bs"
    using Cons.prems(1) by (auto simp: xs p stored1_def)
  have q: "bytes_at mp (lo + (q - lo)) cs" using assms(3,4) by simp
  have "bytes_at m (d + (value_ptr pr - lo)) bs"
    using Cons.prems(2) by (auto simp: xs p stored1_def shift_pair_def)
  from bytes_at_translate [OF b q this] Cons show ?case
    by (auto simp: xs p stored1_def shift_pair_def)
qed

lemma copy_loop:
  assumes "stored mp lo hi (pre @ post) (xs @ ys)" "length pre = length xs" "\<forall>(nm, T, bs)\<in>set ys. copies T bs"
    and par: "values_data parent = lo" "property_value_pair_count parent = length (pre @ post)"
      "property_value_pairs_ptr parent = pre @ post @ junk" "0 < lo"
    and d: "d = values_data dest + 1" "hi \<le> d \<or> d + (hi - lo) \<le> lo"
    and "\<forall>a\<in>{lo..<hi}. m a = mp a" "accessible m d (hi - lo)"
    and "stored m d (d + (hi - lo)) (map (map_option (shift_pair lo d)) pre) xs" "length post \<le> length rest"
  shows "\<exists>m'. init_from_parent_loop dest parent (length pre)
           (first # map (map_option (shift_pair lo d)) pre @ rest) m =
         Some (length (pre @ post), first # map (map_option (shift_pair lo d)) (pre @ post) @ drop (length post) rest, [], m') \<and>
       unchanged m m' d (hi - lo) \<and> keeps_accessible m m' \<and>
       stored m' d (d + (hi - lo)) (map (map_option (shift_pair lo d)) (pre @ post)) (xs @ ys)"
  using assms
proof (induction post arbitrary: pre xs ys m rest)
  case Nil
  then have "ys = []" using stored_length [OF Nil.prems(1)] by simp
  with Nil show ?case by (subst init_from_parent_loop.simps) simp
next
  case (Cons p post)
  let ?S = "map_option (shift_pair lo d)"
  from Cons.prems(1,2) obtain y ys' where ys: "ys = y # ys'"
    using stored_length [OF Cons.prems(1)] by (cases ys) auto
  obtain nm T bs where y: "y = (nm, T, bs)" by (cases y)
  have s: "stored mp lo hi pre xs" "stored1 mp lo hi p y" "stored mp lo hi post ys'"
    using Cons.prems(1,2) by (auto simp: ys stored_append)
  then obtain pr where p: "p = Some pr" and pr: "name pr = nm" "type_if pr = T" "bytes_at mp (value_ptr pr) bs"
    "lo \<le> value_ptr pr" "value_ptr pr + length bs \<le> hi"
    by (auto simp: stored1_def y split: option.splits)
  obtain r rs where rest: "rest = r # rs" using Cons.prems(13) by (cases rest) auto
  let ?v = "d + (value_ptr pr - lo)"
  let ?m1 = "put_bytes m ?v bs"
  have v: "nat (int (values_data dest) + 1 + (int (value_ptr pr) - int lo)) = ?v"
    using pr(4) Cons.prems(8) by simp
  have "bytes_at m (value_ptr pr) bs"
    by (rule bytes_at_cong [OF pr(3)]) (use Cons.prems(10) pr(4,5) in auto)
  moreover have "accessible m ?v (length bs)"
    by (rule accessible_sub [OF Cons.prems(11)]) (use pr(4,5) in auto)
  ultimately have cp: "copy T ?v (value_ptr pr) m = Some (0, [], ?m1)"
    using Cons.prems(3,7,8) pr(4) by (auto simp: ys y copies_def)
  have rd: "read_pair (property_value_pairs_ptr parent) (length pre) = Some pr"
    using Cons.prems(6) by (simp add: read_pair_def p nth_append)
  have wr: "write_pair (first # map ?S pre @ rest) (Suc (length pre)) (pr\<lparr>value_ptr := ?v\<rparr>) =
      Some (first # map ?S (pre @ [p]) @ rs)"
    using write_pair_at [of "Suc (length pre)" "first # map ?S pre" r rs] by (simp add: rest p shift_pair_def)
  have step: "init_from_parent_loop dest parent (length pre) (first # map ?S pre @ rest) m =
      init_from_parent_loop dest parent (length (pre @ [p])) (first # map ?S (pre @ [p]) @ rs) ?m1"
    using Cons.prems(4,5) by (subst init_from_parent_loop.simps) (simp add: rd v wr cp pr(2) Let_def)
  have un: "unchanged m ?m1 d (hi - lo)" by (rule unchanged_put) (use pr(4,5) in auto)
  have st: "stored ?m1 d (d + (hi - lo)) (map ?S (pre @ [p])) (xs @ [y])"
    using stored_translate [OF s(1) Cons.prems(12) pr(3,4)] pr Cons.prems(2)
    by (auto simp: stored_append y p stored1_def shift_pair_def mem_simps)
  have ag: "\<forall>a\<in>{lo..<hi}. ?m1 a = mp a"
    using un Cons.prems(9,10) by (auto simp: unchanged_def)
  obtain m' where m': "init_from_parent_loop dest parent (length (pre @ [p])) (first # map ?S (pre @ [p]) @ rs) ?m1 =
      Some (length ((pre @ [p]) @ post), first # map ?S ((pre @ [p]) @ post) @ drop (length post) rs, [], m')"
    "unchanged ?m1 m' d (hi - lo)" "keeps_accessible ?m1 m'"
    "stored m' d (d + (hi - lo)) (map ?S ((pre @ [p]) @ post)) ((xs @ [y]) @ ys')"
    using Cons.IH [of "pre @ [p]" "xs @ [y]" ys' ?m1 rs] Cons.prems st ag
    by (auto simp: ys mem_simps rest)
  from unchanged_trans [OF un m'(2)] keeps_accessible_trans [OF keeps_accessible_put m'(3)] m'(1,4) show ?case
    unfolding step by (simp add: rest ys)
qed


section \<open>The invariant of a context\<close>

definition context_inv :: "print_law \<Rightarrow> mem \<Rightarrow> LOG_CONTEXT \<Rightarrow> ptree \<Rightarrow> bool" where
  "context_inv P m C t \<longleftrightarrow>
     0 < values_data C \<and> 0 < values_data_length C \<and> accessible m (values_data C) (values_data_length C) \<and>
     property_value_pair_count C \<le> length (property_value_pairs_ptr C) \<and>
     (\<exists>xs. shape P [t] xs \<and>
        stored m (values_data C) (values_data C + values_data_length C)
          (take (property_value_pair_count C) (property_value_pairs_ptr C)) xs)"

definition handle_inv :: "print_law \<Rightarrow> mem \<Rightarrow> LOG_CONTEXT_HANDLE \<Rightarrow> ptree list \<Rightarrow> bool" where
  "handle_inv P m h ts = (case h of None \<Rightarrow> ts = [] | Some C \<Rightarrow> (\<exists>t. ts = [t] \<and> context_inv P m C t))"

text \<open>The blocks of a context and of a parent handle do not overlap.\<close>

definition apart :: "LOG_CONTEXT_HANDLE \<Rightarrow> addr \<Rightarrow> nat \<Rightarrow> bool" where
  "apart h p n = (case h of None \<Rightarrow> True | Some C \<Rightarrow> values_data C + values_data_length C \<le> p \<or> p + n \<le> values_data C)"

lemma context_inv_count: "context_inv P m C t \<Longrightarrow> 0 < property_value_pair_count C"
  unfolding context_inv_def
proof (elim conjE exE)
  fix xs assume "shape P [t] xs" and s: "stored m (values_data C) (values_data C + values_data_length C)
    (take (property_value_pair_count C) (property_value_pairs_ptr C)) xs"
  then have "xs \<noteq> []" by (auto elim: shape.cases)
  with stored_length [OF s] show ?thesis by (cases "property_value_pair_count C") auto
qed

lemma context_inv_cong:
  assumes "context_inv P m C t" "\<forall>a\<in>{values_data C..<values_data C + values_data_length C}. m' a = m a"
  shows "context_inv P m' C t"
proof -
  have "accessible m' (values_data C) (values_data_length C)"
    using assms by (auto simp: context_inv_def accessible_iff)
  with assms show ?thesis unfolding context_inv_def using stored_cong by blast
qed

lemma handle_inv_unchanged:
  assumes "handle_inv P m h ts" "unchanged m m' p n" "apart h p n"
  shows "handle_inv P m' h ts"
proof (cases h)
  case None
  with assms(1) show ?thesis by (simp add: handle_inv_def)
next
  case (Some C)
  have "m' a = m a" if "values_data C \<le> a" "a < values_data C + values_data_length C" for a
    using assms(2,3) that by (auto simp: Some apart_def unchanged_def)
  then have "context_inv P m' C t" if "context_inv P m C t" for t
    by (intro context_inv_cong [OF that]) auto
  with assms(1) Some show ?thesis by (auto simp: handle_inv_def)
qed

lemma init_from_parent_ok:
  assumes inv: "handle_inv P m parent ts"
    and n: "n = internal_log_context_get_values_data_length_or_zero parent"
    and k: "k = log_context_get_property_value_pair_count parent"
    and dest: "property_value_pairs_ptr dest = replicate N None" "Suc k \<le> N" "d = values_data dest + 1"
    and "accessible m d n" "apart parent d n"
  shows "\<exists>qs zs m'. internal_log_context_init_from_parent E dest parent m =
           Some (0, dest\<lparr>property_value_pairs_ptr := None # qs @ replicate (N - Suc k) None\<rparr>, [], m') \<and>
         unchanged m m' d n \<and> keeps_accessible m m' \<and> shape P ts zs \<and> stored m' d (d + n) qs zs \<and> length qs = k"
proof (cases parent)
  case None
  with assms have "ts = []" "k = 0" "n = 0"
    by (auto simp: handle_inv_def log_context_get_property_value_pair_count_def
        internal_log_context_get_values_data_length_or_zero_def)
  moreover have "dest\<lparr>property_value_pairs_ptr := None # replicate (N - Suc 0) None\<rparr> = dest"
    using dest(1,2) \<open>k = 0\<close> by (cases N; cases dest) auto
  ultimately show ?thesis using None
    by (intro exI [of _ "[]"] exI [of _ m]) (auto simp: internal_log_context_init_from_parent_def intro: shape.empty)
next
  case (Some C)
  with assms have nk: "n = values_data_length C" "k = property_value_pair_count C"
    by (auto simp: log_context_get_property_value_pair_count_def internal_log_context_get_values_data_length_or_zero_def)
  let ?lo = "values_data C"
  let ?pps = "take k (property_value_pairs_ptr C)"
  from inv Some obtain t zs where t: "ts = [t]" "0 < ?lo" "k \<le> length (property_value_pairs_ptr C)"
    "shape P [t] zs" "stored m ?lo (?lo + n) ?pps zs" by (auto simp: handle_inv_def context_inv_def nk)
  have reps: "replicate N None = None # map (map_option (shift_pair ?lo d)) [] @ replicate (N - 1) None"
    using dest(2) by (cases N) auto
  have "\<exists>m'. init_from_parent_loop dest C (length ([]::pairs))
      (None # map (map_option (shift_pair ?lo d)) [] @ replicate (N - 1) None) m =
      Some (length ([] @ ?pps), None # map (map_option (shift_pair ?lo d)) ([] @ ?pps) @
        drop (length ?pps) (replicate (N - 1) None), [], m') \<and>
      unchanged m m' d (?lo + n - ?lo) \<and> keeps_accessible m m' \<and>
      stored m' d (d + (?lo + n - ?lo)) (map (map_option (shift_pair ?lo d)) ([] @ ?pps)) ([] @ zs)"
    by (rule copy_loop [where mp = m and junk = "drop k (property_value_pairs_ptr C)"])
      (use t assms Some shape_copies [OF t(4)] in \<open>auto simp: nk apart_def\<close>)
  then obtain m' where "init_from_parent_loop dest C 0 (replicate N None) m =
      Some (k, None # map (map_option (shift_pair ?lo d)) ?pps @ replicate (N - Suc k) None, [], m')"
    "unchanged m m' d n" "keeps_accessible m m'" "stored m' d (d + n) (map (map_option (shift_pair ?lo d)) ?pps) zs"
    unfolding reps using t(3) by auto
  with Some t dest(1) nk show ?thesis
    by (intro exI [of _ "map (map_option (shift_pair ?lo d)) ?pps"] exI [of _ zs] exI [of _ m'])
      (auto simp: internal_log_context_init_from_parent_def)
qed


lemma copies_struct: "copies (struct_log_context_property_type E) [char_of n]"
  by (simp add: copies_def struct_log_context_property_type_def struct_log_context_property_type_copy_def mem_simps)

lemma fill_eq:
  assumes ar: "arguments E fds w xs"
    and n: "n = internal_log_context_get_values_data_length_or_zero parent"
    and k: "k = log_context_get_property_value_pair_count parent"
    and dest: "values_data dest = d" "property_value_pairs_ptr dest = None # qs @ replicate r None"
    and qs: "length qs = k" "length xs \<le> r"
    and acc: "accessible m d (1 + n + w)"
    and m1: "m1 = put_bytes m d [char_of (to_uint8 (int ((if parent \<noteq> None then 1 else 0) + length xs)))]"
  shows "\<exists>rs m'. fill_context E dest parent fds m =
     Some (dest\<lparr>property_value_pairs_ptr :=
        Some \<lparr>name = rename_context '''' fds, value_ptr = d, type_if = struct_log_context_property_type E\<rparr> #
        qs @ rs @ replicate (r - length xs) None\<rparr>, [], m') \<and>
     stored m' (d + 1 + n) (d + 1 + n + w) rs xs \<and> unchanged m1 m' (d + 1 + n) w \<and> keeps_accessible m1 m'"
proof -
  define first where "first = \<lparr>name = '''', value_ptr = d, type_if = struct_log_context_property_type E\<rparr>"
  define c :: "char list" where "c = [char_of (to_uint8 (int ((if parent \<noteq> None then 1 else 0) + length xs)))]"
  have acc1: "accessible m d 1" by (rule accessible_sub [OF acc]) auto
  have acc2: "accessible m1 (d + 1 + n) w"
    unfolding m1 by (rule accessible_put, rule accessible_sub [OF acc]) auto
  have store: "store_bytes m d c = Some m1" using acc1 by (simp add: c_def m1 store_bytes_def)
  have wr: "write_pair (property_value_pairs_ptr dest) 0 first = Some (Some first # qs @ replicate r None)"
    by (simp add: write_pair_def dest)
  have "placed (first\<lparr>name := rename_context '''' fds\<rparr>) qs (replicate r None) (d + 1 + n) w m1 xs
      (setup_property_pairs E fds (Some first # qs @ replicate r None, k + 1, d + 1 + n, [], m1))"
    using setup_all [OF ar _ acc2, of "replicate r None" first qs] qs by (simp add: first_def)
  then obtain rs m' where filled: "setup_property_pairs E fds (Some first # qs @ replicate r None, k + 1, d + 1 + n, [], m1) =
      Some (Some (first\<lparr>name := rename_context '''' fds\<rparr>) # qs @ rs @ drop (length xs) (replicate r None),
        Suc (length qs + length xs), d + 1 + n + w, [], m')"
    and m': "stored m' (d + 1 + n) (d + 1 + n + w) rs xs" "unchanged m1 m' (d + 1 + n) w" "keeps_accessible m1 m'"
    by (auto simp: placed_def)
  have "fill_context E dest parent fds m = Some (dest\<lparr>property_value_pairs_ptr :=
        Some (first\<lparr>name := rename_context '''' fds\<rparr>) # qs @ rs @ replicate (r - length xs) None\<rparr>, [], m')"
    unfolding fill_context_def dest(1) count_all [OF ar] c_def [symmetric] store Option.bind.bind_lunit
      first_def [symmetric] wr n [symmetric] k [symmetric] filled
    by simp
  with m' show ?thesis by (auto simp: first_def)
qed

lemma fill_ok:
  assumes ar: "arguments E fds w xs" and us: "shape P us xs" and zs: "shape P ts zs" "length ts = (if parent = None then 0 else 1)"
    and n: "n = internal_log_context_get_values_data_length_or_zero parent"
    and k: "k = log_context_get_property_value_pair_count parent"
    and dest: "values_data dest = d" "0 < d" "property_value_pairs_ptr dest = None # qs @ replicate r None"
      "values_data_length dest = 1 + n + w" "property_value_pair_count dest = Suc (k + length xs)"
    and st: "stored m (d + 1) (d + 1 + n) qs zs" "length qs = k" "length xs \<le> r"
    and acc: "accessible m d (values_data_length dest)"
    and small: "length ts + length us < 256" "int (length (rename_context '''' fds)) + 3 \<le> INT_MAX"
    and lus: "length us = length xs"
  shows "\<exists>C m'. fill_context E dest parent fds m = Some (C, [], m') \<and>
       C = dest\<lparr>property_value_pairs_ptr := property_value_pairs_ptr C\<rparr> \<and>
       context_inv P m' C (Struct (rename_context '''' fds) (ts @ us)) \<and>
       unchanged m m' d (values_data_length dest) \<and> keeps_accessible m m'"
proof -
  define nm where "nm = rename_context '''' fds"
  define first where "first = \<lparr>name = nm, value_ptr = d, type_if = struct_log_context_property_type E\<rparr>"
  define c where "c = [char_of (length (ts @ us)) :: char]"
  let ?p = "d + 1 + n" let ?m1 = "put_bytes m d c"
  have c: "[char_of (to_uint8 (int ((if parent \<noteq> None then 1 else 0) + length xs)))] = c"
    using small(1) zs(2) lus by (cases parent) (simp_all add: c_def to_uint8_id nat_add_distrib)
  obtain rs m2 where fill: "fill_context E dest parent fds m =
      Some (dest\<lparr>property_value_pairs_ptr := Some first # qs @ rs @ replicate (r - length xs) None\<rparr>, [], m2)"
    and rs: "stored m2 ?p (?p + w) rs xs" and m2: "unchanged ?m1 m2 ?p w" "keeps_accessible ?m1 m2"
    using fill_eq [OF ar n k dest(1,3) st(2,3), of m ?m1] acc unfolding c first_def nm_def by (auto simp: dest)
  have agree: "m2 a = ?m1 a" if "a < ?p" for a using m2(1) that by (simp add: unchanged_def)
  have "\<forall>a\<in>{d + 1..<?p}. m2 a = m a" by (auto simp: agree put_bytes_def c_def)
  from stored_mono [OF stored_cong [OF st(1) this]] have q: "stored m2 d (?p + w) qs zs" by auto
  have x: "stored m2 d (?p + w) rs xs" by (rule stored_mono [OF rs]) auto
  have "bytes_at m2 d c" by (auto simp: c_def agree put_bytes_def)
  then have "stored m2 d (?p + w) (Some first # qs @ rs) ((nm, struct_log_context_property_type E, c) # zs @ xs)"
    using q x stored_length [OF st(1)] by (simp add: stored_append stored1_def first_def c_def)
  moreover have "take (Suc (k + length xs)) (Some first # qs @ rs @ replicate (r - length xs) None) = Some first # qs @ rs"
    using st stored_length [OF rs] by simp
  moreover have "shape P [Struct nm (ts @ us)] ((nm, struct_log_context_property_type E, c) # (zs @ xs) @ [])"
    unfolding c_def using small by (intro shape.struct shape_append us zs(1) shape.empty copies_struct) (auto simp: nm_def)
  moreover have "unchanged m m2 d (values_data_length dest)"
    by (rule unchanged_trans [OF unchanged_put unchanged_sub [OF m2(1)]]) (auto simp: dest c_def)
  moreover have keeps: "keeps_accessible m m2" by (rule keeps_accessible_trans [OF keeps_accessible_put m2(2)])
  moreover have "accessible m2 d (values_data_length dest)" by (rule keeps_accessibleD [OF keeps acc])
  moreover have "length rs = length xs" "length qs = length zs" using stored_length [OF rs] stored_length [OF st(1)] by auto
  ultimately show ?thesis
    unfolding fill
    by (intro exI [of _ "dest\<lparr>property_value_pairs_ptr := Some first # qs @ rs @ replicate (r - length xs) None\<rparr>"] exI [of _ m2])
      (auto simp: context_inv_def dest st(2) nm_def add.assoc length_append intro!: exI [of _ "(_, _, _) # zs @ xs"])
qed


section \<open>Properties\<close>

lemma apart_sub: "apart h p n \<Longrightarrow> p \<le> q \<Longrightarrow> q + k \<le> p + n \<Longrightarrow> apart h q k"
  by (cases h) (auto simp: apart_def)

text \<open>The two steps both macros take, on a fresh array of pairs and a block for the data.\<close>

lemma build_context:
  assumes inv: "handle_inv P m parent ts" and ar: "arguments E fds w xs" and us: "shape P us xs" "length us = length xs"
    and n: "n = internal_log_context_get_values_data_length_or_zero parent"
    and k: "k = log_context_get_property_value_pair_count parent"
    and dest: "values_data dest = d" "0 < d" "property_value_pairs_ptr dest = replicate N None"
      "values_data_length dest = n + 1 + w" "property_value_pair_count dest = k + 1 + length xs"
    and N: "k + 1 + length xs \<le> N"
    and acc: "accessible m d (values_data_length dest)" and ap: "apart parent d (values_data_length dest)"
    and small: "length ts + length us < 256" "int (length (rename_context '''' fds)) + 3 \<le> INT_MAX"
  shows "\<exists>C m'. (do { (_, dest1, out1, m2) \<leftarrow> internal_log_context_init_from_parent E dest parent m;
                    (C, out2, m3) \<leftarrow> fill_context E dest1 parent fds m2;
                    Some (C, out1 @ out2, m3) }) = Some (C, [], m') \<and>
       C = dest\<lparr>property_value_pairs_ptr := property_value_pairs_ptr C\<rparr> \<and>
       context_inv P m' C (Struct (rename_context '''' fds) (ts @ us)) \<and>
       unchanged m m' d (values_data_length dest) \<and> keeps_accessible m m'"
proof -
  have "accessible m (d + 1) n" by (rule accessible_sub [OF acc]) (use dest in auto)
  moreover have "apart parent (d + 1) n" by (rule apart_sub [OF ap]) (use dest in auto)
  ultimately obtain qs zs m1 where
    init: "internal_log_context_init_from_parent E dest parent m =
       Some (0, dest\<lparr>property_value_pairs_ptr := None # qs @ replicate (N - Suc k) None\<rparr>, [], m1)"
    and m1: "unchanged m m1 (d + 1) n" "keeps_accessible m m1"
    and zs: "shape P ts zs" "stored m1 (d + 1) (d + 1 + n) qs zs" "length qs = k"
    using init_from_parent_ok [OF inv n k dest(3), where d = "d + 1" and E = E] N dest(1) by auto
  let ?dest1 = "dest\<lparr>property_value_pairs_ptr := None # qs @ replicate (N - Suc k) None\<rparr>"
  have lts: "length ts = (if parent = None then 0 else 1)"
    using inv by (cases parent) (auto simp: handle_inv_def)
  have room: "length xs \<le> N - Suc k" using N by simp
  have acc1: "accessible m1 d (values_data_length ?dest1)" using keeps_accessibleD [OF m1(2) acc] by simp
  obtain C m2 where fill: "fill_context E ?dest1 parent fds m1 = Some (C, [], m2)"
    and C: "C = ?dest1\<lparr>property_value_pairs_ptr := property_value_pairs_ptr C\<rparr>"
      "context_inv P m2 C (Struct (rename_context '''' fds) (ts @ us))"
    and m2: "unchanged m1 m2 d (values_data_length ?dest1)" "keeps_accessible m1 m2"
    using fill_ok [OF ar us(1) zs(1) lts n k _ dest(2) _ _ _ zs(2,3) room acc1 small us(2)] dest by auto
  have "unchanged m m1 d (values_data_length dest)"
    by (rule unchanged_sub [OF m1(1)]) (use dest in auto)
  then have "unchanged m m2 d (values_data_length dest)" using m2(1) by (auto intro: unchanged_trans)
  moreover have "C = dest\<lparr>property_value_pairs_ptr := property_value_pairs_ptr C\<rparr>"
    using C(1) by (cases dest; cases C) auto
  ultimately show ?thesis
    using init fill C(2) keeps_accessible_trans [OF m1(2) m2(2)] by auto
qed

lemma local_define_builds:
  assumes "handle_inv P m parent ts" "arguments E fds w xs" "shape P us xs" "length us = length xs"
    and "log_context_get_property_value_pair_count parent + 1 + length xs \<le> 64"
    and "internal_log_context_get_values_data_length_or_zero parent + 1 + w \<le> 4096"
    and "0 < frame" "accessible m frame 4096" "apart parent frame 4096"
    and "int (length (rename_context '''' fds)) + 3 \<le> INT_MAX"
  shows "\<exists>C m'. LOG_CONTEXT_LOCAL_DEFINE E ab frame parent fds m = Inr (C, [], m') \<and>
       context_inv P m' C (Struct (rename_context '''' fds) (ts @ us)) \<and>
       values_data C = frame \<and> unchanged m m' frame 4096 \<and> keeps_accessible m m' \<and> handle_inv P m' parent ts \<and>
       property_value_pair_count C = log_context_get_property_value_pair_count parent + 1 + length xs \<and>
       values_data_length C = internal_log_context_get_values_data_length_or_zero parent + 1 + w"
proof -
  let ?n = "internal_log_context_get_values_data_length_or_zero parent"
  let ?k = "log_context_get_property_value_pair_count parent"
  let ?dest = "\<lparr>values_data = frame, values_data_length = ?n + 1 + w,
    property_value_pairs_ptr = replicate 64 None, property_value_pair_count = ?k + 1 + length xs\<rparr>"
  have len: "to_uint32 (int ?n + 1 + int w) = ?n + 1 + w"
    using assms(6) by (subst to_uint32_id) auto
  have cnt: "context_count parent fds = ?k + 1 + length xs"
    unfolding context_count_def count_all [OF assms(2)] using assms(5) by (subst to_uint32_id) auto
  have lts: "length ts \<le> 1" using assms(1) by (cases parent) (auto simp: handle_inv_def)
  have acc: "accessible m frame (values_data_length ?dest)"
    by (rule accessible_sub [OF assms(8)]) (use assms(6) in auto)
  have ap: "apart parent frame (values_data_length ?dest)"
    by (rule apart_sub [OF assms(9)]) (use assms(6) in auto)
  obtain C m' where b: "(do { (_, dest1, out1, m2) \<leftarrow> internal_log_context_init_from_parent E ?dest parent m;
        (C, out2, m3) \<leftarrow> fill_context E dest1 parent fds m2; Some (C, out1 @ out2, m3) }) = Some (C, [], m')"
    "C = ?dest\<lparr>property_value_pairs_ptr := property_value_pairs_ptr C\<rparr>"
    "context_inv P m' C (Struct (rename_context '''' fds) (ts @ us))"
    "unchanged m m' frame (values_data_length ?dest)" "keeps_accessible m m'"
    using build_context [OF assms(1-4) refl refl _ assms(7) _ _ _ _ acc ap _ assms(10), of 64] assms(4,5) lts
    by auto
  have un: "unchanged m m' frame 4096" by (rule unchanged_sub [OF b(4)]) (use assms(6) in auto)
  have "LOG_CONTEXT_LOCAL_DEFINE E ab frame parent fds m = Inr (C, [], m')"
    using assms(5,6) b(1)
    by (auto simp: LOG_CONTEXT_LOCAL_DEFINE_def data_bytes_all [OF assms(2)] len cnt Let_def
        LOG_MAX_STACK_PROPERTY_VALUE_PAIR_COUNT_def LOG_MAX_STACK_DATA_SIZE_def defined_def
        split: Option.bind_splits)
  moreover have "values_data C = frame" "property_value_pair_count C = ?k + 1 + length xs" "values_data_length C = ?n + 1 + w"
    by (subst b(2), simp)+
  ultimately show ?thesis
    using b(3,5) un handle_inv_unchanged [OF assms(1) un assms(9)] by blast
qed

text \<open>
  C5: A context defined on the stack, whose properties fit into 64 entries and 4096 bytes,
  is well formed: its pairs are one struct, named by \<open>LOG_CONTEXT_NAME\<close> or without a name,
  that holds the parent's tree (if there is a parent) and then the properties of the
  arguments in order; the parent's values are copied, so the parent's block is not shared;
  only the block of the context is written, and the parent stays as it was.
\<close>
theorem local_define_context:
  assumes "handle_inv P m parent ts" "arguments E fds w xs" "shape P us xs" "length us = length xs"
    and "log_context_get_property_value_pair_count parent + 1 + length xs \<le> 64"
    and "internal_log_context_get_values_data_length_or_zero parent + 1 + w \<le> 4096"
    and "0 < frame" "accessible m frame 4096" "apart parent frame 4096"
    and "int (length (rename_context '''' fds)) + 3 \<le> INT_MAX"
  shows "\<exists>C m'. LOG_CONTEXT_LOCAL_DEFINE E ab frame parent fds m = Inr (C, [], m') \<and>
       context_inv P m' C (Struct (rename_context '''' fds) (ts @ us)) \<and>
       values_data C = frame \<and> unchanged m m' frame 4096 \<and> keeps_accessible m m' \<and> handle_inv P m' parent ts"
  using local_define_builds [OF assms] by blast


text \<open>
  C32: When a context on the stack would need more than 64 entries or more than 4096 bytes,
  one line is printed and the error is reported, which aborts the program when it is built
  with \<open>LOG_ABORT_ON_ERROR\<close>; otherwise the result is a context without any property, and the
  memory is unchanged.
\<close>
theorem local_define_overflow:
  assumes "arguments E fds w xs"
    and "64 < log_context_get_property_value_pair_count parent + 1 + length xs \<or>
      4096 < internal_log_context_get_values_data_length_or_zero parent + 1 + w"
    and "log_context_get_property_value_pair_count parent + 1 + length xs < 2 ^ 32"
      "internal_log_context_get_values_data_length_or_zero parent + 1 + w < 2 ^ 32"
  shows "\<exists>line. LOG_CONTEXT_LOCAL_DEFINE E True frame parent fds m = Inl (Aborted [line]) \<and>
    LOG_CONTEXT_LOCAL_DEFINE E False frame parent fds m =
       Inr (\<lparr>values_data = frame, values_data_length = 0,
             property_value_pairs_ptr = replicate 64 None, property_value_pair_count = 0\<rparr>, [line], m)"
proof -
  let ?n = "internal_log_context_get_values_data_length_or_zero parent"
  let ?k = "log_context_get_property_value_pair_count parent"
  have len: "to_uint32 (int ?n + 1 + int w) = ?n + 1 + w"
    using assms(4) by (subst to_uint32_id) auto
  have cnt: "context_count parent fds = ?k + 1 + length xs"
    unfolding context_count_def count_all [OF assms(1)] using assms(3) by (subst to_uint32_id) auto
  note unf = LOG_CONTEXT_LOCAL_DEFINE_def data_bytes_all [OF assms(1)] len cnt Let_def
    LOG_MAX_STACK_PROPERTY_VALUE_PAIR_COUNT_def LOG_MAX_STACK_DATA_SIZE_def log_internal_error_report_def
  show ?thesis using assms(2) by (auto simp: unf)
qed

text \<open>
  What is relied on of \<open>malloc\<close>: a failure changes nothing; a block it returns was not
  accessible before, is accessible afterwards, and nothing else changes.
\<close>

definition allocates :: "(nat \<Rightarrow> mem \<Rightarrow> addr \<times> mem) \<Rightarrow> bool" where
  "allocates malloc \<longleftrightarrow>
     (\<forall>n m p m'. malloc n m = (p, m') \<longrightarrow>
        (if p = NULL then m' = m
         else (\<forall>a. p \<le> a \<and> a < p + n \<longrightarrow> m a = None) \<and> accessible m' p n \<and> unchanged m m' p n))"

lemma fresh_apart:
  assumes "handle_inv P m h ts" "\<forall>a. p \<le> a \<and> a < p + n \<longrightarrow> m a = None" "0 < n"
  shows "apart h p n"
proof (cases h)
  case (Some C)
  with assms(1) have c: "accessible m (values_data C) (values_data_length C)" "0 < values_data_length C"
    by (auto simp: handle_inv_def context_inv_def)
  have "False" if "values_data C < p + n" "p < values_data C + values_data_length C"
  proof -
    let ?a = "max p (values_data C)"
    have "m ?a = None" using assms(2,3) that by auto
    moreover have "m ?a \<noteq> None" by (rule accessible_addr [OF c(1)]) (use that c(2) in auto)
    ultimately show False by simp
  qed
  then show ?thesis using Some by (auto simp: apart_def not_less [symmetric])
qed (simp add: apart_def)

text \<open>
  The block of a new context: it was not accessible before, it is now, and nothing else has changed.
\<close>

definition new_block :: "mem \<Rightarrow> mem \<Rightarrow> addr \<Rightarrow> nat \<Rightarrow> bool" where
  "new_block m m' p n \<longleftrightarrow> (\<forall>a. p \<le> a \<and> a < p + n \<longrightarrow> m a = None) \<and> accessible m' p n \<and> unchanged m m' p n"

lemma new_block_keeps: "new_block m m' p n \<Longrightarrow> m a \<noteq> None \<Longrightarrow> m' a = m a"
  unfolding new_block_def unchanged_def by (metis not_less)

definition in_new_block :: "mem \<Rightarrow> mem \<Rightarrow> addr \<Rightarrow> LOG_CONTEXT \<Rightarrow> nat \<Rightarrow> nat \<Rightarrow> bool" where
  "in_new_block m m' p C k n \<longleftrightarrow> property_value_pair_count C = k \<and> values_data_length C = n \<and>
     values_data C = p + context_block_size k 0 \<and> new_block m m' p (context_block_size k n)"

lemma create_builds:
  assumes "allocates malloc" "handle_inv P m parent ts" "arguments E fds w xs" "shape P us xs" "length us = length xs"
    and "cnt = log_context_get_property_value_pair_count parent + 1 + length xs"
    and "len = internal_log_context_get_values_data_length_or_zero parent + 1 + w" "cnt < 2 ^ 32" "len < 2 ^ 32"
    and "length ts + length us < 256" "int (length (rename_context '''' fds)) + 3 \<le> INT_MAX"
    and "malloc (context_block_size cnt len) m = (p, m1)"
  shows "if p = NULL then LOG_CONTEXT_CREATE E malloc parent fds m = Some (None, [create_failed cnt len], m)
     else \<exists>C m'. LOG_CONTEXT_CREATE E malloc parent fds m = Some (Some (p, C), [], m') \<and>
       context_inv P m' C (Struct (rename_context '''' fds) (ts @ us)) \<and> handle_inv P m' parent ts \<and> in_new_block m m' p C cnt len"
proof -
  let ?n = "internal_log_context_get_values_data_length_or_zero parent"
  note mal = assms(12)
  have len: "to_uint32 (int ?n + 1 + int w) = len"
    using assms(7,9) by (subst to_uint32_id) auto
  have cnt: "context_count parent fds = cnt"
    unfolding context_count_def count_all [OF assms(3)] using assms(6,8) by (subst to_uint32_id) auto
  note unf = LOG_CONTEXT_CREATE_def data_bytes_all [OF assms(3)] len cnt log_context_create_def mal
  show ?thesis
  proof (cases "p = NULL")
    case True
    then have "m1 = m" using assms(1) mal unfolding allocates_def by metis
    with True show ?thesis by (simp add: unf)
  next
    case False
    from assms(1) mal False have fresh: "\<forall>a. p \<le> a \<and> a < p + context_block_size cnt len \<longrightarrow> m a = None"
      "accessible m1 p (context_block_size cnt len)" "unchanged m m1 p (context_block_size cnt len)"
      unfolding allocates_def by metis+
    let ?d = "p + sizeof_LOG_CONTEXT + sizeof_LOG_CONTEXT_PROPERTY_VALUE_PAIR * cnt"
    let ?dest = "\<lparr>values_data = ?d, values_data_length = len, property_value_pairs_ptr = replicate cnt None,
      property_value_pair_count = cnt\<rparr>"
    have ap: "apart parent p (context_block_size cnt len)"
      by (rule fresh_apart [OF assms(2) fresh(1)]) (simp add: context_block_size_def sizeof_LOG_CONTEXT_def)
    have inv1: "handle_inv P m1 parent ts" by (rule handle_inv_unchanged [OF assms(2) fresh(3) ap])
    have sub: "p \<le> ?d" "?d + len \<le> p + context_block_size cnt len" by (simp_all add: context_block_size_def)
    have acc: "accessible m1 ?d (values_data_length ?dest)"
      by (rule accessible_sub [OF fresh(2)]) (use sub in auto)
    have apd: "apart parent ?d len" by (rule apart_sub [OF ap sub])
    obtain C m' where b: "(do { (_, dest1, out1, m2) \<leftarrow> internal_log_context_init_from_parent E ?dest parent m1;
          (C, out2, m3) \<leftarrow> fill_context E dest1 parent fds m2; Some (C, out1 @ out2, m3) }) = Some (C, [], m')"
      "context_inv P m' C (Struct (rename_context '''' fds) (ts @ us))"
      "unchanged m1 m' ?d (values_data_length ?dest)" "keeps_accessible m1 m'"
      "C = ?dest\<lparr>property_value_pairs_ptr := property_value_pairs_ptr C\<rparr>"
      using build_context [OF inv1 assms(3-5) refl refl _ _ _ _ _ _ acc _ assms(10,11), where N = cnt] apd False
      by (auto simp: assms(6,7))
    have un: "unchanged m1 m' p (context_block_size cnt len)"
      by (rule unchanged_sub [OF b(3)]) (use sub in auto)
    have "LOG_CONTEXT_CREATE E malloc parent fds m = Some (Some (p, C), [], m')"
      using False b(1) by (auto simp: unf split: Option.bind_splits)
    moreover have "new_block m m' p (context_block_size cnt len)"
      unfolding new_block_def using fresh unchanged_trans [OF fresh(3) un] keeps_accessibleD [OF b(4) fresh(2)] by blast
    moreover have "property_value_pair_count C = cnt" "values_data_length C = len" "values_data C = ?d"
      by (subst b(5), simp)+
    ultimately show ?thesis
      using b(2) handle_inv_unchanged [OF inv1 un ap] False by (auto simp: in_new_block_def context_block_size_def)
  qed
qed

text \<open>
  C14: A context created on the heap is well formed in the same way, for any number of
  properties below \<open>2^32\<close> and any parent.  One block is requested, of the size of the header, the
  entries and the values.  When \<open>malloc\<close> returns \<open>NULL\<close>, the handle is \<open>NULL\<close>, one line is printed
  and nothing changes.  When it returns a block, the handle is this block, nothing is printed,
  the context holds the struct with the parent's tree and the arguments, its values are the
  last bytes of the block, and no byte outside the block changes.
\<close>
theorem create_context:
  assumes "allocates malloc" "handle_inv P m parent ts" "arguments E fds w xs" "shape P us xs" "length us = length xs"
    and "cnt = log_context_get_property_value_pair_count parent + 1 + length xs"
    and "len = internal_log_context_get_values_data_length_or_zero parent + 1 + w" "cnt < 2 ^ 32" "len < 2 ^ 32"
    and "length ts + length us < 256" "int (length (rename_context '''' fds)) + 3 \<le> INT_MAX"
    and "malloc (context_block_size cnt len) m = (p, m1)"
  shows "if p = NULL then LOG_CONTEXT_CREATE E malloc parent fds m = Some (None, [create_failed cnt len], m)
     else \<exists>C m'. LOG_CONTEXT_CREATE E malloc parent fds m = Some (Some (p, C), [], m') \<and>
       context_inv P m' C (Struct (rename_context '''' fds) (ts @ us)) \<and> handle_inv P m' parent ts \<and>
       property_value_pair_count C = cnt \<and> values_data_length C = len \<and>
       p < values_data C \<and> values_data C + len = p + context_block_size cnt len \<and>
       unchanged m m' p (context_block_size cnt len) \<and> (\<forall>a. m a \<noteq> None \<longrightarrow> m' a = m a)"
proof (cases "p = NULL")
  case False
  with create_builds [OF assms] obtain C m' where "LOG_CONTEXT_CREATE E malloc parent fds m = Some (Some (p, C), [], m')"
    "context_inv P m' C (Struct (rename_context '''' fds) (ts @ us))" "handle_inv P m' parent ts" "in_new_block m m' p C cnt len"
    by auto
  with False new_block_keeps [of m m' p "context_block_size cnt len"] show ?thesis
    by (auto simp: in_new_block_def new_block_def context_block_size_def sizeof_LOG_CONTEXT_def)
qed (use create_builds [OF assms] in simp)


section \<open>Printing a context\<close>

lemma context_inv_prints:
  assumes "context_inv prints_anywhere m C t" "conforming E"
    and "buffer \<noteq> NULL" "0 < n" "int n \<le> INT_MAX" "accessible m buffer n" "apart (Some C) buffer n"
  shows "log_context_property_to_string E buffer n (log_context_get_property_value_pairs (Some C))
           (log_context_get_property_value_pair_count (Some C)) m =
         Some (int (min (length (render [t])) n), [], put_cstr m buffer n (render [t]))"
proof -
  let ?k = "property_value_pair_count C"
  let ?ps = "property_value_pairs_ptr C"
  let ?A = "{values_data C..<values_data C + values_data_length C}"
  from assms(1) obtain xs where "shape prints_anywhere [t] xs"
    "stored m (values_data C) (values_data C + values_data_length C) (take ?k ?ps) xs"
    and k: "?k \<le> length ?ps" "0 < values_data C" by (auto simp: context_inv_def)
  then have r: "represents m ?A [t] (take ?k ?ps)" by (intro shape_represents)
  have ok: "buffer_ok ?A 0 buffer n m"
    using assms(3-7) by (auto simp: buffer_ok_def apart_def)
  have "log_n_properties_loop E ?ps ?k 0 0 0 0 buffer n m =
      Some (0 + int (advance n (render [t])), 0 + length (take ?k ?ps), [], after_fields [t] m buffer n)"
    by (rule loop_renders [OF r assms(2) _ ok, where suf = "drop ?k ?ps"]) (use k in auto)
  then show ?thesis
    using assms(3,4) context_inv_count [OF assms(1)]
    by (simp add: log_context_property_to_string_def log_n_properties_def after_fields_def advance_def
        log_context_get_property_value_pairs_def log_context_get_property_value_pair_count_def)
qed

lemma context_inv_safe:
  assumes "context_inv safe_anywhere m C t"
    and "buffer \<noteq> NULL" "int n \<le> INT_MAX" "accessible m buffer n" "apart (Some C) buffer n"
  shows "\<exists>r m'. log_context_property_to_string E buffer n (log_context_get_property_value_pairs (Some C))
           (log_context_get_property_value_pair_count (Some C)) m = Some (r, [], m') \<and>
         - 1 \<le> r \<and> r \<le> int n \<and> unchanged m m' buffer n \<and> keeps_accessible m m'"
proof -
  let ?k = "property_value_pair_count C"
  let ?ps = "property_value_pairs_ptr C"
  let ?A = "{values_data C..<values_data C + values_data_length C}"
  from assms(1) obtain xs where "shape safe_anywhere [t] xs"
    "stored m (values_data C) (values_data C + values_data_length C) (take ?k ?ps) xs"
    and k: "?k \<le> length ?ps" "0 < values_data C" by (auto simp: context_inv_def)
  then have r: "layout m ?A (length [t]) (take ?k ?ps)" by (intro shape_layout)
  have ok: "safe_buffer ?A 0 buffer n m"
    using assms(2-5) by (auto simp: safe_buffer_def apart_def)
  have "safe_result 0 buffer n m (0 + length (take ?k ?ps)) (log_n_properties_loop E ?ps ?k 0 0 0 0 buffer n m)"
    by (rule loop_safe [OF r _ ok, where suf = "drop ?k ?ps"]) (use k in auto)
  then show ?thesis
    by (auto simp: log_context_property_to_string_def log_n_properties_def safe_result_def
        log_context_get_property_value_pairs_def log_context_get_property_value_pair_count_def)
qed

text \<open>How the values of the provided types print, wherever a context places them.\<close>

lemma field_copies:
  "copies (basic_log_context_property_type E t) (encode_basic t z)"
  "copies (bool_log_context_property_type E) (encode_bool b)"
  "NUL \<notin> set s \<Longrightarrow> copies (ascii_char_ptr_log_context_property_type E) (s @ [NUL])"
  "wide E ws \<Longrightarrow> copies (wchar_t_ptr_log_context_property_type E) (wcs_bytes E ws)"
  by (auto simp: copies_def basic_log_context_property_type_def basic_log_context_property_type_copy_def
      bool_log_context_property_type_def bool_log_context_property_type_copy_def
      ascii_char_ptr_log_context_property_type_def ascii_char_ptr_log_context_property_type_copy_def c_str_at
      wchar_t_ptr_log_context_property_type_def wchar_t_ptr_log_context_property_type_copy_def
      wcscpy_def c_wcs_at mem_simps)

context c_library
begin

lemma basic_prints: "in_basic t z \<Longrightarrow> prints_anywhere (basic_log_context_property_type E t) (encode_basic t z) (show_int z)"
  by (simp add: prints_anywhere_def basic.prints_stored)

lemma bool_prints: "prints_anywhere (bool_log_context_property_type E) (encode_bool b) (MU_BOOL_VALUE E b)"
  by (simp add: prints_anywhere_def bool.prints_stored)

lemma ascii_prints: "valid_string s \<Longrightarrow> prints_anywhere (ascii_char_ptr_log_context_property_type E) (s @ [NUL]) s"
  by (simp add: prints_anywhere_def ascii.prints_stored)

end

lemma field_safe_anywhere:
  "safe_anywhere (basic_log_context_property_type E t) (encode_basic t z) s"
  "safe_anywhere (bool_log_context_property_type E) (encode_bool b) s"
  "NUL \<notin> set txt \<Longrightarrow> safe_anywhere (ascii_char_ptr_log_context_property_type E) (txt @ [NUL]) s"
  "wide E ws \<Longrightarrow> safe_anywhere (wchar_t_ptr_log_context_property_type E) (wcs_bytes E ws) s"
  by (simp_all add: safe_anywhere_def safe_basic.safe_stored safe_bool.safe_stored safe_ascii.safe_stored
      safe_wchar.safe_stored)


text \<open>
  The arguments whose text is known: \<open>plain_argument\<close> says which these are, and
  \<open>field_trees\<close> what they print as.
\<close>

definition short_name :: "string \<Rightarrow> bool" where
  "short_name nm = (int (length nm) + 3 \<le> INT_MAX)"

fun plain_argument :: "c_env \<Rightarrow> field_desc \<Rightarrow> bool" where
  "plain_argument E (LOG_MESSAGE f args) = True"
| "plain_argument E (LOG_CONTEXT_NAME nm) = short_name nm"
| "plain_argument E (LOG_CONTEXT_STRING_PROPERTY nm f args) =
     (short_name nm \<and> (case fmt E f args of None \<Rightarrow> False | Some s \<Rightarrow> valid_string s \<and> int (length s) < INT_MAX))"
| "plain_argument E (LOG_CONTEXT_PROPERTY (Basic t z) nm) = (short_name nm \<and> in_basic t z)"
| "plain_argument E (LOG_CONTEXT_PROPERTY (Bool b) nm) = short_name nm"
| "plain_argument E (LOG_CONTEXT_WSTRING_PROPERTY nm f args) = False"
| "plain_argument E (LOG_CONTEXT_PROPERTY_CUSTOM_FUNCTION T nm vf) = False"

fun field_tree :: "c_env \<Rightarrow> field_desc \<Rightarrow> ptree list" where
  "field_tree E (LOG_CONTEXT_STRING_PROPERTY nm f args) = [Field nm (the (fmt E f args))]"
| "field_tree E (LOG_CONTEXT_PROPERTY (Basic t z) nm) = [Field nm (show_int z)]"
| "field_tree E (LOG_CONTEXT_PROPERTY (Bool b) nm) = [Field nm (MU_BOOL_VALUE E b)]"
| "field_tree E _ = []"

definition field_trees :: "c_env \<Rightarrow> field_desc list \<Rightarrow> ptree list" where
  "field_trees E fds = concat (map (field_tree E) fds)"

lemma shape_one:
  "get_type T \<noteq> LOG_CONTEXT_PROPERTY_TYPE_struct \<Longrightarrow> P T bs s \<Longrightarrow> copies T bs \<Longrightarrow> short_name nm \<Longrightarrow>
   shape P [Field nm s] [(nm, T, bs)]"
  by (auto simp: short_name_def intro: shape.intros)

context c_library
begin

lemma plain_one:
  assumes "plain_argument E fd"
  shows "\<exists>w xs. argument E fd w xs \<and> shape prints_anywhere (field_tree E fd) xs \<and> length (field_tree E fd) = length xs"
proof (cases fd)
  case (LOG_MESSAGE f args)
  then show ?thesis by (auto intro: argument.intros shape.intros)
next
  case (LOG_CONTEXT_STRING_PROPERTY nm f args)
  with assms obtain s where s: "fmt E f args = Some s" "valid_string s" "int (length s) < INT_MAX" "short_name nm"
    by (auto split: option.splits)
  then have "shape prints_anywhere [Field nm s] [(nm, ascii_char_ptr_log_context_property_type E, s @ [NUL])]"
    by (intro shape_one ascii_prints field_copies) (auto simp: valid_string_def)
  with s argument.string [OF s(1,3), of nm] show ?thesis
    unfolding LOG_CONTEXT_STRING_PROPERTY by (intro exI conjI) auto
next
  case (LOG_CONTEXT_NAME nm)
  then show ?thesis by (auto intro: argument.intros shape.intros)
next
  case (LOG_CONTEXT_PROPERTY v nm)
  show ?thesis
  proof (cases v)
    case (Basic t z)
    with assms LOG_CONTEXT_PROPERTY
    have "shape prints_anywhere [Field nm (show_int z)] [(nm, basic_log_context_property_type E t, encode_basic t z)]"
      by (intro shape_one basic_prints field_copies) auto
    then show ?thesis
      unfolding LOG_CONTEXT_PROPERTY Basic using argument.basic [of E t z nm] by (intro exI conjI) auto
  next
    case (Bool b)
    with assms LOG_CONTEXT_PROPERTY
    have "shape prints_anywhere [Field nm (MU_BOOL_VALUE E b)] [(nm, bool_log_context_property_type E, encode_bool b)]"
      by (intro shape_one bool_prints field_copies) auto
    then show ?thesis
      unfolding LOG_CONTEXT_PROPERTY Bool using argument.bool [of E b nm] by (intro exI conjI) auto
  qed
qed (use assms in auto)

lemma plain_all:
  "list_all (plain_argument E) fds \<Longrightarrow>
   \<exists>w xs. arguments E fds w xs \<and> shape prints_anywhere (field_trees E fds) xs \<and> length (field_trees E fds) = length xs"
proof (induction fds)
  case Nil
  show ?case by (auto simp: field_trees_def intro: arguments.none shape.empty)
next
  case (Cons fd fds)
  then obtain w xs where xs: "arguments E fds w xs" "shape prints_anywhere (field_trees E fds) xs"
    "length (field_trees E fds) = length xs" by auto
  obtain v ys where ys: "argument E fd v ys" "shape prints_anywhere (field_tree E fd) ys"
    "length (field_tree E fd) = length ys" using plain_one [of fd] Cons.prems by auto
  have "arguments E (fd # fds) (v + w) (ys @ xs)" using xs ys by (intro arguments.more)
  moreover have t: "field_trees E (fd # fds) = field_tree E fd @ field_trees E fds" by (simp add: field_trees_def)
  moreover have "shape prints_anywhere (field_trees E (fd # fds)) (ys @ xs)"
    unfolding t using xs ys by (intro shape_append)
  ultimately show ?case using xs ys by (intro exI [of _ "v + w"] exI [of _ "ys @ xs"]) simp
qed

end

text \<open>
  C33: A context that overflowed (no entries, but not \<open>NULL\<close>) must not be used as a parent:
  a context defined on top of it announces one field more than it stores, and printing it
  reads an entry that was never initialised.
\<close>
theorem overflowed_parent_undefined:
  assumes "c_library E" "list_all (plain_argument E) fds" "count_data_bytes E fds m = Some (n, m)"
    and "property_value_pair_count parent = 0" "values_data_length parent = 0"
    and "count_properties fds < 64" "n + 1 \<le> 4096" "short_name (rename_context '''' fds)"
    and "0 < frame" "accessible m frame 4096"
    and "buffer \<noteq> NULL" "0 < sz" "int sz \<le> INT_MAX" "accessible m buffer sz"
      "frame + 4096 \<le> buffer \<or> buffer + sz \<le> frame"
  shows "\<exists>C m'. LOG_CONTEXT_LOCAL_DEFINE E ab frame (Some parent) fds m = Inr (C, [], m') \<and>
     log_context_property_to_string E buffer sz (log_context_get_property_value_pairs (Some C))
       (log_context_get_property_value_pair_count (Some C)) m' = None"
proof -
  obtain w xs where xs: "arguments E fds w xs" "shape prints_anywhere (field_trees E fds) xs"
    "length (field_trees E fds) = length xs"
    using c_library.plain_all [OF assms(1,2)] by blast
  have n: "n = int w" using assms(3) data_bytes_all [OF xs(1), of m] by simp
  have k: "count_properties fds = length xs" by (rule count_all [OF xs(1)])
  let ?len = "1 + w"
  let ?dest = "\<lparr>values_data = frame, values_data_length = ?len, property_value_pairs_ptr = replicate 64 None,
    property_value_pair_count = 1 + length xs\<rparr>"
  define root where "root = \<lparr>name = rename_context '''' fds, value_ptr = frame, type_if = struct_log_context_property_type E\<rparr>"

  have len: "to_uint32 (1 + int w) = ?len" "context_count (Some parent) fds = 1 + length xs"
    using assms(4,6,7) n k by (auto simp: to_uint32_id context_count_def nat_add_distrib
        log_context_get_property_value_pair_count_def)
  have init: "internal_log_context_init_from_parent E ?dest (Some parent) m = Some (0, ?dest, [], m)"
    using assms(4) by (simp add: internal_log_context_init_from_parent_def init_from_parent_loop.simps)
  have acc: "accessible m frame (1 + 0 + w)"
    by (rule accessible_sub [OF assms(10)]) (use assms(7) n in auto)
  have "replicate 64 None = None # [] @ replicate 63 (None :: LOG_CONTEXT_PROPERTY_VALUE_PAIR option)"
    by (simp add: numeral_eq_Suc)
  then obtain rs m1 where fill: "fill_context E ?dest (Some parent) fds m = Some (?dest\<lparr>property_value_pairs_ptr :=
      Some root # rs @ replicate (63 - length xs) None\<rparr>, [], m1)"
    and rs: "stored m1 (frame + 1) (frame + 1 + w) rs xs"
    and m1: "unchanged (put_bytes m frame [char_of (1 + length xs)]) m1 (frame + 1) w"
      "keeps_accessible (put_bytes m frame [char_of (1 + length xs)]) m1"
    using fill_eq [OF xs(1), of 0 "Some parent" 0 ?dest frame "[]" 63 m] acc assms(4-6) k
    by (auto simp: internal_log_context_get_values_data_length_or_zero_def root_def
        log_context_get_property_value_pair_count_def to_uint8_id nat_add_distrib)
  let ?ps = "Some root # rs @ replicate (63 - length xs) None"
  let ?C = "?dest\<lparr>property_value_pairs_ptr := ?ps\<rparr>"
  from fill have def: "LOG_CONTEXT_LOCAL_DEFINE E ab frame (Some parent) fds m = Inr (?C, [], m1)"
    using assms(4-7) n k init
    by (simp add: LOG_CONTEXT_LOCAL_DEFINE_def assms(3) Let_def defined_def len
        internal_log_context_get_values_data_length_or_zero_def
        LOG_MAX_STACK_PROPERTY_VALUE_PAIR_COUNT_def LOG_MAX_STACK_DATA_SIZE_def)
  let ?A = "{frame..<frame + 4096}"
  have rep: "represents m1 ?A (field_trees E fds) rs"
    by (rule represents_mono [OF shape_represents [OF xs(2) rs]]) (use assms(7) n in auto)
  have root: "m1 frame = Some (char_of (1 + length xs))" using m1(1) by (auto simp: unchanged_def put_bytes_def)
  have keeps: "keeps_accessible m m1" by (rule keeps_accessible_trans [OF keeps_accessible_put m1(2)])
  have E: "conforming E" using assms(1) by (simp add: c_library_def)
  have ok: "buffer_ok ?A 0 buffer sz m1" using assms(11-15) keeps_accessibleD [OF keeps] by (auto simp: buffer_ok_def)
  define suf :: pairs where "suf = replicate (63 - length xs) None"
  have junk: "suf = [] \<or> hd suf = None" by (cases "63 - length xs") (auto simp: suf_def)
  have "log_n_properties_loop E ?ps (1 + length xs) 0 0 0 0 buffer sz m1 = None"
    by (rule struct_overrun [OF E ok, where pr = root and c = "1 + length xs", OF _ _ _ _ _ _ rep _ junk])
      (use root assms(6,8) k xs(3) stored_length [OF rs] in \<open>auto simp: root_def short_name_def read_pair_def suf_def\<close>)
  with def assms(11,12) show ?thesis
    by (simp add: log_context_property_to_string_def log_n_properties_def
        log_context_get_property_value_pairs_def log_context_get_property_value_pair_count_def)
qed


text \<open>
  C34: A wide string argument that does not format (or is too long) makes a heap context too
  small: its negative size is added to the size of the data, so that a property after it is
  stored behind the end of the allocated block.
\<close>
theorem create_wide_undersized:
  assumes "vswprintf_result E LOG_MAX_WCHAR_STRING_LENGTH f args < 0" "sizeof_wchar_t E = 4"
    and "malloc (context_block_size 3 1) m = (p, m1)" "p \<noteq> NULL" "accessible m1 p (context_block_size 3 1)"
    and "m1 (p + context_block_size 3 1) = None"
  shows "LOG_CONTEXT_CREATE E malloc None
     [LOG_CONTEXT_WSTRING_PROPERTY nm f args, LOG_CONTEXT_PROPERTY (Basic int32_t z) nm'] m = None"
proof -
  let ?d = "p + sizeof_LOG_CONTEXT + sizeof_LOG_CONTEXT_PROPERTY_VALUE_PAIR * 3"
  have end_d: "p + context_block_size 3 1 = ?d + 1" by (simp add: context_block_size_def)
  have r: "vswprintf_result E LOG_MAX_WCHAR_STRING_LENGTH f args = - 1"
    using assms(1) by (auto simp: vswprintf_result_def split: option.splits if_splits)
  have "to_int (int (to_size_t (- 4))) = - 4" by (rule to_int_to_size_t) auto
  then have "wchar_t_ptr_log_context_property_type_get_init_data_size E f args = - 4"
    by (simp add: wchar_t_ptr_log_context_property_type_get_init_data_size_def r assms(2) Let_def)
  then have n: "count_data_bytes E [LOG_CONTEXT_WSTRING_PROPERTY nm f args, LOG_CONTEXT_PROPERTY (Basic int32_t z) nm'] m =
      Some (0, m)"
    by (simp add: basic_log_context_property_type_get_init_data_size_def c_arith)
  have "accessible m1 ?d 1"
    by (rule accessible_sub [OF assms(5)]) (simp_all add: context_block_size_def)
  then have st: "store_bytes m1 ?d [c] = Some (put_bytes m1 ?d [c])" for c by (simp add: store_bytes_def)
  have "\<not> accessible (put_bytes m1 ?d [c]) (Suc ?d) 4" for c
    using assms(6) unfolding end_d accessible_iff
    by (auto simp: put_bytes_def intro!: exI [of _ 0])
  then have bad: "store_bytes (put_bytes m1 ?d [c]) (Suc ?d) (encode_basic int32_t z) = None" for c
    by (simp add: store_bytes_def)
  let ?C = "\<lparr>values_data = ?d, values_data_length = 1, property_value_pairs_ptr = replicate 3 None,
    property_value_pair_count = 3\<rparr>"
  let ?fds = "[LOG_CONTEXT_WSTRING_PROPERTY nm f args, LOG_CONTEXT_PROPERTY (Basic int32_t z) nm']"
  have cr: "log_context_create E malloc None 3 1 m = Some (Some (p, ?C), [], m1)"
    unfolding log_context_create_def assms(3) using assms(4)
    by (simp add: internal_log_context_init_from_parent_def)
  have cnt: "context_count None ?fds = 3"
    by (simp add: context_count_def log_context_get_property_value_pair_count_def count_properties_def to_uint32_def)
  have three: "replicate 3 x = [x, x, x]" for x :: "LOG_CONTEXT_PROPERTY_VALUE_PAIR option"
    by (simp add: numeral_eq_Suc)
  have fill: "fill_context E ?C None ?fds m1 = None"
    by (simp add: fill_context_def st write_pair_def three vswprintf_def r assms(2) to_size_t_def
        log_context_get_property_value_pair_count_def internal_log_context_get_values_data_length_or_zero_def
        basic_log_context_property_type_init_def bad)
  show ?thesis
    unfolding LOG_CONTEXT_CREATE_def n cnt
    by (simp add: internal_log_context_get_values_data_length_or_zero_def to_uint32_def cr [simplified] fill [simplified])
qed


section \<open>Witnesses\<close>

definition demo_stack :: mem where
  "demo_stack = put_bytes (\<lambda>_. None) 1000 (replicate 16384 NUL)"

definition demo_args :: "field_desc list" where
  "demo_args = [LOG_CONTEXT_NAME ''ctx'', LOG_CONTEXT_PROPERTY (Basic int32_t (- 5)) ''a'',
     LOG_CONTEXT_STRING_PROPERTY ''s'' ''%s'' [AStr ''hi'']]"

lemma demo_stack_accessible: "1000 \<le> p \<Longrightarrow> p + n \<le> 17384 \<Longrightarrow> accessible demo_stack p n"
  by (auto simp: demo_stack_def accessible_iff put_bytes_def)

lemma demo_args_plain: "list_all (plain_argument std_env) demo_args"
  by (simp add: demo_args_def short_name_def INT_MAX_def in_basic_def)
    (simp add: std_env_def INT_MAX_def valid_string_def)

lemma demo_args_bytes: "count_data_bytes std_env demo_args m = Some (7, m)"
  by (simp add: demo_args_def basic_log_context_property_type_get_init_data_size_def c_arith
      ascii_char_ptr_log_context_property_type_get_init_data_size_def vsnprintf_def INT_MAX_def)
    (simp add: std_env_def c_arith INT_MAX_def)

lemma demo_args_count: "count_properties demo_args = 2" "rename_context '''' demo_args = ''ctx''"
  by (simp_all add: demo_args_def count_properties_def)

lemma demo_args_trees: "field_trees std_env demo_args = [Field ''a'' ''-5'', Field ''s'' ''hi'']"
proof -
  have "show_int (- 5) = ''-5''" by code_simp
  then show ?thesis by (simp add: demo_args_def field_trees_def std_env_def)
qed

lemma demo_args_items:
  "\<exists>w xs. arguments std_env demo_args w xs \<and> shape prints_anywhere [Field ''a'' ''-5'', Field ''s'' ''hi''] xs \<and>
     length xs = 2 \<and> w = 7"
proof -
  obtain w xs where "arguments std_env demo_args w xs" "shape prints_anywhere (field_trees std_env demo_args) xs"
    "length (field_trees std_env demo_args) = length xs"
    using std.plain_all [OF demo_args_plain] by blast
  with data_bytes_all [of std_env demo_args w xs] demo_args_bytes show ?thesis
    by (intro exI [of _ w] exI [of _ xs]) (auto simp: demo_args_trees)
qed

theorem local_define_context_witness:
  "\<exists>C m'. LOG_CONTEXT_LOCAL_DEFINE std_env False 1000 None demo_args demo_stack = Inr (C, [], m') \<and>
     context_inv prints_anywhere m' C (Struct ''ctx'' [Field ''a'' ''-5'', Field ''s'' ''hi''])"
proof -
  obtain w xs where xs: "arguments std_env demo_args w xs" "shape prints_anywhere [Field ''a'' ''-5'', Field ''s'' ''hi''] xs"
    "length xs = 2" "w = 7" using demo_args_items by blast
  have h: "handle_inv prints_anywhere demo_stack None []" by (simp add: handle_inv_def)
  have a: "accessible demo_stack 1000 4096" by (rule demo_stack_accessible) simp_all
  have "\<exists>C m'. LOG_CONTEXT_LOCAL_DEFINE std_env False 1000 None demo_args demo_stack = Inr (C, [], m') \<and>
      context_inv prints_anywhere m' C (Struct (rename_context '''' demo_args) ([] @ [Field ''a'' ''-5'', Field ''s'' ''hi''])) \<and>
      values_data C = 1000 \<and> unchanged demo_stack m' 1000 4096 \<and> keeps_accessible demo_stack m' \<and>
      handle_inv prints_anywhere m' None []"
    by (rule local_define_context [OF h xs(1,2) _ _ _ _ a])
      (use xs in \<open>auto simp: log_context_get_property_value_pair_count_def demo_args_count INT_MAX_def apart_def
        internal_log_context_get_values_data_length_or_zero_def\<close>)
  then show ?thesis by (auto simp: demo_args_count)
qed

theorem local_define_overflow_witness:
  "\<exists>line. LOG_CONTEXT_LOCAL_DEFINE std_env True 1000
     (Some \<lparr>values_data = 9000, values_data_length = 4090, property_value_pairs_ptr = [], property_value_pair_count = 0\<rparr>)
     demo_args demo_stack = Inl (Aborted [line]) \<and>
   LOG_CONTEXT_LOCAL_DEFINE std_env False 1000
     (Some \<lparr>values_data = 9000, values_data_length = 4090, property_value_pairs_ptr = [], property_value_pair_count = 0\<rparr>)
     demo_args demo_stack =
     Inr (\<lparr>values_data = 1000, values_data_length = 0, property_value_pairs_ptr = replicate 64 None,
           property_value_pair_count = 0\<rparr>, [line], demo_stack)"
proof -
  obtain w xs where xs: "arguments std_env demo_args w xs" "length xs = 2" "w = 7"
    using demo_args_items by blast
  show ?thesis
    by (rule local_define_overflow [OF xs(1)])
      (simp_all add: xs log_context_get_property_value_pair_count_def internal_log_context_get_values_data_length_or_zero_def)
qed

definition demo_malloc :: "nat \<Rightarrow> mem \<Rightarrow> addr \<times> mem" where
  "demo_malloc n m = (if list_all (\<lambda>i. m (50000 + i) = None) [0..<n] then (50000, put_bytes m 50000 (replicate n NUL))
     else (NULL, m))"

lemma demo_malloc_allocates: "allocates demo_malloc"
  unfolding allocates_def demo_malloc_def
proof (intro allI impI)
  fix n m p m'
  assume a: "(if list_all (\<lambda>i. m (50000 + i) = None) [0..<n] then (50000, put_bytes m 50000 (replicate n NUL))
      else (NULL, m)) = (p, m')"
  show "if p = NULL then m' = m
      else (\<forall>a. p \<le> a \<and> a < p + n \<longrightarrow> m a = None) \<and> accessible m' p n \<and> unchanged m m' p n"
  proof (cases "list_all (\<lambda>i. m (50000 + i) = None) [0..<n]")
    case True
    then have "m x = None" if "50000 \<le> x" "x < 50000 + n" for x
      using that by (auto simp: list_all_iff dest!: bspec [of _ _ "x - 50000"])
    with True a show ?thesis
      by (auto simp: accessible_iff put_bytes_def unchanged_def)
  qed (use a in auto)
qed

theorem create_context_witness:
  "\<exists>C m'. LOG_CONTEXT_CREATE std_env demo_malloc None demo_args demo_stack = Some (Some (50000, C), [], m') \<and>
     context_inv prints_anywhere m' C (Struct ''ctx'' [Field ''a'' ''-5'', Field ''s'' ''hi'']) \<and>
     values_data C = 50104 \<and> values_data_length C = 8 \<and> unchanged demo_stack m' 50000 112"
proof -
  obtain w xs where xs: "arguments std_env demo_args w xs" "shape prints_anywhere [Field ''a'' ''-5'', Field ''s'' ''hi''] xs"
    "length xs = 2" "w = 7" using demo_args_items by blast
  have h: "handle_inv prints_anywhere demo_stack None []" by (simp add: handle_inv_def)
  have n: "context_block_size 3 8 = 112"
    by (simp add: context_block_size_def sizeof_LOG_CONTEXT_def sizeof_LOG_CONTEXT_PROPERTY_VALUE_PAIR_def)
  have m: "demo_malloc (context_block_size 3 8) demo_stack = (50000, put_bytes demo_stack 50000 (replicate 112 NUL))"
    by (simp add: n demo_malloc_def list_all_iff demo_stack_def put_bytes_def)
  show ?thesis
    using create_context [OF demo_malloc_allocates h xs(1,2) _ _ _ _ _ _ _ m]
    by (auto simp: xs n log_context_get_property_value_pair_count_def demo_args_count INT_MAX_def
        internal_log_context_get_values_data_length_or_zero_def)
qed


theorem overflowed_parent_undefined_witness:
  "\<exists>C m'. LOG_CONTEXT_LOCAL_DEFINE std_env False 1000
       (Some \<lparr>values_data = 9000, values_data_length = 0, property_value_pairs_ptr = replicate 64 None,
              property_value_pair_count = 0\<rparr>) demo_args demo_stack = Inr (C, [], m') \<and>
     log_context_property_to_string std_env 6000 256 (log_context_get_property_value_pairs (Some C))
       (log_context_get_property_value_pair_count (Some C)) m' = None"
  by (rule overflowed_parent_undefined [OF std.c_library_axioms demo_args_plain demo_args_bytes])
    (simp_all add: demo_args_count short_name_def INT_MAX_def demo_stack_accessible)

theorem create_wide_undersized_witness:
  "LOG_CONTEXT_CREATE std_env demo_malloc None
     [LOG_CONTEXT_WSTRING_PROPERTY ''w'' [37] [AInt 1], LOG_CONTEXT_PROPERTY (Basic int32_t 7) ''x''] demo_stack = None"
proof -
  let ?m = "put_bytes demo_stack 50000 (replicate (context_block_size 3 1) NUL)"
  have n: "context_block_size 3 1 = 105"
    by (simp add: context_block_size_def sizeof_LOG_CONTEXT_def sizeof_LOG_CONTEXT_PROPERTY_VALUE_PAIR_def)
  have m: "demo_malloc (context_block_size 3 1) demo_stack = (50000, ?m)"
    by (simp add: demo_malloc_def list_all_iff demo_stack_def put_bytes_def)
  show ?thesis
    by (rule create_wide_undersized [where malloc = demo_malloc, OF _ _ m])
      (simp_all add: n std_env_def vswprintf_result_def accessible_iff put_bytes_def demo_stack_def)
qed

end
