(* ===== verification/Log_Sink.thy ===== *)
theory Log_Sink
  imports Log_Context
begin

text \<open>
  \<open>log_level.h\<close>, \<open>log_sink_if.h\<close> and what the console sink and the callback sink share:
  both build their line in a buffer of \<open>LOG_MAX_MESSAGE_LENGTH\<close> bytes on the stack, first a
  header, then the properties of the context, then a space and the message.
\<close>

section \<open>Levels\<close>

text \<open>A level is any value of the underlying integer type of the enumeration.\<close>

datatype LOG_LEVEL = LOG_LEVEL (level_value: int)

definition LOG_LEVEL_CRITICAL :: LOG_LEVEL where "LOG_LEVEL_CRITICAL = LOG_LEVEL 0"
definition LOG_LEVEL_ERROR :: LOG_LEVEL where "LOG_LEVEL_ERROR = LOG_LEVEL 1"
definition LOG_LEVEL_WARNING :: LOG_LEVEL where "LOG_LEVEL_WARNING = LOG_LEVEL 2"
definition LOG_LEVEL_INFO :: LOG_LEVEL where "LOG_LEVEL_INFO = LOG_LEVEL 3"
definition LOG_LEVEL_VERBOSE :: LOG_LEVEL where "LOG_LEVEL_VERBOSE = LOG_LEVEL 4"

instantiation LOG_LEVEL :: linorder
begin

definition less_eq_LOG_LEVEL :: "LOG_LEVEL \<Rightarrow> LOG_LEVEL \<Rightarrow> bool" where
  "less_eq_LOG_LEVEL a b = (level_value a \<le> level_value b)"

definition less_LOG_LEVEL :: "LOG_LEVEL \<Rightarrow> LOG_LEVEL \<Rightarrow> bool" where
  "less_LOG_LEVEL a b = (level_value a < level_value b)"

instance
  by standard (auto simp: less_eq_LOG_LEVEL_def less_LOG_LEVEL_def LOG_LEVEL.expand)

end

definition LOG_LEVEL_VALUES :: "LOG_LEVEL list" where
  "LOG_LEVEL_VALUES = [LOG_LEVEL_CRITICAL, LOG_LEVEL_ERROR, LOG_LEVEL_WARNING, LOG_LEVEL_INFO, LOG_LEVEL_VERBOSE]"

section \<open>The interface of a sink\<close>

text \<open>
  A sink acts on a world of type \<open>'w\<close>; \<open>init\<close> and \<open>log\<close> give \<^term>\<open>None\<close> when the sink's code has
  undefined behaviour.  The arguments are those of the function pointers of the source:
  level, context, file, function, line, format and the arguments of the format.
\<close>

record 'w LOG_SINK_IF =
  sink_init :: "'w \<Rightarrow> (int \<times> 'w) option"
  sink_log :: "LOG_LEVEL \<Rightarrow> LOG_CONTEXT_HANDLE \<Rightarrow> string option \<Rightarrow> string option \<Rightarrow> int \<Rightarrow> string option \<Rightarrow>
     carg list \<Rightarrow> 'w \<Rightarrow> 'w option"
  sink_deinit :: "'w \<Rightarrow> 'w"

section \<open>Building a line\<close>

definition LOG_MAX_MESSAGE_LENGTH :: nat where
  "LOG_MAX_MESSAGE_LENGTH = 4096"

text \<open>
  What a sink's \<open>log\<close> runs in: the libraries, the clock, the address of its buffer \<open>temp\<close> and
  the addresses of the contexts (only printed in diagnostics).
\<close>

record sink_env =
  lib :: c_env
  time :: int
  ctime :: "int \<Rightarrow> string option"
  temp :: addr
  context_address :: "LOG_CONTEXT_HANDLE \<Rightarrow> addr"

definition ctime_result :: "sink_env \<Rightarrow> string option" where
  "ctime_result S = (if time S = - 1 then None else ctime S (time S))"

definition advance_buffer :: "addr \<Rightarrow> nat \<Rightarrow> int \<Rightarrow> addr \<times> nat" where
  "advance_buffer buffer buffer_size r =
     (let n = c_MIN r (to_int (int buffer_size)) in (nat (int buffer + n), to_size_t (int buffer_size - n)))"

text \<open>
  The properties of the context: whether an error occurred, the buffer, what is left of it, and
  what the types printed.
\<close>

definition append_context ::
    "c_env \<Rightarrow> LOG_CONTEXT_HANDLE \<Rightarrow> addr \<Rightarrow> nat \<Rightarrow> mem \<Rightarrow> (bool \<times> addr \<times> nat \<times> stdout_call list \<times> mem) option" where
  "append_context E log_context buffer buffer_size m =
     (if log_context = None then Some (False, buffer, buffer_size, [], m)
      else do {
        (log_n_properties_result, out, m') \<leftarrow> log_context_property_to_string E buffer buffer_size
           (log_context_get_property_value_pairs log_context) (log_context_get_property_value_pair_count log_context) m;
        if log_n_properties_result < 0 then Some (True, buffer, buffer_size, out, m')
        else (case advance_buffer buffer buffer_size log_n_properties_result of
                (b, n) \<Rightarrow> Some (False, b, n, out, m')) })"

text \<open>The space and the message: whether an error occurred.\<close>

definition append_message ::
    "c_env \<Rightarrow> addr \<Rightarrow> nat \<Rightarrow> string \<Rightarrow> carg list \<Rightarrow> mem \<Rightarrow> (bool \<times> mem) option" where
  "append_message E buffer buffer_size message_format args m =
     (if 1 < buffer_size then do {
        m1 \<leftarrow> store_bytes m buffer '' '';
        (vsnprintf_result, m2) \<leftarrow> vsnprintf E (buffer + 1) (buffer_size - 1) message_format args m1;
        Some (vsnprintf_result < 0, m2) }
      else Some (False, m))"

definition append_rest ::
    "c_env \<Rightarrow> LOG_CONTEXT_HANDLE \<Rightarrow> string \<Rightarrow> carg list \<Rightarrow> addr \<Rightarrow> nat \<Rightarrow> mem \<Rightarrow>
     (bool \<times> stdout_call list \<times> mem) option" where
  "append_rest E log_context message_format args buffer buffer_size m = do {
     (error, b, n, out, m1) \<leftarrow> append_context E log_context buffer buffer_size m;
     if error then Some (True, out, m1)
     else map_option (\<lambda>(e, m2). (e, out, m2)) (append_message E b n message_format args m1) }"

section \<open>What a line is\<close>

lemma advance_buffer_text:
  "int n \<le> INT_MAX \<Longrightarrow> advance_buffer buf n (int k) = (buf + min k n, n - min k n)"
proof -
  assume "int n \<le> INT_MAX"
  then have "c_MIN (int k) (to_int (int n)) = int (min k n)" by (simp add: c_MIN_min c_arith INT_MAX_def)
  moreover have "to_size_t (int n - int (min k n)) = n - min k n"
    using \<open>int n \<le> INT_MAX\<close> by (subst to_size_t_id) (auto simp: INT_MAX_def)
  ultimately show ?thesis by (simp add: advance_buffer_def Let_def nat_int_add)
qed

lemma append_context_ok:
  assumes "handle_inv prints_anywhere m h ts" "conforming E"
    and "buffer \<noteq> NULL" "h \<noteq> None \<Longrightarrow> 0 < n" "int n \<le> INT_MAX" "accessible m buffer n" "apart h buffer n"
  shows "append_context E h buffer n m =
     Some (False, buffer + advance n (render ts), n - advance n (render ts), [],
           if ts = [] then m else put_cstr m buffer n (render ts))"
proof (cases h)
  case None
  with assms(1) show ?thesis by (simp add: append_context_def handle_inv_def advance_def)
next
  case (Some C)
  with assms(1) obtain t where t: "ts = [t]" "context_inv prints_anywhere m C t" by (auto simp: handle_inv_def)
  have "int (min (length (render [t])) n) \<ge> 0" by simp
  moreover have "min (min (length (render [t])) n) n = advance n (render [t])" by (simp add: advance_def)
  ultimately show ?thesis
    using context_inv_prints [OF t(2) assms(2,3) _ assms(5,6)] assms(4,5,7) Some t
    by (simp add: append_context_def advance_buffer_text del: of_nat_min)
qed

text \<open>
  The message goes after the text \<open>s\<close> already in the buffer; what fits of the whole line
  is in the buffer afterwards, with a terminator.
\<close>

lemma append_message_ok:
  assumes "fmt E f args = Some msg" "int (length msg) \<le> INT_MAX" "accessible m buf n" "0 < n"
  shows "append_message E (buf + advance n s) (n - advance n s) f args (put_cstr m buf n s) =
         Some (False, put_cstr m buf n (s @ '' '' @ msg))"
proof (cases "1 < n - advance n s")
  case True
  then have l: "advance n s = length s" "length s + 1 < n" by (auto simp: advance_def split: if_splits)
  let ?m0 = "put_cstr m buf n s"
  have acc: "accessible ?m0 buf n" by (rule accessible_put_cstr [OF assms(3)])
  have "accessible ?m0 (buf + length s) 1" by (rule accessible_sub [OF acc]) (use l in auto)
  then have st: "store_bytes ?m0 (buf + length s) '' '' = Some (put_bytes ?m0 (buf + length s) '' '')"
    by (simp add: store_bytes_def)
  let ?m1 = "put_bytes ?m0 (buf + length s) '' ''"
  have "accessible ?m1 (buf + length s + 1) (n - length s - 1)"
    by (rule accessible_put, rule accessible_sub [OF acc]) (use l in auto)
  from vsnprintf_ok [OF assms(1,2) this]
  have vs: "vsnprintf E (buf + length s + 1) (n - length s - 1) f args ?m1 =
      Some (int (length msg), put_cstr ?m1 (buf + length s + 1) (n - length s - 1) msg)" .
  have "put_cstr ?m1 (buf + length s + 1) (n - length s - 1) msg = put_cstr m buf n (s @ '' '' @ msg)"
  proof -
    obtain j where j: "n = length s + 2 + j" using l(2) le_Suc_ex [of "length s + 2" n] by auto
    define cs where "cs = take j msg @ [NUL]"
    have "put_cstr ?m1 (buf + length s + 1) (n - length s - 1) msg =
        put_bytes (put_bytes (put_bytes m buf (s @ [NUL])) (buf + length s) '' '') (buf + length s + 1) cs"
      by (simp add: put_cstr_def j cs_def)
    also have "\<dots> = put_bytes (put_bytes m buf (s @ [NUL])) (buf + length s) ('' '' @ cs)"
      by (simp only: put_bytes_append) simp
    also have "\<dots> = put_bytes (put_bytes m buf s) (buf + length s) ('' '' @ cs)"
      by (simp only: put_bytes_append [of m buf s]) (simp add: put_bytes_shadow)
    also have "\<dots> = put_bytes m buf (s @ '' '' @ cs)" by (simp only: put_bytes_append)
    also have "\<dots> = put_cstr m buf n (s @ '' '' @ msg)" by (simp add: put_cstr_def j cs_def)
    finally show ?thesis .
  qed
  with True l st vs show ?thesis by (simp add: append_message_def)
next
  case False
  then have "n - 1 \<le> length s" by (auto simp: advance_def)
  then have "put_cstr m buf n s = put_cstr m buf n (s @ '' '' @ msg)" by (simp add: put_cstr_def)
  with False show ?thesis by (simp add: append_message_def)
qed

lemma keeps_put_cstr: "keeps_accessible m (put_cstr m buf n s)"
  by (simp add: put_cstr_def)

lemma unchanged_put_cstr: "unchanged m (put_cstr m buf n s) buf n"
  by (auto simp: put_cstr_def intro!: unchanged_put)

lemma append_rest_context:
  assumes E: "conforming E" and inv: "handle_inv prints_anywhere m h ts"
    and buf: "buf \<noteq> NULL" "accessible m buf n" "0 < n" "int n \<le> INT_MAX" "apart h buf n"
    and fits: "h \<noteq> None \<Longrightarrow> length H < n"
  shows "append_rest E h f args (buf + advance n H) (n - advance n H) (put_cstr m buf n H) =
         silent (append_message E (buf + advance n (H @ render ts)) (n - advance n (H @ render ts)) f args
           (put_cstr m buf n (H @ render ts)))"
proof -
  let ?m1 = "put_cstr m buf n H"
  have le: "advance n H \<le> n" by (rule advance_le)
  have inv1: "handle_inv prints_anywhere ?m1 h ts"
    by (rule handle_inv_unchanged [OF inv unchanged_put_cstr buf(5)])
  have acc: "accessible ?m1 (buf + advance n H) (n - advance n H)"
    by (rule accessible_sub [OF accessible_put_cstr [OF buf(2)]]) (use le in auto)
  have ap: "apart h (buf + advance n H) (n - advance n H)" by (rule apart_sub [OF buf(5)]) (use le in auto)
  have pos: "0 < n - advance n H" if "h \<noteq> None" using fits [OF that] by (simp add: advance_def)
  have "append_context E h (buf + advance n H) (n - advance n H) ?m1 =
      Some (False, buf + advance n (H @ render ts), n - advance n (H @ render ts), [],
        put_cstr m buf n (H @ render ts))"
    using append_context_ok [OF inv1 E _ pos _ acc ap] buf
    by (cases "ts = []")
      (simp_all add: put_cstr_append advance_append [symmetric] add.assoc [symmetric] advance_def [of _ "[]"])
  then show ?thesis by (simp add: append_rest_def silent_def)
qed

lemma append_rest_ok:
  assumes "conforming E" "handle_inv prints_anywhere m h ts"
    and msg: "fmt E f args = Some msg" "int (length msg) \<le> INT_MAX"
    and buf: "buf \<noteq> NULL" "accessible m buf n" "0 < n" "int n \<le> INT_MAX" "apart h buf n"
    and "h \<noteq> None \<Longrightarrow> length H < n"
  shows "append_rest E h f args (buf + advance n H) (n - advance n H) (put_cstr m buf n H) =
         Some (False, [], put_cstr m buf n (H @ render ts @ '' '' @ msg))"
  using append_message_ok [OF msg buf(2,3), of "H @ render ts"]
  by (simp add: append_rest_context [OF assms(1,2) buf assms(10)])

lemma put_cstr_keeps: "keeps_accessible m (put_cstr m buf n s)"
  by (simp add: put_cstr_def)

lemma c_str_put_cstr_prefix:
  assumes "0 < n"
  shows "c_str (put_cstr m buf n s) buf = Some (takeWhile (\<lambda>c. c \<noteq> NUL) (take (n - 1) s))"
proof (rule c_str_at)
  let ?t = "take (n - 1) s"
  let ?p = "takeWhile (\<lambda>c. c \<noteq> NUL) ?t"
  obtain rest where r: "?t @ [NUL] = (?p @ [NUL]) @ rest"
  proof (cases "?p = ?t")
    case False
    then obtain c cs where c: "dropWhile (\<lambda>c. c \<noteq> NUL) ?t = c # cs"
      by (metis append_Nil2 list.exhaust takeWhile_dropWhile_id)
    then have "c = NUL" using hd_dropWhile [of "\<lambda>c. c \<noteq> NUL" ?t] by auto
    with c have "?t @ [NUL] = (?p @ [NUL]) @ (cs @ [NUL])"
      using takeWhile_dropWhile_id [of "\<lambda>c. c \<noteq> NUL" ?t] by (metis append.assoc append_Cons append_Nil)
    then show ?thesis by (rule that)
  next
    case True
    then show ?thesis using that [of "[]"] by (simp only: append_Nil2)
  qed
  have "bytes_at (put_bytes m buf (?t @ [NUL])) buf (?t @ [NUL])" by (rule bytes_at_put_same)
  then have "bytes_at (put_bytes m buf (?t @ [NUL])) buf ((?p @ [NUL]) @ rest)" by (simp only: r [symmetric])
  then have "bytes_at (put_bytes m buf (?t @ [NUL])) buf (?p @ [NUL])" by (simp only: bytes_at_append)
  with assms show "bytes_at (put_cstr m buf n s) buf (?p @ [NUL])" by (simp only: put_cstr_def) auto
  show "NUL \<notin> set ?p" by (auto dest: set_takeWhileD)
qed

text \<open>
  Two cases in which a line with a context is replaced by an error message: the header
  already fills the buffer, and a context that overflowed and has no entries.
\<close>

lemma append_rest_no_room: "h \<noteq> None \<Longrightarrow> append_rest E h f args buf 0 m = Some (True, [], m)"
  by (auto simp: append_rest_def append_context_def log_context_property_to_string_def
      log_context_get_property_value_pairs_def)

lemma append_rest_no_properties:
  "property_value_pair_count C = 0 \<Longrightarrow> append_rest E (Some C) f args buf n m = Some (True, [], m)"
  by (auto simp: append_rest_def append_context_def log_context_property_to_string_def
      log_context_get_property_value_pairs_def log_context_get_property_value_pair_count_def)

text \<open>Safety, whatever the formatting does.\<close>

lemma append_context_safe:
  assumes inv: "case h of None \<Rightarrow> True | Some C \<Rightarrow> \<exists>t. context_inv safe_anywhere m C t"
    and buf: "buf \<noteq> NULL" "accessible m buf n" "int n \<le> INT_MAX" "apart h buf n"
  shows "\<exists>e b k m1. append_context E h buf n m = Some (e, b, k, [], m1) \<and> unchanged m m1 buf n \<and>
      keeps_accessible m m1 \<and> buf \<le> b \<and> b + k = buf + n"
proof (cases h)
  case None
  then show ?thesis by (intro exI [of _ False]) (simp add: append_context_def)
next
  case (Some C)
  with inv obtain t where "context_inv safe_anywhere m C t" by auto
  from context_inv_safe [OF this buf(1,3,2), of E] buf(4) Some obtain r m1 where
    r: "log_context_property_to_string E buf n (log_context_get_property_value_pairs h)
      (log_context_get_property_value_pair_count h) m = Some (r, [], m1)" "r \<le> int n"
    "unchanged m m1 buf n" "keeps_accessible m m1" by auto
  show ?thesis
  proof (cases "r < 0")
    case False
    then obtain k where "r = int k" "k \<le> n" using r(2) by (metis nat_0_le nat_le_iff not_le)
    with r Some buf(3) show ?thesis
      by (intro exI [of _ False]) (simp add: append_context_def advance_buffer_text)
  next
    case True
    with r Some show ?thesis by (intro exI [of _ True]) (simp add: append_context_def)
  qed
qed

lemma append_message_safe:
  assumes "accessible m b k"
  shows "\<exists>e m'. append_message E b k f args m = Some (e, m') \<and> unchanged m m' b k \<and> keeps_accessible m m'"
proof (cases "1 < k")
  case True
  have "accessible m b (length '' '')" by (rule accessible_sub [OF assms]) (use True in auto)
  then have st: "store_bytes m b '' '' = Some (put_bytes m b '' '')" by (rule store_bytes_ok)
  have "accessible (put_bytes m b '' '') (b + 1) (k - 1)"
    by (rule accessible_put, rule accessible_sub [OF assms]) (use True in auto)
  from vsnprintf_safe [OF this] obtain r m' where
    v: "vsnprintf E (b + 1) (k - 1) f args (put_bytes m b '' '') = Some (r, m')"
    "unchanged (put_bytes m b '' '') m' (b + 1) (k - 1)" "keeps_accessible (put_bytes m b '' '') m'" by blast
  have "unchanged m m' b k"
    by (rule unchanged_trans [OF unchanged_put unchanged_sub [OF v(2)]]) (use True in auto)
  with True st v keeps_accessible_trans [OF keeps_accessible_put v(3)] show ?thesis
    by (simp add: append_message_def)
qed (intro exI [of _ False], simp add: append_message_def)

lemma append_rest_safe:
  assumes "case h of None \<Rightarrow> True | Some C \<Rightarrow> \<exists>t. context_inv safe_anywhere m C t"
    and "buf \<noteq> NULL" "accessible m buf n" "int n \<le> INT_MAX" "apart h buf n"
  shows "\<exists>e m'. append_rest E h f args buf n m = Some (e, [], m') \<and> unchanged m m' buf n \<and> keeps_accessible m m'"
proof -
  obtain e b k m1 where c: "append_context E h buf n m = Some (e, b, k, [], m1)" "unchanged m m1 buf n"
    "keeps_accessible m m1" "buf \<le> b" "b + k = buf + n" using append_context_safe [OF assms] by blast
  have acc1: "accessible m1 b k"
    by (rule accessible_sub [OF keeps_accessibleD [OF c(3) assms(3)]]) (use c in auto)
  obtain e' m2 where a: "append_message E b k f args m1 = Some (e', m2)" "unchanged m1 m2 b k"
    "keeps_accessible m1 m2" using append_message_safe [OF acc1] by blast
  have "unchanged m m2 buf n"
    by (rule unchanged_trans [OF c(2) unchanged_sub [OF a(2)]]) (use c in auto)
  with a c keeps_accessible_trans [OF c(3) a(3)] show ?thesis by (cases e) (auto simp: append_rest_def)
qed

text \<open>
  The line as the two text sinks have to write it into their buffer, from the header, the
  rendering of the context and the formatted message: \<open>None\<close> when the line is an error.  It
  is one when the header is longer than \<open>int\<close> holds, when the header leaves no room for
  a context, and when the message does not format although there is room for it.  Otherwise
  the line is what fits of it in 4095 characters, up to the first null character.
\<close>

definition fits :: "string \<Rightarrow> string" where
  "fits s = takeWhile (\<lambda>c. c \<noteq> NUL) (take (LOG_MAX_MESSAGE_LENGTH - 1) s)"

definition formatted :: "c_env \<Rightarrow> string \<Rightarrow> carg list \<Rightarrow> string option" where
  "formatted E f args = (case fmt E f args of
      None \<Rightarrow> None
    | Some msg \<Rightarrow> if int (length msg) \<le> INT_MAX then Some msg else None)"

definition expected_rest :: "c_env \<Rightarrow> string \<Rightarrow> LOG_CONTEXT_HANDLE \<Rightarrow> ptree list \<Rightarrow> string \<Rightarrow> carg list \<Rightarrow> string option" where
  "expected_rest E H h ts f args =
     (if h \<noteq> None \<and> LOG_MAX_MESSAGE_LENGTH \<le> length H then None
      else case formatted E f args of
          Some msg \<Rightarrow> Some (H @ render ts @ '' '' @ msg)
        | None \<Rightarrow> if length (H @ render ts) + 1 < LOG_MAX_MESSAGE_LENGTH then None else Some (H @ render ts))"

definition expected_line :: "c_env \<Rightarrow> string \<Rightarrow> LOG_CONTEXT_HANDLE \<Rightarrow> ptree list \<Rightarrow> string \<Rightarrow> carg list \<Rightarrow> string option" where
  "expected_line E H h ts f args =
     (if INT_MAX < int (length H) then None else map_option fits (expected_rest E H h ts f args))"

lemma length_fits: "length (fits s) < LOG_MAX_MESSAGE_LENGTH"
  using length_takeWhile_le [of "\<lambda>c. c \<noteq> NUL" "take (LOG_MAX_MESSAGE_LENGTH - 1) s"]
  by (simp add: fits_def LOG_MAX_MESSAGE_LENGTH_def)

lemma c_str_fits: "c_str (put_cstr m buf LOG_MAX_MESSAGE_LENGTH s) buf = Some (fits s)"
  unfolding fits_def by (rule c_str_put_cstr_prefix) (simp add: LOG_MAX_MESSAGE_LENGTH_def)

lemma append_message_unformatted:
  assumes "formatted E f args = None" "accessible m buf n" "0 < n"
  shows "\<exists>m'. append_message E (buf + advance n s) (n - advance n s) f args (put_cstr m buf n s) =
           Some (length s + 1 < n, m') \<and>
         unchanged m m' buf n \<and> keeps_accessible m m' \<and> (\<not> length s + 1 < n \<longrightarrow> m' = put_cstr m buf n s)"
proof -
  have acc: "accessible (put_cstr m buf n s) (buf + advance n s) (n - advance n s)"
    by (rule accessible_sub [OF accessible_put_cstr [OF assms(2)]]) (use advance_le [of n s] in auto)
  obtain e m' where a: "append_message E (buf + advance n s) (n - advance n s) f args (put_cstr m buf n s) = Some (e, m')"
    "unchanged (put_cstr m buf n s) m' (buf + advance n s) (n - advance n s)"
    "keeps_accessible (put_cstr m buf n s) m'" using append_message_safe [OF acc] by blast
  have u: "unchanged m m' buf n"
    by (rule unchanged_trans [OF unchanged_put_cstr unchanged_sub [OF a(2)]]) (use advance_le [of n s] in auto)
  have "1 < n - advance n s \<longleftrightarrow> length s + 1 < n" by (auto simp: advance_def)
  with a(1) assms(1) have "e = (length s + 1 < n)" "\<not> length s + 1 < n \<longrightarrow> m' = put_cstr m buf n s"
    by (auto simp: append_message_def vsnprintf_def formatted_def split: if_splits option.splits Option.bind_splits)
  with a(1) u keeps_accessible_trans [OF put_cstr_keeps a(3)] show ?thesis by simp
qed

text \<open>
  Whatever the header, the context and the message are, the rest of the line is appended as
  expected or the expected error is reported.
\<close>

lemma append_rest_total:
  fixes H h ts f args
  defines "n \<equiv> LOG_MAX_MESSAGE_LENGTH" and "R \<equiv> \<lambda>E. expected_rest E H h ts f args"
  assumes E: "conforming E" and inv: "handle_inv prints_anywhere m h ts"
    and buf: "buf \<noteq> NULL" "accessible m buf n" "apart h buf n"
  shows "\<exists>m'. append_rest E h f args (buf + advance n H) (n - advance n H) (put_cstr m buf n H) =
             Some (R E = None, [], m') \<and>
           unchanged m m' buf n \<and> keeps_accessible m m' \<and> (\<forall>s. R E = Some s \<longrightarrow> m' = put_cstr m buf n s)"
proof (cases "h \<noteq> None \<and> n \<le> length H")
  case True
  then have "advance n H = n" by (simp add: advance_def)
  with True show ?thesis
    by (auto simp: append_rest_no_room unchanged_put_cstr put_cstr_keeps expected_rest_def R_def n_def)
next
  case room: False
  have n: "0 < n" "int n \<le> INT_MAX" by (simp_all add: n_def LOG_MAX_MESSAGE_LENGTH_def INT_MAX_def)
  show ?thesis
  proof (cases "formatted E f args")
    case (Some msg)
    then have msg: "fmt E f args = Some msg" "int (length msg) \<le> INT_MAX"
      by (auto simp: formatted_def split: option.splits if_splits)
    have "append_rest E h f args (buf + advance n H) (n - advance n H) (put_cstr m buf n H) =
        Some (False, [], put_cstr m buf n (H @ render ts @ '' '' @ msg))"
      by (rule append_rest_ok [OF E inv msg buf(1,2) n buf(3)]) (use room in auto)
    with room Some show ?thesis
      by (auto simp: unchanged_put_cstr put_cstr_keeps expected_rest_def R_def n_def)
  next
    case None
    from append_message_unformatted [OF None buf(2) n(1), of "H @ render ts"] room None
      append_rest_context [OF E inv buf(1,2) n buf(3), of H f args]
    show ?thesis by (auto simp: expected_rest_def R_def n_def silent_def)
  qed
qed

end
