(* ===== verification/Log_Sink_Console.thy ===== *)
theory Log_Sink_Console
  imports Log_Sink
begin

text \<open>
  \<open>log_sink_console.c\<close>: one call to \<open>printf\<close> per log line.  The sink's effect is the list of
  the calls to \<open>printf\<close> (those of the property types included) and the contents of its buffer on the stack.
\<close>

section \<open>The code\<close>

definition ESC :: char where
  "ESC = CHR 0x1B"

definition LOG_SINK_CONSOLE_ANSI_COLOR_BRIGHT_RED :: string where
  "LOG_SINK_CONSOLE_ANSI_COLOR_BRIGHT_RED = ESC # ''[31;1m''"

definition LOG_SINK_CONSOLE_ANSI_COLOR_RED :: string where
  "LOG_SINK_CONSOLE_ANSI_COLOR_RED = ESC # ''[31m''"

definition LOG_SINK_CONSOLE_ANSI_COLOR_YELLOW :: string where
  "LOG_SINK_CONSOLE_ANSI_COLOR_YELLOW = ESC # ''[33m''"

definition LOG_SINK_CONSOLE_ANSI_COLOR_WHITE :: string where
  "LOG_SINK_CONSOLE_ANSI_COLOR_WHITE = ESC # ''[37m''"

definition LOG_SINK_CONSOLE_ANSI_COLOR_GRAY :: string where
  "LOG_SINK_CONSOLE_ANSI_COLOR_GRAY = ESC # ''[90m''"

definition LOG_SINK_CONSOLE_ANSI_COLOR_RESET :: string where
  "LOG_SINK_CONSOLE_ANSI_COLOR_RESET = ESC # ''[0m''"

definition level_colors :: "string list" where
  "level_colors =
     [LOG_SINK_CONSOLE_ANSI_COLOR_BRIGHT_RED,
      LOG_SINK_CONSOLE_ANSI_COLOR_RED,
      LOG_SINK_CONSOLE_ANSI_COLOR_YELLOW,
      LOG_SINK_CONSOLE_ANSI_COLOR_WHITE,
      LOG_SINK_CONSOLE_ANSI_COLOR_GRAY]"

definition level_color :: "LOG_LEVEL \<Rightarrow> string option" where
  "level_color log_level =
     (let i = level_value log_level in
      if 0 \<le> i \<and> nat i < length level_colors then Some (level_colors ! nat i) else None)"

definition console_error_string :: string where
  "console_error_string = ''Error formatting log line'' @ CRLF"

definition log_sink_console_init :: int where
  "log_sink_console_init = 0"

definition log_sink_console_deinit :: "mem \<Rightarrow> mem" where
  "log_sink_console_deinit m = m"

definition log_sink_console_log ::
    "sink_env \<Rightarrow> LOG_LEVEL \<Rightarrow> LOG_CONTEXT_HANDLE \<Rightarrow> string option \<Rightarrow> string option \<Rightarrow> int \<Rightarrow> string option \<Rightarrow>
     carg list \<Rightarrow> mem \<Rightarrow> (stdout_call list \<times> mem) option" where
  "log_sink_console_log S log_level log_context file func line message_format args m =
     (case message_format of
        None \<Rightarrow>
          Some ([Printf (''Invalid arguments: LOG_LEVEL log_level=%'' @ PRI_MU_ENUM (lib S) @
                   '', LOG_CONTEXT_HANDLE log_context=%p, const char* file=%s, const char* func=%s, int line=%d, const char* message_format=%s'' @ CRLF)
                 (MU_ENUM_VALUE (lib S) ''LOG_LEVEL'' (level_value log_level) @
                  [APtr (context_address S log_context), AStr (MU_P_OR_NULL (lib S) file),
                   AStr (MU_P_OR_NULL (lib S) func), AInt line, AStr (MU_P_OR_NULL (lib S) message_format)])], m)
      | Some f \<Rightarrow> do {
          color \<leftarrow> level_color log_level;
          (snprintf_result, m1) \<leftarrow> snprintf (lib S) (temp S) LOG_MAX_MESSAGE_LENGTH
             ''%s%s Time:%.24s File:%s:%d Func:%s''
             [AStr color, AStr (MU_ENUM_TO_STRING_LOG_LEVEL (lib S) (level_value log_level)),
              AStr (MU_P_OR_NULL (lib S) (ctime_result S)), AStr (MU_P_OR_NULL (lib S) file), AInt line,
              AStr (MU_P_OR_NULL (lib S) func)] m;
          if snprintf_result < 0 then Some ([Printf console_error_string []], m1)
          else (case advance_buffer (temp S) LOG_MAX_MESSAGE_LENGTH snprintf_result of
            (buffer, buffer_size) \<Rightarrow> do {
              (error, out, m2) \<leftarrow> append_rest (lib S) log_context f args buffer buffer_size m1;
              if error then Some (out @ [Printf console_error_string []], m2)
              else do {
                line_text \<leftarrow> c_str m2 (temp S);
                Some (out @ [Printf (''%s%s'' @ CRLF) [AStr line_text, AStr LOG_SINK_CONSOLE_ANSI_COLOR_RESET]], m2) } }) })"

section \<open>Properties\<close>

text \<open>The header of a line, for a level with a colour.\<close>

definition console_header :: "sink_env \<Rightarrow> LOG_LEVEL \<Rightarrow> string option \<Rightarrow> string option \<Rightarrow> int \<Rightarrow> string" where
  "console_header S log_level file func line =
     the (level_color log_level) @ MU_ENUM_TO_STRING_LOG_LEVEL (lib S) (level_value log_level) @
     '' Time:'' @ take 24 (MU_P_OR_NULL (lib S) (ctime_result S)) @
     '' File:'' @ MU_P_OR_NULL (lib S) file @ '':'' @ show_int line @ '' Func:'' @ MU_P_OR_NULL (lib S) func"

lemma console_header_printf:
  "c_printf ''%s%s Time:%.24s File:%s:%d Func:%s''
     [AStr c, AStr l, AStr t, AStr fl, AInt n, AStr fn] =
   Some (c @ l @ '' Time:'' @ take 24 t @ '' File:'' @ fl @ '':'' @ show_int n @ '' Func:'' @ fn)"
proof -
  have d: "digit_value CHR ''2'' = 2" "digit_value CHR ''4'' = 4" by code_simp+
  show ?thesis by (simp add: c_printf_def c_conv_def is_digit_def d)
qed

lemma level_color_iff: "(\<exists>c. level_color l = Some c) \<longleftrightarrow> l \<in> set LOG_LEVEL_VALUES"
proof -
  have "l \<in> set LOG_LEVEL_VALUES \<longleftrightarrow> 0 \<le> level_value l \<and> level_value l < 5"
    by (cases l) (auto simp: LOG_LEVEL_VALUES_def LOG_LEVEL_CRITICAL_def LOG_LEVEL_ERROR_def
        LOG_LEVEL_WARNING_def LOG_LEVEL_INFO_def LOG_LEVEL_VERBOSE_def)
  then show ?thesis by (auto simp: level_color_def level_colors_def Let_def)
qed

text \<open>The environment of a call: a conforming library and a buffer of its own.\<close>

definition sink_ready :: "sink_env \<Rightarrow> LOG_CONTEXT_HANDLE \<Rightarrow> mem \<Rightarrow> bool" where
  "sink_ready S h m \<longleftrightarrow> conforming (lib S) \<and> temp S \<noteq> NULL \<and>
     accessible m (temp S) LOG_MAX_MESSAGE_LENGTH \<and> apart h (temp S) LOG_MAX_MESSAGE_LENGTH"

lemma console_after_header:
  assumes "sink_ready S h m" "level_color l = Some c" "int (length (console_header S l file func line)) \<le> INT_MAX"
  defines "H \<equiv> console_header S l file func line"
  shows "log_sink_console_log S l h file func line (Some f) args m = do {
     (error, out, m2) \<leftarrow> append_rest (lib S) h f args (temp S + advance LOG_MAX_MESSAGE_LENGTH H)
        (LOG_MAX_MESSAGE_LENGTH - advance LOG_MAX_MESSAGE_LENGTH H) (put_cstr m (temp S) LOG_MAX_MESSAGE_LENGTH H);
     if error then Some (out @ [Printf console_error_string []], m2)
     else do {
       line_text \<leftarrow> c_str m2 (temp S);
       Some (out @ [Printf (''%s%s'' @ CRLF) [AStr line_text, AStr LOG_SINK_CONSOLE_ANSI_COLOR_RESET]], m2) } }"
proof -
  have "snprintf (lib S) (temp S) LOG_MAX_MESSAGE_LENGTH ''%s%s Time:%.24s File:%s:%d Func:%s''
      [AStr c, AStr (MU_ENUM_TO_STRING_LOG_LEVEL (lib S) (level_value l)),
       AStr (MU_P_OR_NULL (lib S) (ctime_result S)), AStr (MU_P_OR_NULL (lib S) file), AInt line,
       AStr (MU_P_OR_NULL (lib S) func)] m = Some (int (length H), put_cstr m (temp S) LOG_MAX_MESSAGE_LENGTH H)"
    using assms(1,3)
    by (intro vsnprintf_ok conforming_fmt)
      (auto simp: sink_ready_def H_def console_header_def assms(2) console_header_printf)
  moreover have "advance_buffer (temp S) LOG_MAX_MESSAGE_LENGTH (int (length H)) =
      (temp S + advance LOG_MAX_MESSAGE_LENGTH H, LOG_MAX_MESSAGE_LENGTH - advance LOG_MAX_MESSAGE_LENGTH H)"
    by (subst advance_buffer_text) (simp_all add: advance_def LOG_MAX_MESSAGE_LENGTH_def INT_MAX_def)
  ultimately show ?thesis by (simp add: log_sink_console_log_def assms(2))
qed

lemma console_prints_line:
  assumes "sink_ready S h m" "l \<in> set LOG_LEVEL_VALUES" "handle_inv prints_anywhere m h ts"
    and "fmt (lib S) f args = Some msg" "int (length msg) \<le> INT_MAX"
    and "int (length (console_header S l file func line)) \<le> INT_MAX"
    and "h \<noteq> None \<Longrightarrow> length (console_header S l file func line) < LOG_MAX_MESSAGE_LENGTH"
    and "NUL \<notin> set (console_header S l file func line @ render ts @ '' '' @ msg)"
  shows "\<exists>m'. log_sink_console_log S l h file func line (Some f) args m =
     Some ([Printf (''%s%s'' @ CRLF)
        [AStr (take 4095 (console_header S l file func line @ render ts @ '' '' @ msg)),
         AStr LOG_SINK_CONSOLE_ANSI_COLOR_RESET]], m') \<and>
     unchanged m m' (temp S) LOG_MAX_MESSAGE_LENGTH \<and> keeps_accessible m m'"
proof -
  obtain c where c: "level_color l = Some c" using assms(2) level_color_iff by blast
  define H where "H = console_header S l file func line"
  let ?n = LOG_MAX_MESSAGE_LENGTH
  define all where "all = H @ render ts @ '' '' @ msg"
  have n: "0 < ?n" "int ?n \<le> INT_MAX" "?n - 1 = 4095" by (simp_all add: LOG_MAX_MESSAGE_LENGTH_def INT_MAX_def)
  have rest: "append_rest (lib S) h f args (temp S + advance ?n H) (?n - advance ?n H) (put_cstr m (temp S) ?n H) =
      Some (False, [], put_cstr m (temp S) ?n all)"
    unfolding all_def
    by (rule append_rest_ok [OF _ assms(3-5)]) (use assms(1,7) n in \<open>auto simp: sink_ready_def H_def\<close>)
  have "c_str (put_cstr m (temp S) ?n all) (temp S) = Some (take 4095 all)"
    using assms(8) n by (subst c_str_put_cstr) (auto simp: all_def H_def)
  with rest show ?thesis
    unfolding console_after_header [OF assms(1) c assms(6)] H_def [symmetric] all_def [symmetric]
    by (simp add: unchanged_put_cstr keeps_put_cstr)
qed

text \<open>
  C7: A log line on the console: for every level of the enumeration and every well-formed
  context (or none), a header shorter than the buffer when there is a context, and a
  message that formats, the sink calls \<open>printf\<close> exactly once, with the level's colour, the
  level, the time, the file, line and function, the rendering of the context's properties,
  a space and the message, cut after 4095 characters, and the sequence that resets the
  colour.
\<close>
theorem console_line:
  assumes "sink_ready S h m" "l \<in> set LOG_LEVEL_VALUES" "handle_inv prints_anywhere m h ts"
    and "fmt (lib S) f args = Some msg" "int (length msg) \<le> INT_MAX"
    and "int (length (console_header S l file func line)) \<le> INT_MAX"
    and "h \<noteq> None \<Longrightarrow> length (console_header S l file func line) < LOG_MAX_MESSAGE_LENGTH"
    and "NUL \<notin> set (console_header S l file func line @ render ts @ '' '' @ msg)"
  shows "\<exists>m'. log_sink_console_log S l h file func line (Some f) args m =
     Some ([Printf (''%s%s'' @ CRLF)
        [AStr (take 4095 (console_header S l file func line @ render ts @ '' '' @ msg)),
         AStr LOG_SINK_CONSOLE_ANSI_COLOR_RESET]], m') \<and>
     unchanged m m' (temp S) LOG_MAX_MESSAGE_LENGTH"
  using console_prints_line [OF assms] by blast

text \<open>
  A context without entries, which is what \<open>LOG_CONTEXT_LOCAL_DEFINE\<close> leaves after an
  overflow, makes the console sink lose the message: it prints only the error text.
\<close>
theorem console_empty_context_loses_message:
  assumes "sink_ready S (Some C) m" "l \<in> set LOG_LEVEL_VALUES" "property_value_pair_count C = 0"
    and "int (length (console_header S l file func line)) \<le> INT_MAX"
  shows "\<exists>m'. log_sink_console_log S l (Some C) file func line (Some f) args m =
     Some ([Printf console_error_string []], m')"
proof -
  obtain c where c: "level_color l = Some c" using assms(2) level_color_iff by blast
  show ?thesis
    unfolding console_after_header [OF assms(1) c assms(4)] by (simp add: append_rest_no_properties [OF assms(3)])
qed

text \<open>
  A line whose header already fills the buffer is not cut when it has a context: the
  console sink prints the error text instead of the first 4095 characters.
\<close>
theorem console_long_header_error:
  assumes "sink_ready S h m" "l \<in> set LOG_LEVEL_VALUES" "h \<noteq> None"
    and "LOG_MAX_MESSAGE_LENGTH \<le> length (console_header S l file func line)"
    and "int (length (console_header S l file func line)) \<le> INT_MAX"
  shows "\<exists>m'. log_sink_console_log S l h file func line (Some f) args m = Some ([Printf console_error_string []], m')"
proof -
  obtain c where c: "level_color l = Some c" using assms(2) level_color_iff by blast
  have "advance LOG_MAX_MESSAGE_LENGTH (console_header S l file func line) = LOG_MAX_MESSAGE_LENGTH"
    using assms(4) by (simp add: advance_def)
  then show ?thesis
    unfolding console_after_header [OF assms(1) c assms(5)] by (simp add: append_rest_no_room [OF assms(3)])
qed


text \<open>The one call of \<open>printf\<close> of a log call, on every path.\<close>

definition console_call ::
    "sink_env \<Rightarrow> LOG_LEVEL \<Rightarrow> LOG_CONTEXT_HANDLE \<Rightarrow> ptree list \<Rightarrow> string option \<Rightarrow> string option \<Rightarrow> int \<Rightarrow> string option \<Rightarrow>
     carg list \<Rightarrow> stdout_call" where
  "console_call S l h ts file func line message_format args =
     (case message_format of
        None \<Rightarrow> Printf (''Invalid arguments: LOG_LEVEL log_level=%'' @ PRI_MU_ENUM (lib S) @
             '', LOG_CONTEXT_HANDLE log_context=%p, const char* file=%s, const char* func=%s, int line=%d, const char* message_format=%s'' @ CRLF)
           (MU_ENUM_VALUE (lib S) ''LOG_LEVEL'' (level_value l) @
            [APtr (context_address S h), AStr (MU_P_OR_NULL (lib S) file),
             AStr (MU_P_OR_NULL (lib S) func), AInt line, AStr (MU_P_OR_NULL (lib S) None)])
      | Some f \<Rightarrow>
         (case expected_line (lib S) (console_header S l file func line) h ts f args of
            None \<Rightarrow> Printf console_error_string []
          | Some txt \<Rightarrow> Printf (''%s%s'' @ CRLF) [AStr txt, AStr LOG_SINK_CONSOLE_ANSI_COLOR_RESET]))"

lemma console_returns:
  assumes "sink_ready S h m" "l \<in> set LOG_LEVEL_VALUES" "handle_inv prints_anywhere m h ts"
  shows "\<exists>m'. log_sink_console_log S l h file func line f args m =
       Some ([console_call S l h ts file func line f args], m') \<and>
     unchanged m m' (temp S) LOG_MAX_MESSAGE_LENGTH \<and> keeps_accessible m m'"
proof (cases f)
  case None
  then show ?thesis by (simp add: log_sink_console_log_def console_call_def)
next
  case (Some fm)
  obtain c where c: "level_color l = Some c" using assms(2) level_color_iff by blast
  define H where "H = console_header S l file func line"
  have r: "conforming (lib S)" "temp S \<noteq> NULL" "accessible m (temp S) LOG_MAX_MESSAGE_LENGTH"
    "apart h (temp S) LOG_MAX_MESSAGE_LENGTH" using assms(1) by (auto simp: sink_ready_def)
  show ?thesis
  proof (cases "int (length H) \<le> INT_MAX")
    case True
    from append_rest_total [OF r(1) assms(3) r(2-4), of fm args H] True show ?thesis
      unfolding Some console_after_header [OF assms(1) c True [unfolded H_def]] H_def [symmetric]
      by (cases "expected_rest (lib S) H h ts fm args")
        (auto simp: console_call_def expected_line_def H_def c_str_fits)
  next
    case False
    then have "fmt (lib S) ''%s%s Time:%.24s File:%s:%d Func:%s''
        [AStr c, AStr (MU_ENUM_TO_STRING_LOG_LEVEL (lib S) (level_value l)),
         AStr (MU_P_OR_NULL (lib S) (ctime_result S)), AStr (MU_P_OR_NULL (lib S) file), AInt line,
         AStr (MU_P_OR_NULL (lib S) func)] = Some H"
      by (intro conforming_fmt [OF r(1)]) (simp add: H_def console_header_def c console_header_printf)
    with False show ?thesis
      by (simp add: Some log_sink_console_log_def c vsnprintf_def console_call_def expected_line_def H_def)
  qed
qed

text \<open>
  C30: The console sink on every path: for every level of the enumeration, no context or a
  well-formed one of integer, boolean, character-string and struct properties (wide strings
  and children of a context that overflowed are not among them), and any file, function, line, format and arguments, a
  log call returns, writes only to its own buffer of 4096 bytes, and calls \<open>printf\<close> exactly
  once.  Without a format the call is the report of the invalid arguments.  Otherwise it
  is the error text when the header cannot be formatted, when the header leaves no room for
  the context, or when the message does not format although there is room for it, and in
  every other case the line, what fits of it in 4095 characters up to its first null
  character.
\<close>
theorem console_total:
  assumes "sink_ready S h m" "l \<in> set LOG_LEVEL_VALUES" "handle_inv prints_anywhere m h ts"
  shows "\<exists>m'. log_sink_console_log S l h file func line f args m =
       Some ([console_call S l h ts file func line f args], m') \<and>
     unchanged m m' (temp S) LOG_MAX_MESSAGE_LENGTH \<and> keeps_accessible m m'"
  by (rule console_returns [OF assms])

section \<open>Witnesses\<close>

definition demo_sink :: sink_env where
  "demo_sink = \<lparr>lib = std_env, time = 0, ctime = (\<lambda>t. Some (''Thu Jan  1 00:00:00 1970'' @ [CHR 0x0A])),
     temp = 6000, context_address = (\<lambda>h. 0)\<rparr>"

definition demo_empty :: LOG_CONTEXT where
  "demo_empty = \<lparr>values_data = 1000, values_data_length = 0, property_value_pairs_ptr = replicate 64 None,
     property_value_pair_count = 0\<rparr>"

lemma demo_header:
  "console_header demo_sink LOG_LEVEL_INFO (Some ''f.c'') (Some ''main'') 42 =
   ESC # ''[37mLOG_LEVEL_INFO Time:Thu Jan  1 00:00:00 1970 File:f.c:42 Func:main''"
  by code_simp

lemma demo_sink_ready: "apart h 6000 4096 \<Longrightarrow> sink_ready demo_sink h demo_stack"
  by (simp add: sink_ready_def demo_sink_def conforming_std_env LOG_MAX_MESSAGE_LENGTH_def demo_stack_accessible)

lemma demo_level: "LOG_LEVEL_INFO \<in> set LOG_LEVEL_VALUES"
  by (simp add: LOG_LEVEL_VALUES_def)

theorem console_line_witness:
  "\<exists>m'. log_sink_console_log demo_sink LOG_LEVEL_INFO None (Some ''f.c'') (Some ''main'') 42 (Some ''n=%d'') [AInt 7] demo_stack =
     Some ([Printf (''%s%s'' @ CRLF)
        [AStr (ESC # ''[37mLOG_LEVEL_INFO Time:Thu Jan  1 00:00:00 1970 File:f.c:42 Func:main n=7''),
         AStr LOG_SINK_CONSOLE_ANSI_COLOR_RESET]], m')"
proof -
  have f: "fmt (lib demo_sink) ''n=%d'' [AInt 7] = Some ''n=7''" by code_simp
  have r: "sink_ready demo_sink None demo_stack" by (rule demo_sink_ready) (simp add: apart_def)
  have h: "handle_inv prints_anywhere demo_stack None []" by (simp add: handle_inv_def)
  show ?thesis
    using console_line [OF r demo_level h f, of "Some ''f.c''" "Some ''main''" 42] unfolding demo_header
    by (auto simp: INT_MAX_def ESC_def)
qed

theorem console_empty_context_loses_message_witness:
  "\<exists>m'. log_sink_console_log demo_sink LOG_LEVEL_INFO (Some demo_empty) (Some ''f.c'') (Some ''main'') 42 (Some ''n=%d'') [AInt 7] demo_stack =
     Some ([Printf console_error_string []], m')"
  by (rule console_empty_context_loses_message [OF demo_sink_ready demo_level])
    (simp_all add: demo_header INT_MAX_def demo_empty_def apart_def)

theorem console_long_header_error_witness:
  "\<exists>m'. log_sink_console_log demo_sink LOG_LEVEL_INFO (Some demo_empty) (Some (replicate 5000 (CHR ''f''))) (Some ''main'') 42 (Some ''n=%d'') [AInt 7] demo_stack =
     Some ([Printf console_error_string []], m')"
proof -
  let ?H = "console_header demo_sink LOG_LEVEL_INFO (Some (replicate 5000 (CHR ''f''))) (Some ''main'') 42"
  have n: "show_int 42 = ''42''" by code_simp
  have len: "5000 \<le> length ?H" "int (length ?H) \<le> 6000"
    by (simp_all add: console_header_def demo_sink_def std_env_def n level_color_def LOG_LEVEL_INFO_def level_colors_def
        LOG_SINK_CONSOLE_ANSI_COLOR_WHITE_def ctime_result_def)
  show ?thesis
    by (rule console_long_header_error [OF demo_sink_ready demo_level])
      (use len in \<open>auto simp: LOG_MAX_MESSAGE_LENGTH_def INT_MAX_def demo_empty_def apart_def\<close>)
qed


theorem console_total_witness:
  "(\<exists>m'. log_sink_console_log demo_sink LOG_LEVEL_INFO None None None (- 1) (Some ''%s'') [] demo_stack =
     Some ([Printf console_error_string []], m') \<and>
     unchanged demo_stack m' (temp demo_sink) LOG_MAX_MESSAGE_LENGTH \<and> keeps_accessible demo_stack m')"
proof -
  have "console_call demo_sink LOG_LEVEL_INFO None [] None None (- 1) (Some ''%s'') [] = Printf console_error_string []"
    by code_simp
  with console_total [OF demo_sink_ready demo_level, of None "[]" None None "- 1" "Some ''%s''" "[]"] show ?thesis
    by (simp add: apart_def handle_inv_def)
qed

end
