(* ===== verification/Log_Sink_Callback.thy ===== *)
theory Log_Sink_Callback
  imports Log_Sink_Console
begin

text \<open>
  \<open>log_sink_callback.c\<close>: the line is given to a callback of the client, with a maximum
  level.  A callback is a function on the client's world \<open>'w\<close>.
\<close>

section \<open>The code\<close>

type_synonym 'w LOG_SINK_CALLBACK_LOG = "addr \<Rightarrow> LOG_LEVEL \<Rightarrow> string \<Rightarrow> 'w \<Rightarrow> 'w"

definition error_string_invalid_args :: string where
  "error_string_invalid_args = ''Error logging: invalid arguments''"

definition callback_error_string :: string where
  "callback_error_string = ''Error formatting log line''"

definition log_sink_callback_noop_callback :: "'w LOG_SINK_CALLBACK_LOG" where
  "log_sink_callback_noop_callback context log_level message = (\<lambda>w. w)"

text \<open>The static variables of the module and their initial values.\<close>

record 'w callback_state =
  log_sink_callback_callback :: "'w LOG_SINK_CALLBACK_LOG"
  log_sink_callback_context :: addr
  log_sink_callback_max_level :: LOG_LEVEL

definition callback_state_initial :: "'w callback_state" where
  "callback_state_initial =
     \<lparr>log_sink_callback_callback = log_sink_callback_noop_callback,
      log_sink_callback_context = NULL,
      log_sink_callback_max_level = LOG_LEVEL_VERBOSE\<rparr>"

definition log_sink_callback_init :: int where
  "log_sink_callback_init = 0"

definition log_sink_callback_deinit :: "'w callback_state \<Rightarrow> 'w callback_state" where
  "log_sink_callback_deinit s = s"

definition log_sink_callback_set_callback ::
    "c_env \<Rightarrow> 'w LOG_SINK_CALLBACK_LOG option \<Rightarrow> addr \<Rightarrow> 'w callback_state \<Rightarrow> int \<times> stdout_call list \<times> 'w callback_state" where
  "log_sink_callback_set_callback E log_callback context s =
     (case log_callback of
        None \<Rightarrow> (MU_FAILURE E,
                 [Printf (''Invalid arguments: LOG_SINK_CALLBACK_LOG log_callback=%p, void* context=%p'' @ CRLF)
                    [APtr NULL, APtr context]], s)
      | Some cb \<Rightarrow> (0, [], s\<lparr>log_sink_callback_callback := cb, log_sink_callback_context := context\<rparr>))"

definition log_sink_callback_set_max_level :: "LOG_LEVEL \<Rightarrow> 'w callback_state \<Rightarrow> 'w callback_state" where
  "log_sink_callback_set_max_level log_level s = s\<lparr>log_sink_callback_max_level := log_level\<rparr>"

definition call_back :: "'w callback_state \<Rightarrow> LOG_LEVEL \<Rightarrow> string \<Rightarrow> 'w \<Rightarrow> 'w" where
  "call_back s = log_sink_callback_callback s (log_sink_callback_context s)"

definition log_sink_callback_log ::
    "sink_env \<Rightarrow> 'w callback_state \<Rightarrow> LOG_LEVEL \<Rightarrow> LOG_CONTEXT_HANDLE \<Rightarrow> string option \<Rightarrow> string option \<Rightarrow> int \<Rightarrow>
     string option \<Rightarrow> carg list \<Rightarrow> mem \<Rightarrow> 'w \<Rightarrow> ('w \<times> stdout_call list \<times> mem) option" where
  "log_sink_callback_log S s log_level log_context file func line message_format args m w =
     (case message_format of
        None \<Rightarrow> Some (call_back s LOG_LEVEL_CRITICAL error_string_invalid_args w, [], m)
      | Some f \<Rightarrow>
          if log_sink_callback_max_level s < log_level then Some (w, [], m)
          else do {
            (snprintf_result, m1) \<leftarrow> snprintf (lib S) (temp S) LOG_MAX_MESSAGE_LENGTH
               ''Time:%.24s File:%s:%d Func:%s''
               [AStr (MU_P_OR_NULL (lib S) (ctime_result S)), AStr (MU_P_OR_NULL (lib S) file), AInt line,
                AStr (MU_P_OR_NULL (lib S) func)] m;
            if snprintf_result < 0 then Some (call_back s LOG_LEVEL_CRITICAL callback_error_string w, [], m1)
            else (case advance_buffer (temp S) LOG_MAX_MESSAGE_LENGTH snprintf_result of
              (buffer, buffer_size) \<Rightarrow> do {
                (error, out, m2) \<leftarrow> append_rest (lib S) log_context f args buffer buffer_size m1;
                if error then Some (call_back s LOG_LEVEL_CRITICAL callback_error_string w, out, m2)
                else do {
                  message \<leftarrow> c_str m2 (temp S);
                  Some (call_back s log_level message w, out, m2) } }) })"

section \<open>Properties\<close>

definition callback_header :: "sink_env \<Rightarrow> string option \<Rightarrow> string option \<Rightarrow> int \<Rightarrow> string" where
  "callback_header S file func line =
     ''Time:'' @ take 24 (MU_P_OR_NULL (lib S) (ctime_result S)) @
     '' File:'' @ MU_P_OR_NULL (lib S) file @ '':'' @ show_int line @ '' Func:'' @ MU_P_OR_NULL (lib S) func"

lemma callback_header_printf:
  "c_printf ''Time:%.24s File:%s:%d Func:%s'' [AStr t, AStr fl, AInt n, AStr fn] =
   Some (''Time:'' @ take 24 t @ '' File:'' @ fl @ '':'' @ show_int n @ '' Func:'' @ fn)"
proof -
  have d: "digit_value CHR ''2'' = 2" "digit_value CHR ''4'' = 4" by code_simp+
  show ?thesis by (simp add: c_printf_def c_conv_def is_digit_def d)
qed

lemma callback_after_header:
  assumes "sink_ready S h m" "l \<le> log_sink_callback_max_level s" "int (length (callback_header S file func line)) \<le> INT_MAX"
  defines "H \<equiv> callback_header S file func line"
  shows "log_sink_callback_log S s l h file func line (Some f) args m w = do {
     (error, out, m2) \<leftarrow> append_rest (lib S) h f args (temp S + advance LOG_MAX_MESSAGE_LENGTH H)
        (LOG_MAX_MESSAGE_LENGTH - advance LOG_MAX_MESSAGE_LENGTH H) (put_cstr m (temp S) LOG_MAX_MESSAGE_LENGTH H);
     if error then Some (call_back s LOG_LEVEL_CRITICAL callback_error_string w, out, m2)
     else do {
       message \<leftarrow> c_str m2 (temp S);
       Some (call_back s l message w, out, m2) } }"
proof -
  have "snprintf (lib S) (temp S) LOG_MAX_MESSAGE_LENGTH ''Time:%.24s File:%s:%d Func:%s''
      [AStr (MU_P_OR_NULL (lib S) (ctime_result S)), AStr (MU_P_OR_NULL (lib S) file), AInt line,
       AStr (MU_P_OR_NULL (lib S) func)] m = Some (int (length H), put_cstr m (temp S) LOG_MAX_MESSAGE_LENGTH H)"
    using assms(1,3)
    by (intro vsnprintf_ok conforming_fmt) (auto simp: sink_ready_def H_def callback_header_def callback_header_printf)
  moreover have "advance_buffer (temp S) LOG_MAX_MESSAGE_LENGTH (int (length H)) =
      (temp S + advance LOG_MAX_MESSAGE_LENGTH H, LOG_MAX_MESSAGE_LENGTH - advance LOG_MAX_MESSAGE_LENGTH H)"
    by (subst advance_buffer_text) (simp_all add: advance_def LOG_MAX_MESSAGE_LENGTH_def INT_MAX_def)
  ultimately show ?thesis using assms(2) by (simp add: log_sink_callback_log_def not_less [symmetric])
qed

lemma callback_calls_line:
  assumes "sink_ready S h m" "handle_inv prints_anywhere m h ts"
    and "fmt (lib S) f args = Some msg" "int (length msg) \<le> INT_MAX"
    and "int (length (callback_header S file func line)) \<le> INT_MAX"
    and "h \<noteq> None \<Longrightarrow> length (callback_header S file func line) < LOG_MAX_MESSAGE_LENGTH"
    and "NUL \<notin> set (callback_header S file func line @ render ts @ '' '' @ msg)"
  shows "if l \<le> log_sink_callback_max_level s then
       \<exists>m'. log_sink_callback_log S s l h file func line (Some f) args m w =
         Some (call_back s l (take 4095 (callback_header S file func line @ render ts @ '' '' @ msg)) w, [], m') \<and>
         unchanged m m' (temp S) LOG_MAX_MESSAGE_LENGTH \<and> keeps_accessible m m'
     else log_sink_callback_log S s l h file func line (Some f) args m w = Some (w, [], m)"
proof (cases "l \<le> log_sink_callback_max_level s")
  case True
  define H where "H = callback_header S file func line"
  let ?n = LOG_MAX_MESSAGE_LENGTH
  define all where "all = H @ render ts @ '' '' @ msg"
  have n: "0 < ?n" "int ?n \<le> INT_MAX" "?n - 1 = 4095" by (simp_all add: LOG_MAX_MESSAGE_LENGTH_def INT_MAX_def)
  have rest: "append_rest (lib S) h f args (temp S + advance ?n H) (?n - advance ?n H) (put_cstr m (temp S) ?n H) =
      Some (False, [], put_cstr m (temp S) ?n all)"
    unfolding all_def
    by (rule append_rest_ok [OF _ assms(2-4)]) (use assms(1,6) n in \<open>auto simp: sink_ready_def H_def\<close>)
  have str: "c_str (put_cstr m (temp S) ?n all) (temp S) = Some (take 4095 all)"
    using assms(7) n by (subst c_str_put_cstr) (auto simp: all_def H_def)
  from callback_after_header [OF assms(1) True assms(5)] True rest str show ?thesis
    unfolding H_def [symmetric] all_def [symmetric] by (simp add: unchanged_put_cstr keeps_put_cstr)
next
  case False
  then have "log_sink_callback_max_level s < l" by simp
  then have "log_sink_callback_log S s l h file func line (Some f) args m w = Some (w, [], m)"
    by (simp add: log_sink_callback_log_def)
  with False show ?thesis by (simp only: if_False)
qed

text \<open>
  C9: A registered callback receives every line up to its maximum level: after
  \<open>set_callback\<close> and \<open>set_max_level\<close>, in either order, a log call at a level not above the
  maximum calls the callback exactly once, with its context, the level of the call and the
  line (time, file, line, function, properties, message) cut after 4095 characters; a call
  above the maximum changes nothing.
\<close>
theorem callback_receives_line:
  assumes "sink_ready S h m" "handle_inv prints_anywhere m h ts"
    and "fmt (lib S) f args = Some msg" "int (length msg) \<le> INT_MAX"
    and "int (length (callback_header S file func line)) \<le> INT_MAX"
    and "h \<noteq> None \<Longrightarrow> length (callback_header S file func line) < LOG_MAX_MESSAGE_LENGTH"
    and "NUL \<notin> set (callback_header S file func line @ render ts @ '' '' @ msg)"
    and "snd (snd (log_sink_callback_set_callback (lib S) (Some cb) ctx (log_sink_callback_set_max_level mx s0))) = s \<or>
      log_sink_callback_set_max_level mx (snd (snd (log_sink_callback_set_callback (lib S) (Some cb) ctx s0))) = s"
  shows "if l \<le> mx then
       \<exists>m'. log_sink_callback_log S s l h file func line (Some f) args m w =
         Some (cb ctx l (take 4095 (callback_header S file func line @ render ts @ '' '' @ msg)) w, [], m') \<and>
         unchanged m m' (temp S) LOG_MAX_MESSAGE_LENGTH
     else log_sink_callback_log S s l h file func line (Some f) args m w = Some (w, [], m)"
proof -
  have s: "log_sink_callback_max_level s = mx" "call_back s = cb ctx"
    using assms(8) by (auto simp: log_sink_callback_set_callback_def log_sink_callback_set_max_level_def call_back_def)
  from callback_calls_line [OF assms(1-7), of l s w] show ?thesis unfolding s by (auto split: if_splits)
qed

text \<open>What a log call does to the client's world, on every path.\<close>

definition callback_world ::
    "sink_env \<Rightarrow> 'w callback_state \<Rightarrow> LOG_LEVEL \<Rightarrow> LOG_CONTEXT_HANDLE \<Rightarrow> ptree list \<Rightarrow> string option \<Rightarrow> string option \<Rightarrow>
     int \<Rightarrow> string option \<Rightarrow> carg list \<Rightarrow> 'w \<Rightarrow> 'w" where
  "callback_world S s l h ts file func line message_format args w =
     (case message_format of
        None \<Rightarrow> call_back s LOG_LEVEL_CRITICAL error_string_invalid_args w
      | Some f \<Rightarrow>
         if log_sink_callback_max_level s < l then w
         else case expected_line (lib S) (callback_header S file func line) h ts f args of
            None \<Rightarrow> call_back s LOG_LEVEL_CRITICAL callback_error_string w
          | Some txt \<Rightarrow> call_back s l txt w)"

lemma callback_returns:
  assumes "sink_ready S h m" "handle_inv prints_anywhere m h ts"
  shows "\<exists>m'. log_sink_callback_log S s l h file func line f args m w =
       Some (callback_world S s l h ts file func line f args w, [], m') \<and>
     unchanged m m' (temp S) LOG_MAX_MESSAGE_LENGTH \<and> keeps_accessible m m' \<and>
     (f = None \<or> log_sink_callback_max_level s < l \<longrightarrow> m' = m)"
proof (cases "\<exists>fm. f = Some fm \<and> l \<le> log_sink_callback_max_level s")
  case False
  then show ?thesis by (cases f) (auto simp: log_sink_callback_log_def callback_world_def not_le)
next
  case True
  then obtain fm where f: "f = Some fm" and l: "l \<le> log_sink_callback_max_level s" by blast
  then have below: "\<not> log_sink_callback_max_level s < l" by simp
  define H where "H = callback_header S file func line"
  have r: "conforming (lib S)" "temp S \<noteq> NULL" "accessible m (temp S) LOG_MAX_MESSAGE_LENGTH"
    "apart h (temp S) LOG_MAX_MESSAGE_LENGTH" using assms(1) by (auto simp: sink_ready_def)
  show ?thesis
  proof (cases "int (length H) \<le> INT_MAX")
    case True
    from append_rest_total [OF r(1) assms(2) r(2-4), of fm args H] True below show ?thesis
      unfolding f callback_after_header [OF assms(1) l True [unfolded H_def]] H_def [symmetric]
      by (cases "expected_rest (lib S) H h ts fm args")
        (auto simp: callback_world_def expected_line_def H_def c_str_fits)
  next
    case False
    then have "fmt (lib S) ''Time:%.24s File:%s:%d Func:%s''
        [AStr (MU_P_OR_NULL (lib S) (ctime_result S)), AStr (MU_P_OR_NULL (lib S) file), AInt line,
         AStr (MU_P_OR_NULL (lib S) func)] = Some H"
      by (intro conforming_fmt [OF r(1)]) (simp add: H_def callback_header_def callback_header_printf)
    with False below show ?thesis
      by (simp add: f log_sink_callback_log_def vsnprintf_def callback_world_def expected_line_def H_def)
  qed
qed

text \<open>
  C31: The callback sink on every path: for any level, state of the sink, file, function,
  line, format and arguments, and no context or a well-formed one of integer, boolean,
  character-string and struct properties (wide strings and children of a context that
  overflowed are not among them), a log call returns, prints nothing and writes only to the
  sink's buffer.  Without a format it calls the callback once, with the text for invalid
  arguments at the critical level; with a level above the maximum it does not call it and
  writes nothing; otherwise it calls it exactly once, with the error text at the critical
  level when the header cannot be formatted, leaves no room for the context, or the message does
  not format although there is room for it, and with the level of the call and the line, what
  fits of it in 4095 characters up to its first null character, in every other case.
\<close>
theorem callback_total:
  assumes "sink_ready S h m" "handle_inv prints_anywhere m h ts"
  shows "\<exists>m'. log_sink_callback_log S s l h file func line f args m w =
       Some (callback_world S s l h ts file func line f args w, [], m') \<and>
     unchanged m m' (temp S) LOG_MAX_MESSAGE_LENGTH \<and> keeps_accessible m m' \<and>
     (f = None \<or> log_sink_callback_max_level s < l \<longrightarrow> m' = m)"
  by (rule callback_returns [OF assms])

text \<open>
  \<open>set_callback\<close> with \<open>NULL\<close> fails without changing the registered callback, and a log
  call without a format reports the invalid arguments to the callback at the critical
  level, whatever the maximum level is.
\<close>

lemma callback_errors:
  "log_sink_callback_set_callback E None ctx s = (MU_FAILURE E,
     [Printf (''Invalid arguments: LOG_SINK_CALLBACK_LOG log_callback=%p, void* context=%p'' @ CRLF)
        [APtr NULL, APtr ctx]], s) \<and>
   log_sink_callback_log S (log_sink_callback_set_max_level mx s) l h file func line None args m w =
     Some (call_back s LOG_LEVEL_CRITICAL error_string_invalid_args w, [], m)"
  by (simp add: log_sink_callback_set_callback_def log_sink_callback_log_def call_back_def
      log_sink_callback_set_max_level_def)

section \<open>Witnesses\<close>

definition demo_callback :: "(LOG_LEVEL \<times> string) list LOG_SINK_CALLBACK_LOG" where
  "demo_callback context log_level message w = (log_level, message) # w"

definition demo_callback_state :: "(LOG_LEVEL \<times> string) list callback_state" where
  "demo_callback_state = snd (snd (log_sink_callback_set_callback std_env (Some demo_callback) 77
     (log_sink_callback_set_max_level LOG_LEVEL_INFO callback_state_initial)))"

theorem callback_receives_line_witness:
  "\<exists>m'. log_sink_callback_log demo_sink demo_callback_state LOG_LEVEL_ERROR None (Some ''f.c'') (Some ''main'') 42
       (Some ''n=%d'') [AInt 7] demo_stack [] =
     Some ([(LOG_LEVEL_ERROR, ''Time:Thu Jan  1 00:00:00 1970 File:f.c:42 Func:main n=7'')], [], m')"
proof -
  have f: "fmt (lib demo_sink) ''n=%d'' [AInt 7] = Some ''n=7''" by code_simp
  have r: "sink_ready demo_sink None demo_stack" by (rule demo_sink_ready) (simp add: apart_def)
  have h: "handle_inv prints_anywhere demo_stack None []" by (simp add: handle_inv_def)
  have hd: "callback_header demo_sink (Some ''f.c'') (Some ''main'') 42 =
      ''Time:Thu Jan  1 00:00:00 1970 File:f.c:42 Func:main''" by code_simp
  have s: "snd (snd (log_sink_callback_set_callback (lib demo_sink) (Some demo_callback) 77
      (log_sink_callback_set_max_level LOG_LEVEL_INFO callback_state_initial))) = demo_callback_state"
    by (simp add: demo_callback_state_def demo_sink_def)
  have le: "LOG_LEVEL_ERROR \<le> LOG_LEVEL_INFO"
    by (simp add: less_eq_LOG_LEVEL_def LOG_LEVEL_ERROR_def LOG_LEVEL_INFO_def)
  show ?thesis
    using callback_receives_line [OF r h f _ _ _ _ disjI1 [OF s], of "Some ''f.c''" "Some ''main''" 42 LOG_LEVEL_ERROR "[]"] le
    by (auto simp: INT_MAX_def hd demo_callback_def)
qed

theorem callback_total_witness:
  "(\<exists>m'. log_sink_callback_log demo_sink demo_callback_state LOG_LEVEL_ERROR None None None (- 1) (Some ''%s'') [] demo_stack [] =
       Some ([(LOG_LEVEL_CRITICAL, callback_error_string)], [], m')) \<and>
   (\<exists>m'. log_sink_callback_log demo_sink demo_callback_state LOG_LEVEL_ERROR None (Some ''f.c'') (Some ''main'') 42
       (Some ''n=%d'') [AInt 7] demo_stack [] =
       Some ([(LOG_LEVEL_ERROR, ''Time:Thu Jan  1 00:00:00 1970 File:f.c:42 Func:main n=7'')], [], m')) \<and>
   log_sink_callback_log demo_sink demo_callback_state LOG_LEVEL_VERBOSE None None None (- 1) (Some ''%s'') [] demo_stack [] =
     Some ([], [], demo_stack)"
proof -
  have w: "callback_world demo_sink demo_callback_state LOG_LEVEL_ERROR None [] None None (- 1) (Some ''%s'') [] [] =
      [(LOG_LEVEL_CRITICAL, callback_error_string)]"
    "callback_world demo_sink demo_callback_state LOG_LEVEL_ERROR None [] (Some ''f.c'') (Some ''main'') 42 (Some ''n=%d'') [AInt 7] [] =
      [(LOG_LEVEL_ERROR, ''Time:Thu Jan  1 00:00:00 1970 File:f.c:42 Func:main n=7'')]"
    "callback_world demo_sink demo_callback_state LOG_LEVEL_VERBOSE None [] None None (- 1) (Some ''%s'') [] [] = []"
    "log_sink_callback_max_level demo_callback_state < LOG_LEVEL_VERBOSE"
    by code_simp+
  have h: "apart None 6000 4096" "handle_inv prints_anywhere demo_stack None []"
    by (simp_all add: apart_def handle_inv_def)
  note t = callback_total [OF demo_sink_ready [OF h(1)] h(2), of demo_callback_state]
  from t [of LOG_LEVEL_ERROR None None "- 1" "Some ''%s''" "[]" "[]"]
    t [of LOG_LEVEL_ERROR "Some ''f.c''" "Some ''main''" 42 "Some ''n=%d''" "[AInt 7]" "[]"]
    t [of LOG_LEVEL_VERBOSE None None "- 1" "Some ''%s''" "[]" "[]"]
  show ?thesis unfolding w(1-3) using w(4) by blast
qed

end
