(* ===== verification/Logger.thy ===== *)
theory Logger
  imports Log_Sink_Callback
begin

text \<open>
  \<open>logger.c\<close>, \<open>logger.h\<close>, \<open>logger_sinks_config.c\<close> and \<open>logger_v1_v2.h\<close>: the logger's
  initialisation counter and state, and the dispatch of a log call to every sink.  The
  sinks act on a world of type \<open>'w\<close>, as the thread stack module the logger initialises does.
  A run that reads a sink outside the array is undefined, a log call in the wrong state
  aborts.  The locale \<open>sink_protocol\<close> is what the logger promises to sinks that expect to be
  initialised before they are used; it is interpreted for the sinks of the library in
  \<open>Logger_Sinks\<close>.
\<close>

section \<open>State\<close>

datatype LOGGER_STATE =
    LOGGER_STATE_NOT_INITIALIZED
  | LOGGER_STATE_INITIALIZED
  | LOGGER_STATE_other int \<comment> \<open>any value that is not an enumerator\<close>

text \<open>An array of sinks is \<^term>\<open>None\<close> for \<open>NULL\<close>.\<close>

record 'w LOGGER_CONFIG =
  config_log_sink_count :: nat
  config_log_sinks :: "'w LOG_SINK_IF list option"

record 'w logger =
  logger_init_count :: nat
  logger_state :: LOGGER_STATE
  log_sink_count :: nat
  log_sinks :: "'w LOG_SINK_IF list option"
  world :: 'w

text \<open>What the logger calls: the libraries, \<open>printf\<close> and the thread stack module.\<close>

record 'w logger_env =
  libc :: c_env
  printf :: "stdout_call \<Rightarrow> 'w \<Rightarrow> 'w"
  stack_init :: "'w \<Rightarrow> int \<times> 'w"
  stack_deinit :: "'w \<Rightarrow> 'w"
  state_value :: "LOGGER_STATE \<Rightarrow> int"

definition logger_initial :: "nat \<Rightarrow> 'w LOG_SINK_IF list option \<Rightarrow> 'w \<Rightarrow> 'w logger" where
  "logger_initial n sinks w =
     \<lparr>logger_init_count = 0, logger_state = LOGGER_STATE_NOT_INITIALIZED,
      log_sink_count = n, log_sinks = sinks, world = w\<rparr>"

definition sink_at :: "'w LOG_SINK_IF list option \<Rightarrow> nat \<Rightarrow> 'w LOG_SINK_IF option" where
  "sink_at sinks i = (case sinks of None \<Rightarrow> None | Some ss \<Rightarrow> if i < length ss then Some (ss ! i) else None)"

section \<open>Initialisation\<close>

definition init_failed :: "'w logger_env \<Rightarrow> nat \<Rightarrow> 'w \<Rightarrow> 'w" where
  "init_failed L i = printf L (Printf (''init of sink at index %u failed'' @ CRLF) [AInt (int i)])"

text \<open>The loop that initialises the sinks: the index at which it ended, and the world.\<close>

function init_sinks :: "'w logger_env \<Rightarrow> 'w LOG_SINK_IF list option \<Rightarrow> nat \<Rightarrow> nat \<Rightarrow> 'w \<Rightarrow> (nat \<times> 'w) option" where
  "init_sinks L sinks n i w =
     (if i < n then
        (case sink_at sinks i of
           None \<Rightarrow> None
         | Some s \<Rightarrow>
             (case sink_init s w of
                None \<Rightarrow> None
              | Some (r, w1) \<Rightarrow>
                  if r \<noteq> 0 then Some (i, init_failed L i w1)
                  else init_sinks L sinks n (i + 1) w1))
      else Some (i, w))"
  by pat_completeness auto
termination by (relation "measure (\<lambda>(L, sinks, n, i, w). n - i)") auto

function deinit_sinks :: "'w LOG_SINK_IF list option \<Rightarrow> nat \<Rightarrow> nat \<Rightarrow> 'w \<Rightarrow> 'w option" where
  "deinit_sinks sinks n j w =
     (if j < n then
        (case sink_at sinks j of None \<Rightarrow> None | Some s \<Rightarrow> deinit_sinks sinks n (j + 1) (sink_deinit s w))
      else Some w)"
  by pat_completeness auto
termination by (relation "measure (\<lambda>(sinks, n, j, w). n - j)") auto

declare init_sinks.simps [simp del] deinit_sinks.simps [simp del]

definition unexpected_state :: "'w logger_env \<Rightarrow> 'w logger \<Rightarrow> 'w" where
  "unexpected_state L s =
     printf L (Printf (''Unexpected logger state: %'' @ PRI_MU_ENUM (libc L))
       (MU_ENUM_VALUE (libc L) ''LOGGER_STATE'' (state_value L (logger_state s)))) (world s)"

definition logger_init :: "'w logger_env \<Rightarrow> 'w logger \<Rightarrow> failure + (int \<times> 'w logger)" where
  "logger_init L s =
     (case logger_state s of
        LOGGER_STATE_other _ \<Rightarrow> Inr (MU_FAILURE (libc L), s\<lparr>world := unexpected_state L s\<rparr>)
      | LOGGER_STATE_INITIALIZED \<Rightarrow> Inr (0, s\<lparr>logger_init_count := to_uint32 (int (logger_init_count s) + 1)\<rparr>)
      | LOGGER_STATE_NOT_INITIALIZED \<Rightarrow>
          (case stack_init L (world s) of
             (r, w1) \<Rightarrow>
               if r \<noteq> 0 then
                 Inr (MU_FAILURE (libc L),
                      s\<lparr>world := printf L (Printf ''Failure in get_thread_stack_init()'' []) w1\<rparr>)
               else
                 let s1 = s\<lparr>logger_init_count := 1\<rparr> in
                 (case init_sinks L (log_sinks s) (log_sink_count s) 0 w1 of
                    None \<Rightarrow> Inl Undefined
                  | Some (i, w2) \<Rightarrow>
                      if i < log_sink_count s then
                        (case deinit_sinks (log_sinks s) i 0 w2 of
                           None \<Rightarrow> Inl Undefined
                         | Some w3 \<Rightarrow>
                             Inr (MU_FAILURE (libc L), s1\<lparr>world := stack_deinit L w3\<rparr>))
                      else
                        Inr (0, s1\<lparr>logger_state := LOGGER_STATE_INITIALIZED, world := w2\<rparr>))))"

definition logger_deinit :: "'w logger_env \<Rightarrow> 'w logger \<Rightarrow> failure + 'w logger" where
  "logger_deinit L s =
     (case logger_state s of
        LOGGER_STATE_other _ \<Rightarrow> Inr (s\<lparr>world := unexpected_state L s\<rparr>)
      | LOGGER_STATE_NOT_INITIALIZED \<Rightarrow>
          Inr (s\<lparr>world := printf L (Printf (''logger_deinit called in state %'' @ PRI_MU_ENUM (libc L) @ CRLF)
                  (MU_ENUM_VALUE (libc L) ''LOGGER_STATE'' (state_value L (logger_state s)))) (world s)\<rparr>)
      | LOGGER_STATE_INITIALIZED \<Rightarrow>
          let n = to_uint32 (int (logger_init_count s) - 1); s1 = s\<lparr>logger_init_count := n\<rparr> in
          if n = 0 then
            (case deinit_sinks (log_sinks s) (log_sink_count s) 0 (world s) of
               None \<Rightarrow> Inl Undefined
             | Some w \<Rightarrow>
                 Inr (s1\<lparr>world := stack_deinit L w, logger_state := LOGGER_STATE_NOT_INITIALIZED\<rparr>))
          else Inr s1)"

definition logger_get_config :: "'w logger \<Rightarrow> 'w LOGGER_CONFIG" where
  "logger_get_config s = \<lparr>config_log_sink_count = log_sink_count s, config_log_sinks = log_sinks s\<rparr>"

definition logger_set_config :: "'w LOGGER_CONFIG \<Rightarrow> 'w logger \<Rightarrow> 'w logger" where
  "logger_set_config new_config s =
     s\<lparr>log_sinks := config_log_sinks new_config, log_sink_count := config_log_sink_count new_config\<rparr>"

section \<open>Logging\<close>

record log_call =
  log_level :: LOG_LEVEL
  log_context :: LOG_CONTEXT_HANDLE
  file_name :: "string option"
  func_name :: "string option"
  line_no :: int
  call_format :: "string option"
  format_args :: "carg list"

definition call_sink :: "log_call \<Rightarrow> 'w LOG_SINK_IF \<Rightarrow> 'w \<Rightarrow> 'w option" where
  "call_sink c s = sink_log s (log_level c) (log_context c) (file_name c) (func_name c) (line_no c) (call_format c) (format_args c)"

function log_to_sinks :: "log_call \<Rightarrow> 'w LOG_SINK_IF list option \<Rightarrow> nat \<Rightarrow> nat \<Rightarrow> 'w \<Rightarrow> 'w option" where
  "log_to_sinks c sinks n i w =
     (if i < n then
        (case sink_at sinks i of
           None \<Rightarrow> None
         | Some s \<Rightarrow> (case call_sink c s w of None \<Rightarrow> None | Some w1 \<Rightarrow> log_to_sinks c sinks n (i + 1) w1))
      else Some w)"
  by pat_completeness auto
termination by (relation "measure (\<lambda>(c, sinks, n, i, w). n - i)") auto

declare log_to_sinks.simps [simp del]

definition logger_log :: "log_call \<Rightarrow> 'w logger \<Rightarrow> failure + 'w logger" where
  "logger_log c s =
     (if logger_state s \<noteq> LOGGER_STATE_INITIALIZED then Inl (Aborted [])
      else (case log_to_sinks c (log_sinks s) (log_sink_count s) 0 (world s) of
              None \<Rightarrow> Inl Undefined
            | Some w \<Rightarrow> Inr (s\<lparr>world := w\<rparr>)))"

text \<open>How a configuration is printed; \<open>p\<close> is the address of its array.\<close>

definition PRI_LOGGER_CONFIG :: string where
  "PRI_LOGGER_CONFIG = ''s(LOGGER_CONFIG){.log_sinks=%p, .log_sink_count=%u}''"

definition LOGGER_CONFIG_VALUES :: "addr \<Rightarrow> 'w LOGGER_CONFIG \<Rightarrow> carg list" where
  "LOGGER_CONFIG_VALUES p logger_config = [AStr '''', APtr p, AInt (int (config_log_sink_count logger_config))]"

definition logger_log_with_config ::
    "'w logger_env \<Rightarrow> (LOG_CONTEXT_HANDLE \<Rightarrow> addr) \<Rightarrow> 'w LOGGER_CONFIG \<Rightarrow> log_call \<Rightarrow> 'w logger \<Rightarrow> failure + 'w logger" where
  "logger_log_with_config L address logger_config c s =
     (if 0 < config_log_sink_count logger_config \<and> config_log_sinks logger_config = None then
        Inr (s\<lparr>world := printf L
          (Printf (''Invalid arguments: LOGGER_CONFIG logger_config=%'' @ PRI_LOGGER_CONFIG @ '', LOG_LEVEL log_level=%'' @
             PRI_MU_ENUM (libc L) @
             '', LOG_CONTEXT_HANDLE log_context=%p, const char* file=%s, const char* func=%s, int line_no=%d, const char* format=%s'')
            (LOGGER_CONFIG_VALUES NULL logger_config @
             MU_ENUM_VALUE (libc L) ''LOG_LEVEL'' (level_value (log_level c)) @
             [APtr (address (log_context c)), AStr (MU_P_OR_NULL (libc L) (file_name c)),
              AStr (MU_P_OR_NULL (libc L) (func_name c)), AInt (line_no c), AStr (MU_P_OR_NULL (libc L) (call_format c))]))
          (world s)\<rparr>)
      else if logger_state s \<noteq> LOGGER_STATE_INITIALIZED then Inl (Aborted [])
      else (case log_to_sinks c (config_log_sinks logger_config) (config_log_sink_count logger_config) 0 (world s) of
              None \<Rightarrow> Inl Undefined
            | Some w \<Rightarrow> Inr (s\<lparr>world := w\<rparr>)))"

section \<open>The loops as folds over the sinks\<close>

text \<open>
  \<open>init_run ss w\<close>: the sinks are initialised in order up to the first that fails; how many
  succeeded, whether all did, and the world.
\<close>

fun init_run :: "'w LOG_SINK_IF list \<Rightarrow> 'w \<Rightarrow> (nat \<times> bool \<times> 'w) option" where
  "init_run [] w = Some (0, True, w)"
| "init_run (s # ss) w = do {
     (r, w1) \<leftarrow> sink_init s w;
     if r \<noteq> 0 then Some (0, False, w1)
     else do { (k, b, w2) \<leftarrow> init_run ss w1; Some (Suc k, b, w2) } }"

definition deinit_run :: "'w LOG_SINK_IF list \<Rightarrow> 'w \<Rightarrow> 'w" where
  "deinit_run ss w = fold sink_deinit ss w"

fun log_run :: "log_call \<Rightarrow> 'w LOG_SINK_IF list \<Rightarrow> 'w \<Rightarrow> 'w option" where
  "log_run c [] w = Some w"
| "log_run c (s # ss) w = do { w1 \<leftarrow> call_sink c s w; log_run c ss w1 }"

lemma init_run_count: "init_run ss w = Some (k, b, w') \<Longrightarrow> k \<le> length ss \<and> (b \<longleftrightarrow> k = length ss)"
  by (induction ss arbitrary: w k) (fastforce split: Option.bind_splits if_splits)+

lemma drop_take_nth: "i < n \<Longrightarrow> n \<le> length ss \<Longrightarrow> drop i (take n ss) = ss ! i # drop (Suc i) (take n ss)"
  by (metis Cons_nth_drop_Suc length_take min.absorb2 nth_take)

lemma sink_at_Some [simp]: "i < length ss \<Longrightarrow> sink_at (Some ss) i = Some (ss ! i)"
  by (simp add: sink_at_def)

lemma init_sinks_run:
  assumes "n \<le> length ss" "i \<le> n"
  shows "init_sinks L (Some ss) n i w =
    map_option (\<lambda>(k, b, w'). (i + k, if b then w' else init_failed L (i + k) w')) (init_run (drop i (take n ss)) w)"
  using assms
proof (induction L "Some ss" n i w rule: init_sinks.induct)
  case (1 L n i w)
  show ?case
  proof (cases "i < n")
    case True
    then show ?thesis using 1
      by (subst init_sinks.simps) (auto simp: drop_take_nth split: option.splits Option.bind_splits)
  next
    case False
    with "1.prems" show ?thesis by (subst init_sinks.simps) simp
  qed
qed

lemma deinit_sinks_run:
  "n \<le> length ss \<Longrightarrow> j \<le> n \<Longrightarrow> deinit_sinks (Some ss) n j w = Some (deinit_run (drop j (take n ss)) w)"
proof (induction "Some ss" n j w rule: deinit_sinks.induct)
  case (1 n j w)
  then show ?case
    by (subst deinit_sinks.simps) (cases "j < n", auto simp: drop_take_nth deinit_run_def)
qed

lemma log_to_sinks_run:
  "n \<le> length ss \<Longrightarrow> i \<le> n \<Longrightarrow> log_to_sinks c (Some ss) n i w = log_run c (drop i (take n ss)) w"
proof (induction c "Some ss" n i w rule: log_to_sinks.induct)
  case (1 c n i w)
  then show ?case
    by (subst log_to_sinks.simps) (cases "i < n", auto simp: drop_take_nth split: option.splits)
qed

section \<open>Properties\<close>

text \<open>
  C17: The first initialisation: after the thread stack module, the sinks are initialised in
  the order of the array.  When all succeed the logger is initialised with a count of one;
  when one fails, exactly the sinks before it are deinitialised, in order, the thread
  stack module is deinitialised, the result is a failure and the logger stays
  uninitialised.
\<close>
theorem logger_init_first:
  assumes "logger_state s = LOGGER_STATE_NOT_INITIALIZED" "log_sinks s = Some ss" "log_sink_count s \<le> length ss"
    and "stack_init L (world s) = (0, w1)" "init_run (take (log_sink_count s) ss) w1 = Some (k, all, w2)"
  shows "logger_init L s =
    Inr (if all then (0, s\<lparr>logger_init_count := 1, logger_state := LOGGER_STATE_INITIALIZED, world := w2\<rparr>)
         else (MU_FAILURE (libc L), s\<lparr>logger_init_count := 1,
            world := stack_deinit L (deinit_run (take k ss) (init_failed L k w2))\<rparr>))"
proof -
  have k: "k \<le> log_sink_count s" "all \<longleftrightarrow> k = log_sink_count s"
    using init_run_count [OF assms(5)] assms(3) by auto
  have i: "init_sinks L (Some ss) (log_sink_count s) 0 w1 = Some (k, if all then w2 else init_failed L k w2)"
    by (simp add: init_sinks_run [OF assms(3)] assms(5))
  have d: "deinit_sinks (Some ss) k 0 w = Some (deinit_run (take k ss) w)" for w
    using deinit_sinks_run [of k ss 0 w] k(1) assms(3) by simp
  show ?thesis using k by (simp add: logger_init_def assms(1,2,4) i d Let_def)
qed

text \<open>
  C25: A log call on an initialised logger calls every configured sink exactly once, in the
  order of the array and with the same arguments, and changes nothing else of the logger;
  it is undefined only when a sink is.  With a configuration of its own it does the same
  with the sinks of that configuration; in any other state it aborts.
\<close>
theorem logger_log_dispatch:
  assumes "log_sinks s = Some ss" "log_sink_count s \<le> length ss"
    and "config_log_sinks cfg = Some ts" "config_log_sink_count cfg \<le> length ts"
  shows "logger_log c s = (if logger_state s = LOGGER_STATE_INITIALIZED then
      (case log_run c (take (log_sink_count s) ss) (world s) of None \<Rightarrow> Inl Undefined | Some w \<Rightarrow> Inr (s\<lparr>world := w\<rparr>))
      else Inl (Aborted [])) \<and>
    logger_log_with_config L address cfg c s = (if logger_state s = LOGGER_STATE_INITIALIZED then
      (case log_run c (take (config_log_sink_count cfg) ts) (world s) of None \<Rightarrow> Inl Undefined | Some w \<Rightarrow> Inr (s\<lparr>world := w\<rparr>))
      else Inl (Aborted []))"
  by (simp add: logger_log_def logger_log_with_config_def log_to_sinks_run assms)


section \<open>Runs of the logger\<close>

text \<open>
  The calls of a client, as events: \<open>Init\<close> carries the result of \<open>logger_init\<close>.  A run is a
  sequence of calls that all return.
\<close>

datatype 'w logger_event =
    Init int | Deinit | Log log_call | Log_with_config "'w LOGGER_CONFIG" log_call | Set_config "'w LOGGER_CONFIG"

inductive logger_step ::
    "'w logger_env \<Rightarrow> (LOG_CONTEXT_HANDLE \<Rightarrow> addr) \<Rightarrow> 'w logger \<Rightarrow> 'w logger_event \<Rightarrow> 'w logger \<Rightarrow> bool"
  for L address where
  init: "logger_step L address s (Init r) s'" if "logger_init L s = Inr (r, s')"
| deinit: "logger_step L address s Deinit s'" if "logger_deinit L s = Inr s'"
| log: "logger_step L address s (Log c) s'" if "logger_log c s = Inr s'"
| log_with_config: "logger_step L address s (Log_with_config cfg c) s'"
    if "logger_log_with_config L address cfg c s = Inr s'"
| set_config: "logger_step L address s (Set_config cfg) (logger_set_config cfg s)"

inductive logger_run ::
    "'w logger_env \<Rightarrow> (LOG_CONTEXT_HANDLE \<Rightarrow> addr) \<Rightarrow> 'w logger \<Rightarrow> 'w logger_event list \<Rightarrow> 'w logger \<Rightarrow> bool"
  for L address s where
  start: "logger_run L address s [] s"
| step: "logger_run L address s (tr @ [e]) s''" if "logger_run L address s tr s'" "logger_step L address s' e s''"

inductive_cases logger_stepE: "logger_step L address s e s'"

text \<open>The number of successful initialisations that are not undone yet.\<close>

fun count_event :: "nat \<Rightarrow> 'w logger_event \<Rightarrow> nat" where
  "count_event n (Init r) = (if r = 0 then n + 1 else n)"
| "count_event n Deinit = n - 1"
| "count_event n _ = n"

definition outstanding :: "'w logger_event list \<Rightarrow> nat" where
  "outstanding tr = foldl count_event 0 tr"

definition counted :: "nat \<Rightarrow> 'w logger \<Rightarrow> bool" where
  "counted n s \<longleftrightarrow>
     (logger_state s = LOGGER_STATE_INITIALIZED \<and> 0 < n \<and> logger_init_count s = n) \<or>
     (logger_state s = LOGGER_STATE_NOT_INITIALIZED \<and> n = 0)"

lemma counted_init:
  assumes "counted n s" "logger_init L s = Inr (r, s')" "MU_FAILURE (libc L) \<noteq> 0" "n + 1 < 2 ^ 32"
  shows "counted (count_event n (Init r)) s'"
proof (cases "logger_state s = LOGGER_STATE_INITIALIZED")
  case True
  with assms show ?thesis
    by (auto simp: counted_def logger_init_def to_uint32_id nat_add_distrib)
next
  case False
  with assms(1) have s: "logger_state s = LOGGER_STATE_NOT_INITIALIZED" "n = 0" by (auto simp: counted_def)
  with assms(2,3) show ?thesis
    by (auto simp: counted_def logger_init_def Let_def split: prod.splits if_splits option.splits)
qed

lemma counted_deinit:
  assumes "counted n s" "logger_deinit L s = Inr s'" "n < 2 ^ 32"
  shows "counted (n - 1) s'"
proof (cases "logger_state s = LOGGER_STATE_INITIALIZED")
  case True
  with assms(1) have n: "0 < n" "logger_init_count s = n" by (auto simp: counted_def)
  then have "to_uint32 (int (logger_init_count s) - 1) = n - 1" using assms(3) by (subst to_uint32_id) auto
  with True assms(2) n show ?thesis
    by (auto simp: counted_def logger_deinit_def Let_def split: if_splits option.splits)
next
  case False
  with assms show ?thesis by (auto simp: counted_def logger_deinit_def)
qed

lemma counted_step:
  assumes "logger_step L address s e s'" "counted n s" "MU_FAILURE (libc L) \<noteq> 0" "n + 1 < 2 ^ 32"
  shows "counted (count_event n e) s'"
  using assms
  by (cases rule: logger_step.cases)
    (auto simp: counted_init counted_deinit logger_log_def logger_log_with_config_def logger_set_config_def counted_def
      split: if_splits option.splits dest: counted_init [OF assms(2)] counted_deinit [OF assms(2)])

lemma outstanding_bound: "outstanding tr \<le> length tr"
proof (induction tr rule: rev_induct)
  case (snoc e tr)
  then show ?case by (cases e) (auto simp: outstanding_def)
qed (simp add: outstanding_def)

text \<open>
  C8: In every run of fewer than \<open>2^32\<close> calls from the start of the program, in whatever
  order, the logger is initialised exactly when more initialisations succeeded than were
  undone, and its counter is their number: pairs of \<open>logger_init\<close> and \<open>logger_deinit\<close> nest,
  a failing initialisation and a superfluous deinitialisation do not count, and changes of
  the configuration and log calls do not matter.
\<close>
theorem logger_run_counts:
  assumes "logger_run L address (logger_initial n sinks w) tr s" "MU_FAILURE (libc L) \<noteq> 0" "length tr < 2 ^ 32"
  shows "if outstanding tr = 0 then logger_state s = LOGGER_STATE_NOT_INITIALIZED
         else logger_state s = LOGGER_STATE_INITIALIZED \<and> logger_init_count s = outstanding tr"
proof -
  have "length tr < 2 ^ 32 \<Longrightarrow> counted (outstanding tr) s"
    using assms(1)
  proof (induction rule: logger_run.induct)
    case start
    then show ?case by (simp add: counted_def outstanding_def logger_initial_def)
  next
    case (step tr s' e s'')
    then have "counted (outstanding tr) s'" "outstanding tr + 1 < 2 ^ 32" using outstanding_bound [of tr] by auto
    from counted_step [OF step.hyps(2) this(1) assms(2) this(2)] show ?case by (simp add: outstanding_def)
  qed
  with assms(3) show ?thesis by (auto simp: counted_def)
qed


section \<open>The protocol the sinks see\<close>

text \<open>
  \<open>phase j n w\<close>: in the world \<open>w\<close> exactly the sinks \<open>j, ..., n - 1\<close> are initialised.  The laws
  say what each call of a sink does when it is made in the right phase; nothing is promised
  for a call in the wrong phase, so the lemmas show that the logger makes none.
\<close>

locale sink_protocol =
  fixes L :: "'w logger_env"
    and ss :: "'w LOG_SINK_IF list"
    and phase :: "nat \<Rightarrow> nat \<Rightarrow> 'w \<Rightarrow> bool"
    and ok :: "log_call \<Rightarrow> 'w \<Rightarrow> bool"
  assumes init_phase: "i < length ss \<Longrightarrow> phase 0 i w \<Longrightarrow>
      \<exists>r w'. sink_init (ss ! i) w = Some (r, w') \<and> phase 0 (if r = 0 then Suc i else i) w'"
    and deinit_phase: "j < n \<Longrightarrow> n \<le> length ss \<Longrightarrow> phase j n w \<Longrightarrow> phase (Suc j) n (sink_deinit (ss ! j) w)"
    and empty_phase: "n \<le> length ss \<Longrightarrow> phase n n w \<longleftrightarrow> phase 0 0 w"
    and log_phase: "i < length ss \<Longrightarrow> phase 0 (length ss) w \<Longrightarrow> ok c w \<Longrightarrow>
      \<exists>w'. call_sink c (ss ! i) w = Some w' \<and> phase 0 (length ss) w' \<and> ok c w'"
    and printf_phase: "phase j n w \<Longrightarrow> phase j n (printf L out w)"
    and stack_init_phase: "phase 0 0 w \<Longrightarrow> stack_init L w = (r, w') \<Longrightarrow> phase 0 0 w'"
    and stack_deinit_phase: "phase 0 0 w \<Longrightarrow> phase 0 0 (stack_deinit L w)"
begin

definition logger_inv :: "'w logger \<Rightarrow> bool" where
  "logger_inv s \<longleftrightarrow> log_sinks s = Some ss \<and> log_sink_count s = length ss \<and>
     (logger_state s = LOGGER_STATE_INITIALIZED \<and> phase 0 (length ss) (world s) \<or>
      logger_state s = LOGGER_STATE_NOT_INITIALIZED \<and> phase 0 0 (world s))"

lemma init_loop:
  "i \<le> length ss \<Longrightarrow> phase 0 i w \<Longrightarrow>
   \<exists>k w'. init_sinks L (Some ss) (length ss) i w = Some (k, w') \<and> k \<le> length ss \<and> phase 0 k w'"
proof (induction "length ss - i" arbitrary: i w)
  case 0
  then show ?case by (subst init_sinks.simps) simp
next
  case (Suc m)
  then have i: "i < length ss" by simp
  obtain r w1 where r: "sink_init (ss ! i) w = Some (r, w1)" and p: "phase 0 (if r = 0 then Suc i else i) w1"
    using init_phase [OF i Suc.prems(2)] by blast
  show ?case
  proof (cases "r = 0")
    case True
    then show ?thesis using Suc.hyps(1) [of "Suc i" w1] Suc.hyps(2) p i r
      by (subst init_sinks.simps) auto
  next
    case False
    then show ?thesis using p i r printf_phase
      by (subst init_sinks.simps) (auto simp: init_failed_def)
  qed
qed

lemma deinit_loop:
  "j \<le> n \<Longrightarrow> n \<le> length ss \<Longrightarrow> phase j n w \<Longrightarrow> \<exists>w'. deinit_sinks (Some ss) n j w = Some w' \<and> phase 0 0 w'"
proof (induction "n - j" arbitrary: j w)
  case 0
  then have "j = n" by simp
  with 0 empty_phase [of n w] show ?case by (subst deinit_sinks.simps) simp
next
  case (Suc m)
  then have j: "j < n" "j < length ss" by simp_all
  have "\<exists>w'. deinit_sinks (Some ss) n (Suc j) (sink_deinit (ss ! j) w) = Some w' \<and> phase 0 0 w'"
    by (rule Suc.hyps(1)) (use Suc deinit_phase j in auto)
  with j show ?case by (subst deinit_sinks.simps) simp
qed

lemma log_loop:
  "i \<le> length ss \<Longrightarrow> phase 0 (length ss) w \<Longrightarrow> ok c w \<Longrightarrow>
   \<exists>w'. log_to_sinks c (Some ss) (length ss) i w = Some w' \<and> phase 0 (length ss) w' \<and> ok c w'"
proof (induction "length ss - i" arbitrary: i w)
  case 0
  then show ?case by (subst log_to_sinks.simps) simp
next
  case (Suc m)
  then have i: "i < length ss" by simp
  obtain w1 where w1: "call_sink c (ss ! i) w = Some w1" "phase 0 (length ss) w1" "ok c w1"
    using log_phase [OF i Suc.prems(2,3)] by blast
  then show ?case using Suc.hyps(1) [of "Suc i" w1] Suc.hyps(2) i
    by (subst log_to_sinks.simps) auto
qed

lemma logger_init_inv:
  assumes "logger_inv s"
  shows "\<exists>r s'. logger_init L s = Inr (r, s') \<and> logger_inv s'"
proof (cases "logger_state s = LOGGER_STATE_INITIALIZED")
  case True
  then show ?thesis using assms by (auto simp: logger_init_def logger_inv_def)
next
  case False
  with assms have s: "logger_state s = LOGGER_STATE_NOT_INITIALIZED" "phase 0 0 (world s)" "log_sinks s = Some ss"
      "log_sink_count s = length ss"
    by (auto simp: logger_inv_def)
  obtain r w1 where r: "stack_init L (world s) = (r, w1)" by force
  have p1: "phase 0 0 w1" by (rule stack_init_phase [OF s(2) r])
  obtain k w2 where k: "init_sinks L (Some ss) (length ss) 0 w1 = Some (k, w2)" "k \<le> length ss" "phase 0 k w2"
    using init_loop [OF _ p1] by auto
  obtain w3 where w3: "deinit_sinks (Some ss) k 0 w2 = Some w3" "phase 0 0 w3"
    using deinit_loop [OF _ k(2,3)] by auto
  show ?thesis using s r p1 k w3 printf_phase stack_deinit_phase
    by (auto simp: logger_init_def logger_inv_def Let_def)
qed

lemma logger_deinit_inv:
  assumes "logger_inv s"
  shows "\<exists>s'. logger_deinit L s = Inr s' \<and> logger_inv s'"
proof (cases "logger_state s = LOGGER_STATE_INITIALIZED")
  case True
  with assms obtain w where "deinit_sinks (Some ss) (length ss) 0 (world s) = Some w" "phase 0 0 w"
    using deinit_loop [of 0 "length ss" "world s"] by (auto simp: logger_inv_def)
  with True show ?thesis using assms stack_deinit_phase
    by (auto simp: logger_deinit_def logger_inv_def Let_def)
next
  case False
  then show ?thesis using assms printf_phase by (auto simp: logger_deinit_def logger_inv_def)
qed

lemma logger_log_inv:
  assumes "logger_inv s" "logger_state s = LOGGER_STATE_INITIALIZED" "ok c (world s)"
  shows "\<exists>s'. logger_log c s = Inr s' \<and> logger_inv s'"
  using log_loop [of 0 "world s" c] assms by (auto simp: logger_inv_def logger_log_def)

lemma logger_initial_inv: "phase 0 0 w \<Longrightarrow> logger_inv (logger_initial (length ss) (Some ss) w)"
  by (simp add: logger_inv_def logger_initial_def)

end

section \<open>Witnesses\<close>

text \<open>Sinks that record the calls they receive; the second one can be made to fail.\<close>

definition demo_recorder :: "string \<Rightarrow> int \<Rightarrow> string list LOG_SINK_IF" where
  "demo_recorder nm r =
     \<lparr>sink_init = (\<lambda>w. Some (r, (nm @ '' init'') # w)),
      sink_log = (\<lambda>l h file func line f args w. Some ((nm @ '' log'') # w)),
      sink_deinit = (\<lambda>w. (nm @ '' deinit'') # w)\<rparr>"

definition demo_logger_env :: "string list logger_env" where
  "demo_logger_env =
     \<lparr>libc = std_env, printf = (\<lambda>c w. ''printf'' # w),
      stack_init = (\<lambda>w. (0, ''stack init'' # w)),
      stack_deinit = (\<lambda>w. ''stack deinit'' # w),
      state_value = (\<lambda>s. 0)\<rparr>"

definition demo_sinks :: "int \<Rightarrow> string list LOG_SINK_IF list" where
  "demo_sinks r = [demo_recorder ''a'' 0, demo_recorder ''b'' r]"

definition demo_call :: log_call where
  "demo_call = \<lparr>log_level = LOG_LEVEL_INFO, log_context = None, file_name = Some ''f.c'', func_name = Some ''main'',
     line_no = 42, call_format = Some ''hello'', format_args = []\<rparr>"

lemmas demo_logger_defs = logger_initial_def demo_sinks_def demo_recorder_def demo_logger_env_def demo_call_def
  init_failed_def deinit_run_def call_sink_def std_env_def

theorem logger_init_first_witness:
  "logger_init demo_logger_env (logger_initial 2 (Some (demo_sinks 1)) []) =
     Inr (MU_FAILURE std_env, \<lparr>logger_init_count = 1, logger_state = LOGGER_STATE_NOT_INITIALIZED, log_sink_count = 2,
       log_sinks = Some (demo_sinks 1),
       world = [''stack deinit'', ''a deinit'', ''printf'', ''b init'', ''a init'', ''stack init'']\<rparr>) \<and>
   logger_init demo_logger_env (logger_initial 2 (Some (demo_sinks 0)) []) =
     Inr (0, \<lparr>logger_init_count = 1, logger_state = LOGGER_STATE_INITIALIZED, log_sink_count = 2,
       log_sinks = Some (demo_sinks 0), world = [''b init'', ''a init'', ''stack init'']\<rparr>)"
proof
  show "logger_init demo_logger_env (logger_initial 2 (Some (demo_sinks 1)) []) =
     Inr (MU_FAILURE std_env, \<lparr>logger_init_count = 1, logger_state = LOGGER_STATE_NOT_INITIALIZED, log_sink_count = 2,
       log_sinks = Some (demo_sinks 1),
       world = [''stack deinit'', ''a deinit'', ''printf'', ''b init'', ''a init'', ''stack init'']\<rparr>)"
    by (subst logger_init_first [where ?w1.0 = "[''stack init'']" and k = 1 and all = False
        and ?w2.0 = "[''b init'', ''a init'', ''stack init'']" and ss = "demo_sinks 1"])
      (simp_all add: demo_logger_defs)
  show "logger_init demo_logger_env (logger_initial 2 (Some (demo_sinks 0)) []) =
     Inr (0, \<lparr>logger_init_count = 1, logger_state = LOGGER_STATE_INITIALIZED, log_sink_count = 2,
       log_sinks = Some (demo_sinks 0), world = [''b init'', ''a init'', ''stack init'']\<rparr>)"
    by (subst logger_init_first [where ?w1.0 = "[''stack init'']" and k = 2 and all = True
        and ?w2.0 = "[''b init'', ''a init'', ''stack init'']" and ss = "demo_sinks 0"])
      (simp_all add: demo_logger_defs)
qed

definition demo_running :: "string list logger" where
  "demo_running = (logger_initial 2 (Some (demo_sinks 0)) [])
     \<lparr>logger_init_count := 1, logger_state := LOGGER_STATE_INITIALIZED\<rparr>"

theorem logger_log_dispatch_witness:
  "logger_log demo_call demo_running = Inr (demo_running\<lparr>world := [''b log'', ''a log'']\<rparr>) \<and>
   logger_log_with_config demo_logger_env (\<lambda>h. 0) \<lparr>config_log_sink_count = 1, config_log_sinks = Some (demo_sinks 0)\<rparr>
     demo_call demo_running = Inr (demo_running\<lparr>world := [''a log'']\<rparr>)"
  using logger_log_dispatch [of demo_running "demo_sinks 0"
      "\<lparr>config_log_sink_count = 1, config_log_sinks = Some (demo_sinks 0)\<rparr>" "demo_sinks 0" demo_call demo_logger_env "\<lambda>h. 0"]
  by (simp add: demo_logger_defs demo_running_def)

text \<open>Two initialisations, a change of the configuration and one deinitialisation.\<close>

definition demo_trace :: "string list logger_event list" where
  "demo_trace = [Init 0, Init 0, Set_config \<lparr>config_log_sink_count = 0, config_log_sinks = None\<rparr>, Deinit]"

definition demo_end :: "string list logger" where
  "demo_end = \<lparr>logger_init_count = 1, logger_state = LOGGER_STATE_INITIALIZED, log_sink_count = 0,
     log_sinks = None, world = [''b init'', ''a init'', ''stack init'']\<rparr>"

lemma demo_run: "logger_run demo_logger_env (\<lambda>h. 0) (logger_initial 2 (Some (demo_sinks 0)) []) demo_trace demo_end"
proof -
  note step = logger_run.step and intros = logger_step.intros
  let ?E = demo_logger_env and ?s0 = "logger_initial 2 (Some (demo_sinks 0)) []"
  let ?s1 = "demo_running\<lparr>world := [''b init'', ''a init'', ''stack init'']\<rparr>"
  let ?s2 = "?s1\<lparr>logger_init_count := 2\<rparr>"
  let ?s3 = "?s2\<lparr>log_sinks := None, log_sink_count := 0\<rparr>"
  have e1: "logger_init ?E ?s0 = Inr (0, ?s1)"
    by (simp add: logger_init_def init_sinks.simps demo_running_def demo_logger_defs sink_at_def)
  have e2: "logger_init ?E ?s1 = Inr (0, ?s2)" "logger_deinit ?E ?s3 = Inr demo_end"
    by (simp_all add: logger_init_def logger_deinit_def demo_running_def demo_end_def demo_logger_defs to_uint32_def)
  have e3: "logger_set_config \<lparr>config_log_sink_count = 0, config_log_sinks = None\<rparr> ?s2 = ?s3"
    by (simp add: logger_set_config_def)
  have "logger_run ?E (\<lambda>h. 0) ?s0 ((([] @ [Init 0]) @ [Init 0]) @ [Set_config \<lparr>config_log_sink_count = 0, config_log_sinks = None\<rparr>]) ?s3"
    unfolding e3 [symmetric]
    by (intro step [OF _ intros(5)] step [OF _ intros(1) [OF e2(1)]] step [OF _ intros(1) [OF e1]] logger_run.start)
  from step [OF this intros(2) [OF e2(2)]] show ?thesis by (simp add: demo_trace_def)
qed

theorem logger_run_counts_witness:
  "logger_state demo_end = LOGGER_STATE_INITIALIZED \<and> logger_init_count demo_end = 1"
proof -
  have "outstanding demo_trace = 1" by (simp add: outstanding_def demo_trace_def)
  then show ?thesis
    using logger_run_counts [OF demo_run] by (simp add: demo_trace_def demo_logger_env_def std_env_def)
qed

end
