(* ===== verification/Log_Sink_Etw.thy ===== *)
theory Log_Sink_Etw
  imports Log_Sink
begin

text \<open>
  \<open>log_sink_etw.c\<close>: the sink that emits a self-described TraceLogging event per log call.
  The event's metadata are built in an array of 4096 bytes on the stack, the formatted
  message behind them in the same array.  TraceLogging and the Windows functions are
  parameters: the values of their constants, the level the provider is enabled for, and
  the results of registration.  What the sink does to the outside is a list of effects.
  The abstract side is a decoder of the metadata format the source documents.
\<close>

section \<open>The TraceLogging interface\<close>

datatype TlgIn =
    TlgInUNICODESTRING | TlgInANSISTRING | TlgInINT8 | TlgInUINT8 | TlgInINT16 | TlgInUINT16
  | TlgInINT32 | TlgInUINT32 | TlgInINT64 | TlgInUINT64 | TlgInBOOL32 | TlgInSTRUCT | TlgInChain

datatype TRACE_LEVEL =
    TRACE_LEVEL_NONE | TRACE_LEVEL_CRITICAL | TRACE_LEVEL_ERROR | TRACE_LEVEL_WARNING
  | TRACE_LEVEL_INFORMATION | TRACE_LEVEL_VERBOSE

record etw_env =
  elib :: c_env
  tlg :: "TlgIn \<Rightarrow> nat" \<comment> \<open>the value of each constant\<close>
  trace :: "TRACE_LEVEL \<Rightarrow> nat"
  TlgBlobEvent4 :: nat
  LevelPlus1 :: nat \<comment> \<open>of the provider, as the sessions have enabled it\<close>
  metadata :: addr \<comment> \<open>of the array \<open>_tlgEvent.metadata\<close>\<close>
  TraceLoggingRegister :: int
  GetModuleFileNameA :: "string option"
  this_file :: string \<comment> \<open>\<open>__FILE__\<close>\<close>
  etw_state_value :: "int \<Rightarrow> int"
  etw_context_address :: "LOG_CONTEXT_HANDLE \<Rightarrow> addr"

text \<open>
  The data of an event.  A descriptor holds a pointer to the data, which are read when the
  event is written; the data that are not in the modelled memory are given directly.
\<close>

datatype EVENT_DATA_DESCRIPTOR =
    tlgCreate1Sz_char addr
  | tlgCreate1Sz_char_const "string option"
  | tlgCreate1Sz_wchar_t addr
  | EventDataDescCreate addr nat
  | EventDataDescCreate_const "char list"
  | Not_filled

record SELF_DESCRIBED_EVENT =
  tlgBlobTyp :: nat
  tlgChannel :: nat
  tlgLevel :: nat
  tlgOpcode :: nat
  tlgKeyword :: nat
  tlgEvtMetaSize :: nat
  tlgEvtTag :: nat
  event_metadata :: addr

datatype etw_effect =
    Print stdout_call
  | Register int \<comment> \<open>with the result of \<open>TraceLoggingRegister\<close>\<close>
  | Unregister
  | EventWrite SELF_DESCRIBED_EVENT "EVENT_DATA_DESCRIPTOR list" \<comment> \<open>the descriptors from index 2 on\<close>

definition event_name_critical :: string where "event_name_critical = ''LogCritical''"
definition event_name_error :: string where "event_name_error = ''LogError''"
definition event_name_warning :: string where "event_name_warning = ''LogWarning''"
definition event_name_info :: string where "event_name_info = ''LogInfo''"
definition event_name_verbose :: string where "event_name_verbose = ''LogVerbose''"
definition event_name_unknown :: string where "event_name_unknown = ''Unknown''"

definition LOG_MAX_ETW_PROPERTY_VALUE_PAIR_COUNT :: nat where
  "LOG_MAX_ETW_PROPERTY_VALUE_PAIR_COUNT = 64"

definition MAX_METADATA_SIZE :: nat where
  "MAX_METADATA_SIZE = 4096"

definition UINT16_MAX :: nat where
  "UINT16_MAX = 65535"

section \<open>The metadata\<close>

text \<open>A \<open>char*\<close> argument of \<open>printf\<close> that can be \<open>NULL\<close>.\<close>

definition char_ptr_arg :: "string option \<Rightarrow> carg" where
  "char_ptr_arg s = (case s of None \<Rightarrow> APtr NULL | Some t \<Rightarrow> AStr t)"

definition does_not_fit :: "nat \<Rightarrow> nat \<Rightarrow> string option \<Rightarrow> string option \<Rightarrow> int \<Rightarrow> etw_effect" where
  "does_not_fit i cnt file func line =
     Print (Printf (''Property %hu/%hu does not fit for ETW event, file=%s, func=%s, line=%d.'' @ CRLF)
       [AInt (int i), AInt (int cnt), char_ptr_arg file, char_ptr_arg func, AInt line])"

fun type_number :: "LOG_CONTEXT_PROPERTY_TYPE \<Rightarrow> int" where
  "type_number (LOG_CONTEXT_PROPERTY_TYPE_other k) = k"
| "type_number _ = 0"

definition invalid_type :: "etw_env \<Rightarrow> LOG_CONTEXT_PROPERTY_TYPE \<Rightarrow> nat \<Rightarrow> nat \<Rightarrow> string option \<Rightarrow> string option \<Rightarrow> int \<Rightarrow> etw_effect" where
  "invalid_type X ty i cnt file func line =
     Print (Printf (''Invalid property type: %'' @ PRI_MU_ENUM (elib X) @
         '' for property %hu/%hu does not fit for ETW event, file=%s, func=%s, line=%d.'' @ CRLF)
       (MU_ENUM_VALUE (elib X) ''LOG_CONTEXT_PROPERTY_TYPE'' (type_number ty) @
        [AInt (int i), AInt (int cnt), char_ptr_arg file, char_ptr_arg func, AInt line]))"

text \<open>The type byte of a property that is not a struct; \<^term>\<open>None\<close> for the default case.\<close>

fun in_type :: "LOG_CONTEXT_PROPERTY_TYPE \<Rightarrow> TlgIn option" where
  "in_type LOG_CONTEXT_PROPERTY_TYPE_ascii_char_ptr = Some TlgInANSISTRING"
| "in_type LOG_CONTEXT_PROPERTY_TYPE_wchar_t_ptr = Some TlgInUNICODESTRING"
| "in_type LOG_CONTEXT_PROPERTY_TYPE_bool = Some TlgInBOOL32"
| "in_type LOG_CONTEXT_PROPERTY_TYPE_int64_t = Some TlgInINT64"
| "in_type LOG_CONTEXT_PROPERTY_TYPE_uint64_t = Some TlgInUINT64"
| "in_type LOG_CONTEXT_PROPERTY_TYPE_int32_t = Some TlgInINT32"
| "in_type LOG_CONTEXT_PROPERTY_TYPE_uint32_t = Some TlgInUINT32"
| "in_type LOG_CONTEXT_PROPERTY_TYPE_int16_t = Some TlgInINT16"
| "in_type LOG_CONTEXT_PROPERTY_TYPE_uint16_t = Some TlgInUINT16"
| "in_type LOG_CONTEXT_PROPERTY_TYPE_int8_t = Some TlgInINT8"
| "in_type LOG_CONTEXT_PROPERTY_TYPE_uint8_t = Some TlgInUINT8"
| "in_type _ = None"

definition tlg_char :: "etw_env \<Rightarrow> TlgIn \<Rightarrow> char" where
  "tlg_char X t = char_of (tlg X t)"

definition struct_char :: "etw_env \<Rightarrow> char" where
  "struct_char X = char_of (Bit_Operations.or (tlg X TlgInSTRUCT) (tlg X TlgInChain))"

text \<open>
  The loop over the properties: whether they are added (\<open>add_properties\<close>), the position, the
  diagnostics and the memory.
\<close>

function metadata_loop ::
    "etw_env \<Rightarrow> pairs \<Rightarrow> nat \<Rightarrow> string option \<Rightarrow> string option \<Rightarrow> int \<Rightarrow> nat \<Rightarrow> addr \<Rightarrow> mem \<Rightarrow>
     (bool \<times> addr \<times> etw_effect list \<times> mem) option" where
  "metadata_loop X ps cnt file func line i pos m =
     (if i < cnt then
        (case read_pair ps i of
           None \<Rightarrow> None
         | Some pair \<Rightarrow>
             let name_length = length (name pair) in
             if UINT16_MAX < name_length \<or>
                to_uint16 (int (metadata X + MAX_METADATA_SIZE) - int pos) < name_length + 1 + 1
             then Some (False, pos, [does_not_fit i cnt file func line], m)
             else do {
               m1 \<leftarrow> store_bytes m pos (name pair @ [NUL]);
               let pos1 = pos + name_length + 1;
               let property_type = get_type (type_if pair);
               if property_type = LOG_CONTEXT_PROPERTY_TYPE_struct then do {
                 m2 \<leftarrow> store_bytes m1 pos1 [struct_char X];
                 let pos2 = pos1 + 1;
                 if pos2 = metadata X + MAX_METADATA_SIZE
                 then Some (False, pos2, [does_not_fit i cnt file func line], m2)
                 else do {
                   field_count \<leftarrow> m2 (value_ptr pair);
                   m3 \<leftarrow> store_bytes m2 pos2 [field_count];
                   metadata_loop X ps cnt file func line (i + 1) (pos2 + 1) m3 } }
               else (case in_type property_type of
                       None \<Rightarrow> Some (False, pos1, [invalid_type X property_type i cnt file func line], m1)
                     | Some t \<Rightarrow> do {
                         m2 \<leftarrow> store_bytes m1 pos1 [tlg_char X t];
                         metadata_loop X ps cnt file func line (i + 1) (pos1 + 1) m2 }) })
      else Some (True, pos, [], m))"
  by pat_completeness auto
termination by (relation "measure (\<lambda>(X, ps, cnt, file, func, line, i, pos, m). cnt - i)") auto

declare metadata_loop.simps [simp del]

text \<open>A field of the event that is not a property: its name, the terminator and its type.\<close>

definition fixed_field :: "etw_env \<Rightarrow> string \<Rightarrow> TlgIn \<Rightarrow> char list" where
  "fixed_field X nm t = nm @ [NUL, tlg_char X t]"

definition store_at :: "char list \<Rightarrow> addr \<times> mem \<Rightarrow> (addr \<times> mem) option" where
  "store_at bs = (\<lambda>(pos, m). map_option (\<lambda>m'. (pos + length bs, m')) (store_bytes m pos bs))"

definition fixed_metadata :: "etw_env \<Rightarrow> string \<Rightarrow> nat \<Rightarrow> mem \<Rightarrow> (addr \<times> mem) option" where
  "fixed_metadata X event_name event_name_length m =
     (if event_name_length \<le> length event_name + 1 then do {
        s1 \<leftarrow> store_at (take event_name_length (event_name @ [NUL])) (metadata X, m);
        s2 \<leftarrow> store_at (fixed_field X ''content'' TlgInANSISTRING) s1;
        s3 \<leftarrow> store_at (fixed_field X ''file'' TlgInANSISTRING) s2;
        s4 \<leftarrow> store_at (fixed_field X ''func'' TlgInANSISTRING) s3;
        store_at (fixed_field X ''line'' TlgInINT32) s4 }
      else None)"

section \<open>The data\<close>

text \<open>
  The descriptor a property fills, as a list of at most one; a struct fills none.
  \<^term>\<open>None\<close> when the value of a \<open>bool\<close> cannot be read.
\<close>

definition property_data :: "LOG_CONTEXT_PROPERTY_VALUE_PAIR \<Rightarrow> mem \<Rightarrow> EVENT_DATA_DESCRIPTOR list option" where
  "property_data pair m =
     (case get_type (type_if pair) of
        LOG_CONTEXT_PROPERTY_TYPE_int64_t \<Rightarrow> Some [EventDataDescCreate (value_ptr pair) 8]
      | LOG_CONTEXT_PROPERTY_TYPE_uint64_t \<Rightarrow> Some [EventDataDescCreate (value_ptr pair) 8]
      | LOG_CONTEXT_PROPERTY_TYPE_int32_t \<Rightarrow> Some [EventDataDescCreate (value_ptr pair) 4]
      | LOG_CONTEXT_PROPERTY_TYPE_uint32_t \<Rightarrow> Some [EventDataDescCreate (value_ptr pair) 4]
      | LOG_CONTEXT_PROPERTY_TYPE_int16_t \<Rightarrow> Some [EventDataDescCreate (value_ptr pair) 2]
      | LOG_CONTEXT_PROPERTY_TYPE_uint16_t \<Rightarrow> Some [EventDataDescCreate (value_ptr pair) 2]
      | LOG_CONTEXT_PROPERTY_TYPE_int8_t \<Rightarrow> Some [EventDataDescCreate (value_ptr pair) 1]
      | LOG_CONTEXT_PROPERTY_TYPE_uint8_t \<Rightarrow> Some [EventDataDescCreate (value_ptr pair) 1]
      | LOG_CONTEXT_PROPERTY_TYPE_bool \<Rightarrow> do {
          b \<leftarrow> m (value_ptr pair);
          Some [EventDataDescCreate_const (le_bytes 4 (if b \<noteq> NUL then 1 else 0))] }
      | LOG_CONTEXT_PROPERTY_TYPE_ascii_char_ptr \<Rightarrow> Some [tlgCreate1Sz_char (value_ptr pair)]
      | LOG_CONTEXT_PROPERTY_TYPE_wchar_t_ptr \<Rightarrow> Some [tlgCreate1Sz_wchar_t (value_ptr pair)]
      | LOG_CONTEXT_PROPERTY_TYPE_struct \<Rightarrow> Some []
      | LOG_CONTEXT_PROPERTY_TYPE_other _ \<Rightarrow> Some [Not_filled])"

text \<open>
  The array of descriptors has 70 elements; the list holds those from index 2 on that are
  filled so far, and filling one beyond the array is undefined.
\<close>

definition fill_data :: "EVENT_DATA_DESCRIPTOR list \<Rightarrow> EVENT_DATA_DESCRIPTOR list \<Rightarrow> EVENT_DATA_DESCRIPTOR list option" where
  "fill_data ds new =
     (if 2 + length ds + length new \<le> 2 + 1 + 1 + 1 + 1 + LOG_MAX_ETW_PROPERTY_VALUE_PAIR_COUNT
      then Some (ds @ new) else None)"

function data_loop :: "pairs \<Rightarrow> nat \<Rightarrow> mem \<Rightarrow> nat \<Rightarrow> EVENT_DATA_DESCRIPTOR list \<Rightarrow> EVENT_DATA_DESCRIPTOR list option" where
  "data_loop ps cnt m i ds =
     (if i < cnt then do {
        pair \<leftarrow> read_pair ps i;
        new \<leftarrow> property_data pair m;
        ds' \<leftarrow> fill_data ds new;
        data_loop ps cnt m (i + 1) ds' }
      else Some ds)"
  by pat_completeness auto
termination by (relation "measure (\<lambda>(ps, cnt, m, i, ds). cnt - i)") auto

declare data_loop.simps [simp del]

definition self_described_event :: "etw_env \<Rightarrow> nat \<Rightarrow> nat \<Rightarrow> SELF_DESCRIBED_EVENT" where
  "self_described_event X trace_level metadata_size =
     \<lparr>tlgBlobTyp = TlgBlobEvent4 X, tlgChannel = 11, tlgLevel = trace_level, tlgOpcode = 0, tlgKeyword = 0,
      tlgEvtMetaSize = to_uint16 (int metadata_size + 4), tlgEvtTag = 128, event_metadata = metadata X\<rparr>"

definition write_event ::
    "etw_env \<Rightarrow> nat \<Rightarrow> nat \<Rightarrow> addr \<Rightarrow> string option \<Rightarrow> string option \<Rightarrow> int \<Rightarrow> bool \<Rightarrow> pairs \<Rightarrow> nat \<Rightarrow> mem \<Rightarrow>
     etw_effect option" where
  "write_event X trace_level metadata_size formatted_message file func line add_properties ps cnt m = do {
     let ds = [tlgCreate1Sz_char formatted_message, tlgCreate1Sz_char_const file, tlgCreate1Sz_char_const func,
               EventDataDescCreate_const (le_bytes 4 (to_uint32 line))];
     ds' \<leftarrow> (if add_properties then data_loop ps cnt m 0 ds else Some ds);
     Some (EventWrite (self_described_event X trace_level metadata_size) ds') }"

section \<open>The event\<close>

definition emit_error :: "nat \<Rightarrow> string option \<Rightarrow> string option \<Rightarrow> int \<Rightarrow> etw_effect" where
  "emit_error cnt file func line =
     Print (Printf (''Error emitting ETW event with %hu properties, file=%s, func=%s, line=%d.'' @ CRLF)
       [AInt (int cnt), char_ptr_arg file, char_ptr_arg func, AInt line])"

text \<open>The message behind the metadata, and the event.\<close>

definition emit_event ::
    "etw_env \<Rightarrow> nat \<Rightarrow> nat \<Rightarrow> bool \<Rightarrow> addr \<Rightarrow> pairs \<Rightarrow> nat \<Rightarrow> string option \<Rightarrow> string option \<Rightarrow> int \<Rightarrow> string \<Rightarrow>
     carg list \<Rightarrow> mem \<Rightarrow> (etw_effect \<times> mem) option" where
  "emit_event X trace_level metadata_size_without_properties add_properties pos ps property_value_count file func line
     message_format args m = do {
     let metadata_size =
       (if \<not> add_properties then metadata_size_without_properties else to_uint16 (int pos - int (metadata X)));
     let formatted_message =
       (if \<not> add_properties then metadata X + metadata_size_without_properties else pos);
     let available_bytes = metadata X + MAX_METADATA_SIZE - formatted_message;
     (formatted_message_length, m1) \<leftarrow> vsnprintf (elib X) formatted_message available_bytes message_format args m;
     if formatted_message_length < 0 then Some (emit_error property_value_count file func line, m1)
     else if available_bytes \<le> nat formatted_message_length \<and> add_properties then do {
       let formatted_message' = metadata X + metadata_size_without_properties;
       let available_bytes' = metadata X + MAX_METADATA_SIZE - formatted_message';
       (formatted_message_length', m2) \<leftarrow>
         vsnprintf (elib X) formatted_message' available_bytes' message_format args m1;
       if formatted_message_length' < 0 then Some (emit_error property_value_count file func line, m2)
       else do {
         m3 \<leftarrow> store_bytes m2 (formatted_message' + available_bytes' - 1) [NUL];
         w \<leftarrow> write_event X trace_level metadata_size_without_properties formatted_message' file func line
                False ps property_value_count m3;
         Some (w, m3) } }
     else do {
       w \<leftarrow> write_event X trace_level metadata_size formatted_message file func line add_properties ps
              property_value_count m1;
       Some (w, m1) } }"

definition internal_emit_self_described_event_va ::
    "etw_env \<Rightarrow> string \<Rightarrow> nat \<Rightarrow> nat \<Rightarrow> pairs option \<Rightarrow> nat \<Rightarrow> string option \<Rightarrow> string option \<Rightarrow> int \<Rightarrow> string \<Rightarrow>
     carg list \<Rightarrow> mem \<Rightarrow> (etw_effect list \<times> mem) option" where
  "internal_emit_self_described_event_va X event_name event_name_length trace_level context_property_value_pairs
     property_value_count file func line message_format args m =
     (if trace_level < LevelPlus1 X then do {
        let ps = (case context_property_value_pairs of None \<Rightarrow> [] | Some qs \<Rightarrow> qs);
        (pos, m1) \<leftarrow> fixed_metadata X event_name event_name_length m;
        let metadata_size_without_properties = to_uint16 (int pos - int (metadata X));
        (add_properties, pos', out, m2) \<leftarrow>
          (if property_value_count \<le> LOG_MAX_ETW_PROPERTY_VALUE_PAIR_COUNT
           then metadata_loop X ps property_value_count file func line 0 pos m1
           else Some (False, pos, [], m1));
        (e, m3) \<leftarrow> emit_event X trace_level metadata_size_without_properties add_properties pos' ps
           property_value_count file func line message_format args m2;
        Some (out @ [e], m3) }
      else Some ([], m))"

text \<open>The variant with the arguments of the format given directly.\<close>

definition internal_emit_self_described_event ::
    "etw_env \<Rightarrow> string \<Rightarrow> nat \<Rightarrow> nat \<Rightarrow> pairs option \<Rightarrow> nat \<Rightarrow> string option \<Rightarrow> string option \<Rightarrow> int \<Rightarrow> string \<Rightarrow>
     carg list \<Rightarrow> mem \<Rightarrow> (etw_effect list \<times> mem) option" where
  "internal_emit_self_described_event = internal_emit_self_described_event_va"

section \<open>The operations of the sink\<close>

datatype LOG_SINK_ETW_STATE =
    LOG_SINK_ETW_STATE_NOT_INITIALIZED
  | LOG_SINK_ETW_STATE_INITIALIZED
  | LOG_SINK_ETW_STATE_other int \<comment> \<open>any value that is not an enumerator\<close>

text \<open>The position of an enumerator; \<open>etw_state_value\<close> gives the value the macro assigned to it.\<close>

fun etw_state_number :: "LOG_SINK_ETW_STATE \<Rightarrow> int" where
  "etw_state_number LOG_SINK_ETW_STATE_NOT_INITIALIZED = 0"
| "etw_state_number LOG_SINK_ETW_STATE_INITIALIZED = 1"
| "etw_state_number (LOG_SINK_ETW_STATE_other k) = k"

definition etw_called_in :: "etw_env \<Rightarrow> string \<Rightarrow> LOG_SINK_ETW_STATE \<Rightarrow> etw_effect" where
  "etw_called_in X func s =
     Print (Printf (func @ '' called in %'' @ PRI_MU_ENUM (elib X) @ CRLF)
       (MU_ENUM_VALUE (elib X) ''LOG_SINK_ETW_STATE'' (etw_state_value X (etw_state_number s))))"

definition log_sink_etw_init ::
    "etw_env \<Rightarrow> LOG_SINK_ETW_STATE \<Rightarrow> mem \<Rightarrow> (int \<times> etw_effect list \<times> LOG_SINK_ETW_STATE \<times> mem) option" where
  "log_sink_etw_init X s m =
     (if s = LOG_SINK_ETW_STATE_NOT_INITIALIZED then
        if TraceLoggingRegister X < 0 then
          Some (MU_FAILURE (elib X),
            [Register (TraceLoggingRegister X), Print (Printf (''ETW provider was NOT registered (register_result=0x%08x).'' @ CRLF)
                         [AInt (int (to_uint32 (TraceLoggingRegister X)))])], s, m)
        else do {
          let executable_full_path_name =
            (case GetModuleFileNameA X of None \<Rightarrow> ''UNKNOWN'' | Some path \<Rightarrow> path);
          (out, m') \<leftarrow> internal_emit_self_described_event X event_name_info (length event_name_info + 1)
             (trace X TRACE_LEVEL_INFORMATION) None 0 (Some (this_file X)) (Some ''log_sink_etw_init'') 603
             ''ETW provider was registered succesfully (self test). Executable file full path name = %s''
             [AStr executable_full_path_name] m;
          Some (0, Register (TraceLoggingRegister X) # out, LOG_SINK_ETW_STATE_INITIALIZED, m') }
      else Some (MU_FAILURE (elib X), [etw_called_in X ''log_sink_etw_init'' s], s, m))"

definition log_sink_etw_deinit ::
    "etw_env \<Rightarrow> LOG_SINK_ETW_STATE \<Rightarrow> etw_effect list \<times> LOG_SINK_ETW_STATE" where
  "log_sink_etw_deinit X s =
     (if s = LOG_SINK_ETW_STATE_INITIALIZED
      then ([Unregister], LOG_SINK_ETW_STATE_NOT_INITIALIZED)
      else ([etw_called_in X ''log_sink_etw_deinit'' s], s))"

definition etw_event_kind :: "LOG_LEVEL \<Rightarrow> string \<times> TRACE_LEVEL" where
  "etw_event_kind log_level =
     (if log_level = LOG_LEVEL_CRITICAL then (event_name_critical, TRACE_LEVEL_CRITICAL)
      else if log_level = LOG_LEVEL_ERROR then (event_name_error, TRACE_LEVEL_ERROR)
      else if log_level = LOG_LEVEL_WARNING then (event_name_warning, TRACE_LEVEL_WARNING)
      else if log_level = LOG_LEVEL_INFO then (event_name_info, TRACE_LEVEL_INFORMATION)
      else if log_level = LOG_LEVEL_VERBOSE then (event_name_verbose, TRACE_LEVEL_VERBOSE)
      else (event_name_unknown, TRACE_LEVEL_NONE))"

definition log_sink_etw_log ::
    "etw_env \<Rightarrow> LOG_LEVEL \<Rightarrow> LOG_CONTEXT_HANDLE \<Rightarrow> string option \<Rightarrow> string option \<Rightarrow> int \<Rightarrow> string option \<Rightarrow>
     carg list \<Rightarrow> mem \<Rightarrow> (etw_effect list \<times> mem) option" where
  "log_sink_etw_log X log_level log_context file func line message_format args m =
     (case message_format of
        None \<Rightarrow>
          Some ([Print (Printf (''Invalid arguments: LOG_LEVEL log_level=%'' @ PRI_MU_ENUM (elib X) @
                   '', LOG_CONTEXT_HANDLE log_context=%p, const char* file=%s, const char* func=%s, int line=%d, const char* message_format=%s'' @ CRLF)
                 (MU_ENUM_VALUE (elib X) ''LOG_LEVEL'' (level_value log_level) @
                  [APtr (etw_context_address X log_context), char_ptr_arg file, char_ptr_arg func, AInt line,
                   char_ptr_arg message_format]))], m)
      | Some f \<Rightarrow>
          (case etw_event_kind log_level of (event_name, trace_level) \<Rightarrow>
             internal_emit_self_described_event_va X event_name (length event_name + 1) (trace X trace_level)
               (log_context_get_property_value_pairs log_context)
               (to_uint16 (int (log_context_get_property_value_pair_count log_context)))
               file func line f args m))"

section \<open>Decoding an event\<close>

text \<open>
  A decoder of the field metadata, after the description of the format in the source: a
  field is its name, a terminator and the byte \<open>InType\<close>; when the bit 128 of \<open>InType\<close> is set
  a byte \<open>OutType\<close> follows, which for a struct is the number of its fields and must not have
  its bit 128 set, since then an extension would follow.  Arrays and custom types, the
  values of \<open>InType\<close> with a bit of 96 set, do not occur and are rejected.
\<close>

type_synonym flat_field = "string \<times> nat \<times> nat option"

fun decode_flat :: "string \<Rightarrow> char list \<Rightarrow> flat_field list option" where
  "decode_flat nm [] = (if nm = [] then Some [] else None)"
| "decode_flat nm (c # bs) =
     (if c \<noteq> NUL then decode_flat (nm @ [c]) bs
      else (case bs of
              [] \<Rightarrow> None
            | t # bs' \<Rightarrow>
                if 32 \<le> (of_char t :: nat) mod 128 then None
                else if (of_char t :: nat) < 128 then map_option ((#) (nm, of_char t, None)) (decode_flat [] bs')
                else (case bs' of
                        [] \<Rightarrow> None
                      | n # bs'' \<Rightarrow>
                          if 128 \<le> (of_char n :: nat) then None
                          else map_option ((#) (nm, of_char t - 128, Some (of_char n))) (decode_flat [] bs''))))"

datatype etw_field = Scalar string nat | Group string "etw_field list"

text \<open>The fields of a struct follow it: read from the right, a struct takes its fields off the result.\<close>

fun regroup :: "flat_field list \<Rightarrow> etw_field list" where
  "regroup [] = []"
| "regroup ((nm, t, None) # fs) = Scalar nm t # regroup fs"
| "regroup ((nm, t, Some n) # fs) = Group nm (take n (regroup fs)) # drop n (regroup fs)"

definition decode_event :: "char list \<Rightarrow> (string \<times> etw_field list) option" where
  "decode_event bs =
     (let nm = takeWhile (\<lambda>c. c \<noteq> NUL) bs in
      map_option (\<lambda>fs. (nm, regroup fs)) (decode_flat [] (drop (length nm + 1) bs)))"

text \<open>The documented values of the constants: plain types below 32, \<open>_TlgInChain\<close> the bit 128.\<close>

definition tlg_values :: "etw_env \<Rightarrow> bool" where
  "tlg_values X \<longleftrightarrow> (\<forall>t. t \<noteq> TlgInChain \<longrightarrow> tlg X t < 32) \<and> tlg X TlgInChain = 128"

text \<open>The metadata of a property, and the field it is to be decoded as.\<close>

abbreviation (input) is_struct :: "item \<Rightarrow> bool" where
  "is_struct x \<equiv> get_type (fst (snd x)) = LOG_CONTEXT_PROPERTY_TYPE_struct"

definition item_metadata :: "etw_env \<Rightarrow> item \<Rightarrow> char list" where
  "item_metadata X x = (case x of (nm, T, bs) \<Rightarrow>
     if is_struct x then nm @ [NUL, struct_char X, hd bs]
     else nm @ [NUL, tlg_char X (the (in_type (get_type T)))])"

text \<open>The types of the fields as the requirements of the sink list them.\<close>

definition documented_types :: "(LOG_CONTEXT_PROPERTY_TYPE \<times> TlgIn) list" where
  "documented_types =
     [(LOG_CONTEXT_PROPERTY_TYPE_ascii_char_ptr, TlgInANSISTRING), (LOG_CONTEXT_PROPERTY_TYPE_int64_t, TlgInINT64),
      (LOG_CONTEXT_PROPERTY_TYPE_uint64_t, TlgInUINT64), (LOG_CONTEXT_PROPERTY_TYPE_int32_t, TlgInINT32),
      (LOG_CONTEXT_PROPERTY_TYPE_uint32_t, TlgInUINT32), (LOG_CONTEXT_PROPERTY_TYPE_int16_t, TlgInINT16),
      (LOG_CONTEXT_PROPERTY_TYPE_uint16_t, TlgInUINT16), (LOG_CONTEXT_PROPERTY_TYPE_int8_t, TlgInINT8),
      (LOG_CONTEXT_PROPERTY_TYPE_uint8_t, TlgInUINT8), (LOG_CONTEXT_PROPERTY_TYPE_bool, TlgInBOOL32),
      (LOG_CONTEXT_PROPERTY_TYPE_wchar_t_ptr, TlgInUNICODESTRING)]"

lemma in_type_documented: "map_of documented_types ty = in_type ty"
  by (cases ty) (simp_all add: documented_types_def)

definition item_flat :: "etw_env \<Rightarrow> item \<Rightarrow> flat_field" where
  "item_flat X x = (case x of (nm, T, bs) \<Rightarrow>
     if is_struct x then (nm, tlg X TlgInSTRUCT, Some (of_char (hd bs)))
     else (nm, tlg X (the (map_of documented_types (get_type T))), None))"

definition items_metadata :: "etw_env \<Rightarrow> item list \<Rightarrow> char list" where
  "items_metadata X xs = concat (map (item_metadata X) xs)"

text \<open>
  The items an event can carry: the type is one of the enumeration, a value of a type of
  fixed size has that size, the name has no null character, the count of a struct is below
  128.  A value is \<open>readable\<close> when the sink can read what it reads of it.
\<close>

fun value_size :: "LOG_CONTEXT_PROPERTY_TYPE \<Rightarrow> nat option" where
  "value_size LOG_CONTEXT_PROPERTY_TYPE_int64_t = Some 8"
| "value_size LOG_CONTEXT_PROPERTY_TYPE_uint64_t = Some 8"
| "value_size LOG_CONTEXT_PROPERTY_TYPE_int32_t = Some 4"
| "value_size LOG_CONTEXT_PROPERTY_TYPE_uint32_t = Some 4"
| "value_size LOG_CONTEXT_PROPERTY_TYPE_int16_t = Some 2"
| "value_size LOG_CONTEXT_PROPERTY_TYPE_uint16_t = Some 2"
| "value_size LOG_CONTEXT_PROPERTY_TYPE_int8_t = Some 1"
| "value_size LOG_CONTEXT_PROPERTY_TYPE_uint8_t = Some 1"
| "value_size LOG_CONTEXT_PROPERTY_TYPE_bool = Some 1"
| "value_size LOG_CONTEXT_PROPERTY_TYPE_struct = Some 1"
| "value_size _ = None"

definition readable :: "item \<Rightarrow> bool" where
  "readable x = (case x of (nm, T, bs) \<Rightarrow> case value_size (get_type T) of None \<Rightarrow> True | Some n \<Rightarrow> length bs = n)"

definition known_item :: "item \<Rightarrow> bool" where
  "known_item x \<longleftrightarrow> readable x \<and> (is_struct x \<or> in_type (get_type (fst (snd x))) \<noteq> None)"

definition etw_item :: "item \<Rightarrow> bool" where
  "etw_item x = (case x of (nm, T, bs) \<Rightarrow>
     known_item x \<and> NUL \<notin> set nm \<and> (is_struct x \<longrightarrow> (of_char (hd bs) :: nat) < 128))"

lemma etw_known: "etw_item x \<Longrightarrow> known_item x"
  by (simp add: etw_item_def split: prod.splits)

lemma known_struct: "known_item (nm, T, bs) \<Longrightarrow> get_type T = LOG_CONTEXT_PROPERTY_TYPE_struct \<Longrightarrow> \<exists>c. bs = [c]"
  by (auto simp: known_item_def readable_def length_Suc_conv)

lemma tlg_char_values:
  assumes "tlg_values X" "t \<noteq> TlgInChain"
  shows "(of_char (tlg_char X t) :: nat) = tlg X t" "tlg X t < 32"
  using assms by (auto simp: tlg_char_def tlg_values_def)

lemma struct_char_value:
  assumes "tlg_values X"
  shows "(of_char (struct_char X) :: nat) = 128 + tlg X TlgInSTRUCT"
proof -
  have s: "tlg X TlgInSTRUCT < 32" using assms by (auto simp: tlg_values_def)
  have "Bit_Operations.and (tlg X TlgInSTRUCT) 128 = 0"
  proof (rule bit_eqI)
    fix n
    have "\<not> bit (tlg X TlgInSTRUCT) 7" using s by (simp add: bit_iff_odd)
    moreover have "bit (128::nat) n \<longleftrightarrow> n = 7" using bit_exp_iff [where 'a = nat, of 7 n] by simp
    ultimately show "bit (Bit_Operations.and (tlg X TlgInSTRUCT) 128) n = bit 0 n" by (auto simp: bit_and_iff)
  qed
  then have "Bit_Operations.or (tlg X TlgInSTRUCT) 128 = tlg X TlgInSTRUCT + 128"
    by (simp add: disjunctive_add_eq_or)
  moreover have "(tlg X TlgInSTRUCT + 128) mod 256 = 128 + tlg X TlgInSTRUCT" using s by (subst mod_less) auto
  ultimately show ?thesis using assms by (simp add: struct_char_def tlg_values_def)
qed

lemma decode_flat_name:
  "NUL \<notin> set s \<Longrightarrow> decode_flat nm (s @ bs) = decode_flat (nm @ s) bs"
  by (induction s arbitrary: nm) auto

lemma in_type_chain: "in_type ty = Some t \<Longrightarrow> t \<noteq> TlgInChain"
  by (cases ty) auto

lemma decode_item:
  assumes "tlg_values X" "etw_item x"
  shows "decode_flat [] (item_metadata X x @ bs) = map_option ((#) (item_flat X x)) (decode_flat [] bs)"
proof -
  obtain nm T vs where x: "x = (nm, T, vs)" by (cases x)
  have s: "tlg X TlgInSTRUCT < 32" using assms(1) by (auto simp: tlg_values_def)
  then have "\<not> 32 \<le> tlg X TlgInSTRUCT mod 128" by simp
  note s = s this
  show ?thesis
  proof (cases "is_struct x")
    case True
    with assms(2) show ?thesis
      by (simp add: item_metadata_def item_flat_def in_type_documented x etw_item_def decode_flat_name struct_char_value [OF assms(1)] s)
  next
    case False
    with assms(2) obtain t where t: "in_type (get_type T) = Some t" by (auto simp: etw_item_def known_item_def x)
    note v = tlg_char_values [OF assms(1) in_type_chain [OF t]]
    from v(2) have "tlg X t < 128" "tlg X t mod 128 < 32" by simp_all
    with False assms(2) t v show ?thesis
      by (simp add: item_metadata_def item_flat_def in_type_documented x etw_item_def decode_flat_name)
  qed
qed

lemma decode_items:
  "tlg_values X \<Longrightarrow> list_all etw_item xs \<Longrightarrow> decode_flat [] (items_metadata X xs) = Some (map (item_flat X) xs)"
  by (induction xs) (simp_all add: items_metadata_def decode_item)

text \<open>The decoded fields have the names and the nesting of the properties.\<close>

inductive same_shape :: "etw_field \<Rightarrow> ptree \<Rightarrow> bool" where
  scalar: "same_shape (Scalar nm t) (Field nm s)"
| group: "same_shape (Group nm fs) (Struct nm ts)" if "list_all2 same_shape fs ts"

lemma item_flat_simps:
  "get_type T \<noteq> LOG_CONTEXT_PROPERTY_TYPE_struct \<Longrightarrow> item_flat X (nm, T, bs) = (nm, tlg X (the (in_type (get_type T))), None)"
  "get_type T = LOG_CONTEXT_PROPERTY_TYPE_struct \<Longrightarrow> item_flat X (nm, T, bs) = (nm, tlg X TlgInSTRUCT, Some (of_char (hd bs)))"
  by (simp_all add: item_flat_def in_type_documented)

lemma regroup_shape:
  assumes "shape P ts xs"
  shows "\<exists>fs. regroup (map (item_flat X) xs @ rest) = fs @ regroup rest \<and> list_all2 same_shape fs ts"
  using assms
proof (induction arbitrary: rest rule: shape.induct)
  case (field T bs s nm ts xs)
  then obtain fs where "regroup (map (item_flat X) xs @ rest) = fs @ regroup rest" "list_all2 same_shape fs ts" by blast
  then show ?case using field(1)
    by (intro exI [of _ "Scalar nm (tlg X (the (in_type (get_type T)))) # fs"]) (simp add: item_flat_simps same_shape.scalar)
next
  case (struct T fs nm ys ts xs)
  obtain gs where g: "regroup (map (item_flat X) xs @ rest) = gs @ regroup rest" "list_all2 same_shape gs ts"
    using struct.IH(2) by blast
  obtain hs where h: "regroup (map (item_flat X) ys @ map (item_flat X) xs @ rest) = hs @ gs @ regroup rest"
      "list_all2 same_shape hs fs"
    using struct.IH(1) [of "map (item_flat X) xs @ rest"] g(1) by auto
  have "length hs = length fs" using h(2) by (rule list_all2_lengthD)
  with struct.hyps(1,3) g h show ?case
    by (intro exI [of _ "Group nm hs # gs"]) (simp add: item_flat_simps same_shape.group)
qed simp

section \<open>The loops\<close>

definition metadata_end :: "etw_env \<Rightarrow> addr" where
  "metadata_end X = metadata X + MAX_METADATA_SIZE"

lemma stored_read:
  assumes "stored m lo hi (drop i (take cnt ps)) (x # xs)" "cnt \<le> length ps"
  shows "i < cnt" "\<exists>pr. read_pair ps i = Some pr \<and> stored1 m lo hi (Some pr) x"
    "stored m lo hi (drop (Suc i) (take cnt ps)) xs"
proof -
  from stored_length [OF assms(1)] have l: "i < length (take cnt ps)" by auto
  with assms(2) show i: "i < cnt" by simp
  from l have d: "drop i (take cnt ps) = take cnt ps ! i # drop (Suc i) (take cnt ps)" by (rule Cons_nth_drop_Suc [symmetric])
  from assms(1) show "stored m lo hi (drop (Suc i) (take cnt ps)) xs" unfolding d by simp
  from assms(1) i have "stored1 m lo hi (ps ! i) x" unfolding d by simp
  moreover from this obtain pr where "ps ! i = Some pr" by (cases "ps ! i") (auto simp: stored1_def split: prod.splits)
  ultimately show "\<exists>pr. read_pair ps i = Some pr \<and> stored1 m lo hi (Some pr) x"
    using i assms(2) by (simp add: read_pair_def)
qed

lemma stored_put:
  "stored m lo hi qs xs \<Longrightarrow> disjoint_ranges p (length bs) lo (hi - lo) \<Longrightarrow> lo \<le> hi \<Longrightarrow> stored (put_bytes m p bs) lo hi qs xs"
  by (rule stored_cong) (auto simp: disjoint_ranges_def put_bytes_def)

lemma remaining:
  "pos \<le> metadata_end X \<Longrightarrow> metadata X \<le> pos \<Longrightarrow>
   to_uint16 (int (metadata X + MAX_METADATA_SIZE) - int pos) = metadata_end X - pos"
  by (subst to_uint16_id) (auto simp: metadata_end_def MAX_METADATA_SIZE_def)


text \<open>
  The setting of the loops: the array of the metadata is accessible and does not overlap
  the values, and the position is in it.
\<close>

definition in_metadata :: "etw_env \<Rightarrow> mem \<Rightarrow> addr \<Rightarrow> addr \<Rightarrow> addr \<Rightarrow> bool" where
  "in_metadata X m lo hi pos \<longleftrightarrow> accessible m (metadata X) MAX_METADATA_SIZE \<and> lo \<le> hi \<and>
     (hi \<le> metadata X \<or> metadata_end X \<le> lo) \<and> metadata X \<le> pos \<and> pos \<le> metadata_end X"

lemma in_metadata_accessible:
  "in_metadata X m lo hi pos \<Longrightarrow> pos + k \<le> metadata_end X \<Longrightarrow> accessible m pos k"
  by (rule accessible_sub [of m "metadata X" MAX_METADATA_SIZE]) (auto simp: in_metadata_def metadata_end_def)

lemma in_metadata_put:
  "in_metadata X m lo hi pos \<Longrightarrow> pos + length bs \<le> metadata_end X \<Longrightarrow>
   in_metadata X (put_bytes m pos bs) lo hi (pos + length bs)"
  by (auto simp: in_metadata_def mem_simps)

lemma stored_in_metadata:
  "stored m lo hi qs xs \<Longrightarrow> in_metadata X m lo hi pos \<Longrightarrow> pos + length bs \<le> metadata_end X \<Longrightarrow>
   stored (put_bytes m pos bs) lo hi qs xs"
  by (erule stored_put) (auto simp: in_metadata_def disjoint_ranges_def)

lemma metadata_step:
  assumes "i < cnt" "read_pair ps i = Some pr" "stored1 m lo hi (Some pr) x" "known_item x"
    and "in_metadata X m lo hi pos" "pos + length (item_metadata X x) \<le> metadata_end X" "length (fst x) \<le> UINT16_MAX"
  shows "metadata_loop X ps cnt file func line i pos m =
    metadata_loop X ps cnt file func line (i + 1) (pos + length (item_metadata X x)) (put_bytes m pos (item_metadata X x))"
proof -
  obtain nm T bs where x: "x = (nm, T, bs)" by (cases x)
  have pr: "name pr = nm" "type_if pr = T" "bytes_at m (value_ptr pr) bs" "lo \<le> value_ptr pr" "value_ptr pr + length bs \<le> hi"
    using assms(3) by (auto simp: x stored1_def)
  have pos: "metadata X \<le> pos" "pos \<le> metadata_end X" using assms(5) by (auto simp: in_metadata_def)
  note acc = in_metadata_accessible [OF assms(5)]
  have fits: "\<not> metadata_end X - pos < length nm + 1 + 1" "\<not> UINT16_MAX < length nm"
    using assms(6,7) by (auto simp: x item_metadata_def split: if_splits)
  show ?thesis
  proof (cases "is_struct x")
    case True
    with assms(4) have "\<exists>c. bs = [c]" unfolding x by (intro known_struct) auto
    then obtain c where c: "bs = [c]" by blast
    have len: "pos + length nm + 3 \<le> metadata_end X" using assms(6) True by (simp add: x item_metadata_def)
    have v: "value_ptr pr < metadata X \<or> metadata_end X \<le> value_ptr pr" "m (value_ptr pr) = Some c"
      using pr assms(5) by (auto simp: c in_metadata_def)
    let ?b = "nm @ [NUL]"
    have p: "put_bytes m pos (nm @ [NUL, struct_char X, c]) =
        put_bytes (put_bytes (put_bytes m pos ?b) (pos + length nm + 1) [struct_char X]) (pos + length nm + 2) [c]"
      using put_bytes_append [of m pos ?b "[struct_char X, c]"]
        put_bytes_append [of "put_bytes m pos ?b" "pos + length nm + 1" "[struct_char X]" "[c]"] by simp
    have a: "accessible m pos (length nm + 1)" "accessible m (pos + length nm + 1) 1" "accessible m (pos + length nm + 2) 1"
      by (rule accessible_sub [OF acc [of "length nm + 3"]]; use len in simp)+
    have r: "put_bytes (put_bytes m pos ?b) (pos + length nm + 1) [struct_char X] (value_ptr pr) = Some c"
      using v len pos by (auto simp: put_bytes_apply)
    show ?thesis
      using True assms(1,2) a fits remaining [OF pos(2,1)] len r p
      by (subst metadata_loop.simps)
        (simp add: x pr item_metadata_def c Let_def store_bytes_ok accessible_put metadata_end_def [symmetric])
  next
    case False
    with assms(4) obtain t where t: "in_type (get_type T) = Some t" by (auto simp: x known_item_def)
    have len: "pos + length nm + 2 \<le> metadata_end X" using assms(6) False by (simp add: x item_metadata_def)
    let ?b = "nm @ [NUL]"
    have p: "put_bytes m pos (nm @ [NUL, tlg_char X t]) = put_bytes (put_bytes m pos ?b) (pos + length nm + 1) [tlg_char X t]"
      using put_bytes_append [of m pos ?b "[tlg_char X t]"] by simp
    have a: "accessible m pos (length nm + 1)" "accessible m (pos + length nm + 1) 1"
      by (rule accessible_sub [OF acc [of "length nm + 2"]]; use len in simp)+
    show ?thesis
      using False assms(1,2) a fits remaining [OF pos(2,1)] len p t
      by (subst metadata_loop.simps)
        (simp add: x pr item_metadata_def Let_def store_bytes_ok accessible_put)
  qed
qed

lemma metadata_loop_ok:
  assumes "stored m lo hi (drop i (take cnt ps)) xs" "cnt \<le> length ps" "i \<le> cnt" "list_all known_item xs"
    and "in_metadata X m lo hi pos" "pos + length (items_metadata X xs) \<le> metadata_end X"
  shows "metadata_loop X ps cnt file func line i pos m =
    Some (True, pos + length (items_metadata X xs), [], put_bytes m pos (items_metadata X xs))"
  using assms
proof (induction xs arbitrary: i pos m)
  case Nil
  with stored_length [OF Nil.prems(1)] show ?case by (subst metadata_loop.simps) (simp add: items_metadata_def)
next
  case (Cons x xs)
  let ?b = "item_metadata X x"
  have split: "items_metadata X (x # xs) = ?b @ items_metadata X xs" by (simp add: items_metadata_def)
  note st = stored_read [OF Cons.prems(1,2)]
  obtain pr where pr: "read_pair ps i = Some pr" "stored1 m lo hi (Some pr) x" using st(2) by blast
  have len: "pos + length ?b \<le> metadata_end X" "length (fst x) \<le> UINT16_MAX"
    using Cons.prems(5,6)
    by (auto simp: split in_metadata_def metadata_end_def MAX_METADATA_SIZE_def UINT16_MAX_def item_metadata_def
        split: prod.splits if_splits)
  have step: "metadata_loop X ps cnt file func line i pos m =
      metadata_loop X ps cnt file func line (i + 1) (pos + length ?b) (put_bytes m pos ?b)"
    by (rule metadata_step [OF st(1) pr _ Cons.prems(5) len]) (use Cons.prems(4) in simp)
  have "metadata_loop X ps cnt file func line (i + 1) (pos + length ?b) (put_bytes m pos ?b) =
      Some (True, pos + length ?b + length (items_metadata X xs), [],
            put_bytes (put_bytes m pos ?b) (pos + length ?b) (items_metadata X xs))"
    by (rule Cons.IH)
      (use st Cons.prems len in_metadata_put [OF Cons.prems(5) len(1)] stored_in_metadata [OF st(3) Cons.prems(5) len(1)]
        in \<open>simp_all add: split\<close>)
  then show ?case unfolding step split by (simp add: put_bytes_append)
qed


text \<open>
  Whatever the pairs are, the loop ends, writes only to the rest of the array and prints
  nothing unless it gives the properties up.
\<close>

definition only_prints :: "etw_effect list \<Rightarrow> bool" where
  "only_prints out = list_all (\<lambda>e. case e of Print c \<Rightarrow> True | _ \<Rightarrow> False) out"

definition metadata_result ::
    "etw_env \<Rightarrow> mem \<Rightarrow> addr \<Rightarrow> addr \<Rightarrow> addr \<Rightarrow> item list \<Rightarrow> (bool \<times> addr \<times> etw_effect list \<times> mem) option \<Rightarrow> bool" where
  "metadata_result X m lo hi pos xs r \<longleftrightarrow>
     (\<exists>b pos' out m'. r = Some (b, pos', out, m') \<and> in_metadata X m' lo hi pos' \<and> pos \<le> pos' \<and>
        unchanged m m' pos (metadata_end X - pos) \<and> keeps_accessible m m' \<and> only_prints out \<and>
        (b \<longrightarrow> list_all known_item xs \<and> pos' = pos + length (items_metadata X xs) \<and>
               m' = put_bytes m pos (items_metadata X xs)))"

lemma metadata_result_False:
  assumes "in_metadata X m lo hi pos" "pos + length bs \<le> metadata_end X" "only_prints out"
  shows "metadata_result X m lo hi pos xs (Some (False, pos + length bs, out, put_bytes m pos bs))"
proof -
  have "unchanged m (put_bytes m pos bs) pos (metadata_end X - pos)" by (rule unchanged_put) (use assms(2) in auto)
  with in_metadata_put [OF assms(1,2)] assms(3) show ?thesis
    unfolding metadata_result_def by (metis keeps_accessible_put le_add1)
qed

lemma metadata_step_cases:
  assumes "i < cnt" "read_pair ps i = Some pr" "stored1 m lo hi (Some pr) x" "readable x" "in_metadata X m lo hi pos"
  shows "(known_item x \<and> pos + length (item_metadata X x) \<le> metadata_end X \<and> length (fst x) \<le> UINT16_MAX) \<or>
    metadata_result X m lo hi pos xs (metadata_loop X ps cnt file func line i pos m)"
proof -
  obtain nm T bs where x: "x = (nm, T, bs)" by (cases x)
  have pr: "name pr = nm" "type_if pr = T" using assms(3) by (auto simp: x stored1_def)
  have pos: "metadata X \<le> pos" "pos \<le> metadata_end X" using assms(5) by (auto simp: in_metadata_def)
  note acc = in_metadata_accessible [OF assms(5)] and fail = metadata_result_False [OF assms(5)]
  consider (long) "UINT16_MAX < length nm \<or> metadata_end X - pos < length nm + 1 + 1"
    | (unknown) "length nm \<le> UINT16_MAX" "pos + length nm + 2 \<le> metadata_end X" "\<not> is_struct x" "in_type (get_type T) = None"
    | (known) "length nm \<le> UINT16_MAX" "pos + length nm + 2 \<le> metadata_end X" "\<not> is_struct x" "in_type (get_type T) \<noteq> None"
    | (struct) "length nm \<le> UINT16_MAX" "pos + length nm + 2 \<le> metadata_end X" "is_struct x"
    using pos by linarith
  then show ?thesis
  proof cases
    case long
    then have "metadata_loop X ps cnt file func line i pos m = Some (False, pos, [does_not_fit i cnt file func line], m)"
      using assms(1,2) remaining [OF pos(2,1)] by (subst metadata_loop.simps) (simp add: pr)
    with fail [of "[]" "[does_not_fit i cnt file func line]"] pos show ?thesis
      by (simp add: only_prints_def does_not_fit_def)
  next
    case unknown
    let ?e = "invalid_type X (get_type T) i cnt file func line"
    have a: "accessible m pos (Suc (length nm))" by (rule acc) (use unknown in simp)
    from unknown have "metadata_loop X ps cnt file func line i pos m =
        Some (False, pos + length nm + 1, [?e], put_bytes m pos (nm @ [NUL]))"
      using assms(1,2) remaining [OF pos(2,1)] a
      by (subst metadata_loop.simps) (simp add: pr x Let_def store_bytes_ok)
    with fail [of "nm @ [NUL]" "[?e]"] unknown show ?thesis by (simp add: only_prints_def invalid_type_def)
  next
    case known
    with assms(4) show ?thesis by (simp add: x known_item_def item_metadata_def)
  next
    case struct
    show ?thesis
    proof (cases "pos + length nm + 2 = metadata_end X")
      case True
      let ?bs = "nm @ [NUL, struct_char X]" and ?e = "does_not_fit i cnt file func line"
      have a: "accessible m pos (Suc (length nm))" "accessible m (Suc (pos + length nm)) 1"
        by (rule accessible_sub [OF acc [of "length nm + 2"]]; use struct in simp)+
      have "put_bytes m pos ?bs = put_bytes (put_bytes m pos (nm @ [NUL])) (Suc (pos + length nm)) [struct_char X]"
        using put_bytes_append [of m pos "nm @ [NUL]" "[struct_char X]"] by simp
      with struct True have "metadata_loop X ps cnt file func line i pos m =
          Some (False, pos + length ?bs, [?e], put_bytes m pos ?bs)"
        using assms(1,2) remaining [OF pos(2,1)] a
        by (subst metadata_loop.simps) (simp add: pr x Let_def store_bytes_ok accessible_put metadata_end_def [symmetric])
      with fail [of ?bs "[?e]"] struct show ?thesis by (simp add: only_prints_def does_not_fit_def)
    next
      case False
      with struct assms(4) show ?thesis by (simp add: x known_item_def item_metadata_def)
    qed
  qed
qed

lemma metadata_loop_total:
  assumes "stored m lo hi (drop i (take cnt ps)) xs" "cnt \<le> length ps" "i \<le> cnt" "list_all readable xs"
    and "in_metadata X m lo hi pos"
  shows "metadata_result X m lo hi pos xs (metadata_loop X ps cnt file func line i pos m)"
  using assms
proof (induction xs arbitrary: i pos m)
  case Nil
  with stored_length [OF Nil.prems(1)] show ?case
    by (subst metadata_loop.simps) (auto simp: metadata_result_def only_prints_def items_metadata_def)
next
  case (Cons x xs)
  let ?b = "item_metadata X x"
  note st = stored_read [OF Cons.prems(1,2)]
  obtain pr where pr: "read_pair ps i = Some pr" "stored1 m lo hi (Some pr) x" using st(2) by blast
  have rx: "readable x" using Cons.prems(4) by simp
  have "(known_item x \<and> pos + length ?b \<le> metadata_end X \<and> length (fst x) \<le> UINT16_MAX) \<or> ?case"
    by (rule metadata_step_cases [OF st(1) pr rx Cons.prems(5)])
  then show ?case
  proof
    assume k: "known_item x \<and> pos + length ?b \<le> metadata_end X \<and> length (fst x) \<le> UINT16_MAX"
    then have len: "pos + length ?b \<le> metadata_end X" by simp
    have step: "metadata_loop X ps cnt file func line i pos m =
        metadata_loop X ps cnt file func line (i + 1) (pos + length ?b) (put_bytes m pos ?b)"
      by (rule metadata_step [OF st(1) pr _ Cons.prems(5)]) (use k in simp_all)
    have "metadata_result X (put_bytes m pos ?b) lo hi (pos + length ?b) xs
        (metadata_loop X ps cnt file func line (i + 1) (pos + length ?b) (put_bytes m pos ?b))"
      by (rule Cons.IH)
        (use st Cons.prems in_metadata_put [OF Cons.prems(5) len] stored_in_metadata [OF st(3) Cons.prems(5) len]
          in simp_all)
    then obtain b pos' out m' where r: "metadata_loop X ps cnt file func line i pos m = Some (b, pos', out, m')"
      "in_metadata X m' lo hi pos'" "pos + length ?b \<le> pos'"
      "unchanged (put_bytes m pos ?b) m' (pos + length ?b) (metadata_end X - (pos + length ?b))"
      "keeps_accessible (put_bytes m pos ?b) m'" "only_prints out"
      "b \<longrightarrow> list_all known_item xs \<and> pos' = pos + length ?b + length (items_metadata X xs) \<and>
         m' = put_bytes (put_bytes m pos ?b) (pos + length ?b) (items_metadata X xs)"
      unfolding metadata_result_def step by blast
    have "unchanged (put_bytes m pos ?b) m' pos (metadata_end X - pos)"
      by (rule unchanged_sub [OF r(4)]) (use len in auto)
    then have "unchanged m m' pos (metadata_end X - pos)"
      by (rule unchanged_trans [OF unchanged_put, rotated -1]) (use len in auto)
    with r k keeps_accessible_trans [OF keeps_accessible_put r(5)] show ?thesis
      unfolding metadata_result_def by (auto simp: items_metadata_def put_bytes_append)
  qed
qed


text \<open>The descriptor of a value that is not a struct: a pointer to its bytes, or the bytes of a \<open>BOOL32\<close>.\<close>

definition describes :: "mem \<Rightarrow> item \<Rightarrow> EVENT_DATA_DESCRIPTOR \<Rightarrow> bool" where
  "describes m x d = (case x of (nm, T, bs) \<Rightarrow>
     (case get_type T of
        LOG_CONTEXT_PROPERTY_TYPE_bool \<Rightarrow> d = EventDataDescCreate_const (le_bytes 4 (if bs = [NUL] then 0 else 1))
      | LOG_CONTEXT_PROPERTY_TYPE_ascii_char_ptr \<Rightarrow> (\<exists>p. d = tlgCreate1Sz_char p \<and> bytes_at m p bs)
      | LOG_CONTEXT_PROPERTY_TYPE_wchar_t_ptr \<Rightarrow> (\<exists>p. d = tlgCreate1Sz_wchar_t p \<and> bytes_at m p bs)
      | LOG_CONTEXT_PROPERTY_TYPE_other k \<Rightarrow> d = Not_filled
      | _ \<Rightarrow> (\<exists>p. d = EventDataDescCreate p (length bs) \<and> bytes_at m p bs)))"

definition leaves :: "item list \<Rightarrow> item list" where
  "leaves xs = filter (\<lambda>x. \<not> is_struct x) xs"

lemma property_data_ok:
  assumes "stored1 m lo hi (Some pr) x" "readable x"
  shows "\<exists>es. property_data pr m = Some es \<and> list_all2 (describes m) (leaves [x]) es \<and> length es \<le> 1"
proof -
  obtain nm T bs where x: "x = (nm, T, bs)" by (cases x)
  have pr: "type_if pr = T" "bytes_at m (value_ptr pr) bs" using assms(1) by (auto simp: x stored1_def)
  show ?thesis
  proof (cases "get_type T = LOG_CONTEXT_PROPERTY_TYPE_bool")
    case True
    with assms(2) obtain c where "bs = [c]" by (auto simp: x readable_def length_Suc_conv)
    with True pr show ?thesis by (simp add: x property_data_def describes_def leaves_def)
  next
    case False
    with assms(2) pr show ?thesis
      by (cases "get_type T") (simp_all add: x property_data_def readable_def describes_def leaves_def)
  qed
qed

lemma data_loop_ok:
  assumes "stored m lo hi (drop i (take cnt ps)) xs" "cnt \<le> length ps" "i \<le> cnt" "list_all readable xs"
    and "length ds + length xs \<le> 68"
  shows "\<exists>es. data_loop ps cnt m i ds = Some (ds @ es) \<and> list_all2 (describes m) (leaves xs) es"
  using assms
proof (induction xs arbitrary: i ds)
  case Nil
  with stored_length [OF Nil.prems(1)] show ?case by (subst data_loop.simps) (simp add: leaves_def)
next
  case (Cons x xs)
  note st = stored_read [OF Cons.prems(1,2)]
  obtain pr where pr: "read_pair ps i = Some pr" "stored1 m lo hi (Some pr) x" using st(2) by blast
  obtain new where new: "property_data pr m = Some new" "list_all2 (describes m) (leaves [x]) new" "length new \<le> 1"
    using property_data_ok [OF pr(2)] Cons.prems(4) by auto
  have f: "fill_data ds new = Some (ds @ new)"
    using Cons.prems(5) new(3) by (simp add: fill_data_def LOG_MAX_ETW_PROPERTY_VALUE_PAIR_COUNT_def)
  have "\<exists>es. data_loop ps cnt m (i + 1) (ds @ new) = Some ((ds @ new) @ es) \<and> list_all2 (describes m) (leaves xs) es"
    by (rule Cons.IH) (use st Cons.prems new(3) in auto)
  then obtain es where es: "data_loop ps cnt m (i + 1) (ds @ new) = Some (ds @ new @ es)"
    "list_all2 (describes m) (leaves xs) es" by auto
  have "leaves (x # xs) = leaves [x] @ leaves xs" by (simp add: leaves_def)
  with new es st(1) pr(1) f show ?case
    by (subst data_loop.simps) (auto intro!: exI [of _ "new @ es"] list_all2_appendI)
qed

text \<open>The metadata without properties.\<close>

definition fixed_bytes :: "etw_env \<Rightarrow> string \<Rightarrow> char list" where
  "fixed_bytes X ev = ev @ [NUL] @ fixed_field X ''content'' TlgInANSISTRING @ fixed_field X ''file'' TlgInANSISTRING @
     fixed_field X ''func'' TlgInANSISTRING @ fixed_field X ''line'' TlgInINT32"

lemma length_fixed_bytes: "length (fixed_bytes X ev) = length ev + 28"
  by (simp add: fixed_bytes_def fixed_field_def)

lemma store_at_next:
  assumes "accessible m p n" "length cs + length bs \<le> n"
  shows "store_at bs (p + length cs, put_bytes m p cs) = Some (p + length (cs @ bs), put_bytes m p (cs @ bs))"
proof -
  have "accessible m (p + length cs) (length bs)" by (rule accessible_sub [OF assms(1)]) (use assms(2) in auto)
  then show ?thesis by (simp add: store_at_def store_bytes_ok accessible_put put_bytes_append)
qed

lemma fixed_metadata_ok:
  assumes "accessible m (metadata X) MAX_METADATA_SIZE" "length ev \<le> 11"
  shows "fixed_metadata X ev (length ev + 1) m =
    Some (metadata X + length (fixed_bytes X ev), put_bytes m (metadata X) (fixed_bytes X ev))"
proof -
  note nxt = store_at_next [OF assms(1)]
  let ?c0 = "ev @ [NUL]" and ?f = "\<lambda>nm. fixed_field X nm TlgInANSISTRING"
  let ?c1 = "?c0 @ ?f ''content''" let ?c2 = "?c1 @ ?f ''file''" let ?c3 = "?c2 @ ?f ''func''"
  have l: "length (fixed_field X nm t) = length nm + 2" for nm t by (simp add: fixed_field_def)
  have s: "store_at ?c0 (metadata X, m) = Some (metadata X + length ?c0, put_bytes m (metadata X) ?c0)"
    "store_at (?f ''content'') (metadata X + length ?c0, put_bytes m (metadata X) ?c0) =
       Some (metadata X + length ?c1, put_bytes m (metadata X) ?c1)"
    "store_at (?f ''file'') (metadata X + length ?c1, put_bytes m (metadata X) ?c1) =
       Some (metadata X + length ?c2, put_bytes m (metadata X) ?c2)"
    "store_at (?f ''func'') (metadata X + length ?c2, put_bytes m (metadata X) ?c2) =
       Some (metadata X + length ?c3, put_bytes m (metadata X) ?c3)"
    using nxt [of "[]" ?c0] nxt [of ?c0 "?f ''content''"] nxt [of ?c1 "?f ''file''"] nxt [of ?c2 "?f ''func''"] assms(2)
    by (simp_all add: l MAX_METADATA_SIZE_def)
  have e: "store_at (fixed_field X ''line'' TlgInINT32) (metadata X + length ?c3, put_bytes m (metadata X) ?c3) =
       Some (metadata X + length (fixed_bytes X ev), put_bytes m (metadata X) (fixed_bytes X ev))"
    using nxt [of ?c3 "fixed_field X ''line'' TlgInINT32"] assms(2) by (simp add: l MAX_METADATA_SIZE_def fixed_bytes_def)
  have t: "take (length ev + 1) (ev @ [NUL]) = ev @ [NUL]" by simp
  show ?thesis unfolding fixed_metadata_def t by (simp only: s e Option.bind.bind_lunit order_refl if_True)
qed

section \<open>The event that is emitted\<close>

definition etw_ready :: "etw_env \<Rightarrow> LOG_CONTEXT_HANDLE \<Rightarrow> mem \<Rightarrow> bool" where
  "etw_ready X h m \<longleftrightarrow> accessible m (metadata X) MAX_METADATA_SIZE \<and> apart h (metadata X) MAX_METADATA_SIZE"

text \<open>The entries of a context and the items they are, none for \<open>NULL\<close>.\<close>

definition handle_items :: "print_law \<Rightarrow> mem \<Rightarrow> LOG_CONTEXT_HANDLE \<Rightarrow> ptree list \<Rightarrow> item list \<Rightarrow> bool" where
  "handle_items P m h ts xs = (case h of
     None \<Rightarrow> ts = [] \<and> xs = []
   | Some C \<Rightarrow> property_value_pair_count C \<le> length (property_value_pairs_ptr C) \<and> shape P ts xs \<and>
       stored m (values_data C) (values_data C + values_data_length C)
         (take (property_value_pair_count C) (property_value_pairs_ptr C)) xs)"

lemma context_inv_items: "context_inv P m C t \<Longrightarrow> \<exists>xs. handle_items P m (Some C) [t] xs"
  by (auto simp: context_inv_def handle_items_def)

text \<open>What the loops need of the context: its array, the number of entries and where the values are.\<close>

definition entries :: "etw_env \<Rightarrow> mem \<Rightarrow> pairs \<Rightarrow> nat \<Rightarrow> addr \<Rightarrow> addr \<Rightarrow> item list \<Rightarrow> bool" where
  "entries X m ps cnt lo hi xs \<longleftrightarrow>
     in_metadata X m lo hi (metadata X) \<and> stored m lo hi (take cnt ps) xs \<and> cnt \<le> length ps"

lemma entries_context:
  assumes "handle_items P m h ts xs" "etw_ready X h m"
  shows "\<exists>lo hi. entries X m (case log_context_get_property_value_pairs h of None \<Rightarrow> [] | Some ps \<Rightarrow> ps)
    (log_context_get_property_value_pair_count h) lo hi xs"
proof (cases h)
  case None
  with assms show ?thesis
    by (intro exI [of _ "metadata X"])
      (simp add: entries_def handle_items_def in_metadata_def metadata_end_def etw_ready_def
        log_context_get_property_value_pair_count_def log_context_get_property_value_pairs_def)
next
  case (Some C)
  with assms show ?thesis
    by (intro exI [of _ "values_data C"] exI [of _ "values_data C + values_data_length C"])
      (auto simp: entries_def handle_items_def in_metadata_def metadata_end_def etw_ready_def apart_def
        log_context_get_property_value_pair_count_def log_context_get_property_value_pairs_def)
qed

lemma entries_fixed:
  assumes "entries X m ps cnt lo hi xs" "length ev \<le> 11"
  defines "m1 \<equiv> put_bytes m (metadata X) (fixed_bytes X ev)" and "pos \<equiv> metadata X + length (fixed_bytes X ev)"
  shows "in_metadata X m1 lo hi pos" "stored m1 lo hi (drop 0 (take cnt ps)) xs" "cnt \<le> length ps"
    "fixed_metadata X ev (length ev + 1) m = Some (pos, m1)"
    "to_uint16 (int pos - int (metadata X)) = length (fixed_bytes X ev)"
proof -
  have i: "in_metadata X m lo hi (metadata X)" and s: "stored m lo hi (take cnt ps) xs" and "cnt \<le> length ps"
    using assms(1) by (auto simp: entries_def)
  have l: "metadata X + length (fixed_bytes X ev) \<le> metadata_end X"
    using assms(2) by (simp add: length_fixed_bytes metadata_end_def MAX_METADATA_SIZE_def)
  show "in_metadata X m1 lo hi pos" unfolding m1_def pos_def by (rule in_metadata_put [OF i l])
  show "stored m1 lo hi (drop 0 (take cnt ps)) xs" unfolding m1_def using stored_in_metadata [OF s i l] by simp
  show "cnt \<le> length ps" by fact
  show "fixed_metadata X ev (length ev + 1) m = Some (pos, m1)"
    unfolding m1_def pos_def using i assms(2) by (intro fixed_metadata_ok) (auto simp: in_metadata_def)
  show "to_uint16 (int pos - int (metadata X)) = length (fixed_bytes X ev)"
    unfolding pos_def using assms(2) by (subst to_uint16_id) (auto simp: length_fixed_bytes)
qed

definition fixed_data :: "addr \<Rightarrow> string option \<Rightarrow> string option \<Rightarrow> int \<Rightarrow> EVENT_DATA_DESCRIPTOR list" where
  "fixed_data msg file func line =
     [tlgCreate1Sz_char msg, tlgCreate1Sz_char_const file, tlgCreate1Sz_char_const func,
      EventDataDescCreate_const (le_bytes 4 (to_uint32 line))]"

lemma emit_event_full:
  assumes "in_metadata X m lo hi pos" "stored m lo hi (take cnt ps) xs" "cnt \<le> length ps" "length xs \<le> 64"
    and "list_all readable xs" "fmt (elib X) f args = Some msg" "pos + length msg < metadata_end X"
  shows "\<exists>es. emit_event X lvl n True pos ps cnt file func line f args m =
      Some (EventWrite (self_described_event X lvl (pos - metadata X)) (fixed_data pos file func line @ es),
            put_bytes m pos (msg @ [NUL])) \<and>
    list_all2 (describes (put_bytes m pos (msg @ [NUL]))) (leaves xs) es"
proof -
  let ?a = "metadata_end X - pos" let ?m = "put_bytes m pos (msg @ [NUL])"
  have pos: "metadata X \<le> pos" "pos \<le> metadata_end X" using assms(1) by (auto simp: in_metadata_def)
  have "accessible m pos ?a" by (rule in_metadata_accessible [OF assms(1)]) (use pos in simp)
  moreover have i: "int (length msg) \<le> INT_MAX"
    using assms(7) pos by (simp add: metadata_end_def MAX_METADATA_SIZE_def INT_MAX_def)
  ultimately have "vsnprintf (elib X) pos ?a f args m = Some (int (length msg), put_cstr m pos ?a msg)"
    using assms(6) by (intro vsnprintf_ok)
  moreover have "put_cstr m pos ?a msg = ?m" using assms(7) by (simp add: put_cstr_def)
  ultimately have v: "vsnprintf (elib X) pos ?a f args m = Some (int (length msg), ?m)" by simp
  have "stored ?m lo hi (drop 0 (take cnt ps)) xs"
    using stored_in_metadata [OF assms(2,1)] assms(7) by simp
  then have "\<exists>es. data_loop ps cnt ?m 0 (fixed_data pos file func line) = Some (fixed_data pos file func line @ es) \<and>
      list_all2 (describes ?m) (leaves xs) es"
    by (rule data_loop_ok) (use assms in \<open>auto simp: fixed_data_def\<close>)
  then obtain es where es: "data_loop ps cnt ?m 0 (fixed_data pos file func line) = Some (fixed_data pos file func line @ es)"
      "list_all2 (describes ?m) (leaves xs) es" by blast
  have u: "to_uint16 (int pos - int (metadata X)) = pos - metadata X"
    using pos by (subst to_uint16_id) (auto simp: metadata_end_def MAX_METADATA_SIZE_def)
  have e: "metadata X + MAX_METADATA_SIZE = metadata_end X" by (simp add: metadata_end_def)
  have c: "\<not> ?a \<le> length msg" using assms(7) by simp
  show ?thesis
    using es c by (simp add: emit_event_def e v u write_event_def fixed_data_def [symmetric])
qed


text \<open>
  An event without properties: the metadata of the four fixed fields, their data, and the
  message cut to what fits behind the metadata.
\<close>

definition plain_event ::
    "etw_env \<Rightarrow> nat \<Rightarrow> string \<Rightarrow> string option \<Rightarrow> string option \<Rightarrow> int \<Rightarrow> string \<Rightarrow> etw_effect \<times> mem \<Rightarrow> bool" where
  "plain_event X lvl ev file func line msg r \<longleftrightarrow>
     fst r = EventWrite (self_described_event X lvl (length (fixed_bytes X ev)))
       (fixed_data (metadata X + length (fixed_bytes X ev)) file func line) \<and>
     bytes_at (snd r) (metadata X) (fixed_bytes X ev) \<and>
     bytes_at (snd r) (metadata X + length (fixed_bytes X ev))
       (take (MAX_METADATA_SIZE - length (fixed_bytes X ev) - 1) msg @ [NUL])"

lemma cut_message:
  assumes "n < MAX_METADATA_SIZE" "length b = n" "bytes_at m p b"
  shows "bytes_at (put_cstr m (p + n) (MAX_METADATA_SIZE - n) msg) p b"
    "bytes_at (put_cstr m (p + n) (MAX_METADATA_SIZE - n) msg) (p + n) (take (MAX_METADATA_SIZE - n - 1) msg @ [NUL])"
proof -
  show "bytes_at (put_cstr m (p + n) (MAX_METADATA_SIZE - n) msg) p b"
    by (rule bytes_at_cong [OF assms(3)]) (use assms in \<open>auto intro: put_cstr_elsewhere\<close>)
  have "MAX_METADATA_SIZE - n \<noteq> 0" using assms(1) by simp
  then show "bytes_at (put_cstr m (p + n) (MAX_METADATA_SIZE - n) msg) (p + n) (take (MAX_METADATA_SIZE - n - 1) msg @ [NUL])"
    by (simp add: put_cstr_def bytes_at_put_same del: bytes_at_append)
qed

lemma emit_event_plain:
  assumes "accessible m (metadata X) MAX_METADATA_SIZE" "bytes_at m (metadata X) (fixed_bytes X ev)" "length ev \<le> 11"
    and "fmt (elib X) f args = Some msg" "int (length msg) \<le> INT_MAX"
  shows "\<exists>r. emit_event X lvl (length (fixed_bytes X ev)) False pos ps cnt file func line f args m = Some r \<and>
    plain_event X lvl ev file func line msg r \<and> unchanged m (snd r) (metadata X) MAX_METADATA_SIZE \<and> keeps_accessible m (snd r)"
proof -
  let ?n = "length (fixed_bytes X ev)" let ?p = "metadata X + ?n" and ?a = "MAX_METADATA_SIZE - ?n"
  let ?m = "put_cstr m ?p ?a msg"
  have n: "?n < MAX_METADATA_SIZE" using assms(3) by (simp add: length_fixed_bytes MAX_METADATA_SIZE_def)
  have "accessible m ?p ?a" by (rule accessible_sub [OF assms(1)]) (use n in auto)
  then have v: "vsnprintf (elib X) ?p ?a f args m = Some (int (length msg), ?m)"
    by (rule vsnprintf_ok [OF assms(4,5)])
  have "unchanged m ?m (metadata X) MAX_METADATA_SIZE"
    by (rule unchanged_sub [OF unchanged_put_cstr]) (use n in auto)
  then show ?thesis using cut_message [OF n refl assms(2)]
    by (simp add: emit_event_def v write_event_def plain_event_def fixed_data_def put_cstr_keeps Let_def)
qed

lemma emit_event_retry:
  assumes "in_metadata X m lo hi pos" "bytes_at m (metadata X) (fixed_bytes X ev)" "length ev \<le> 11"
    and "metadata X + length (fixed_bytes X ev) \<le> pos" "metadata_end X \<le> pos + length msg"
    and "fmt (elib X) f args = Some msg" "int (length msg) \<le> INT_MAX"
  shows "\<exists>r. emit_event X lvl (length (fixed_bytes X ev)) True pos ps cnt file func line f args m = Some r \<and>
    plain_event X lvl ev file func line msg r \<and> unchanged m (snd r) (metadata X) MAX_METADATA_SIZE \<and> keeps_accessible m (snd r)"
proof -
  let ?F = "fixed_bytes X ev" let ?n = "length ?F" let ?p = "metadata X + ?n" and ?a = "MAX_METADATA_SIZE - ?n"
  let ?b = "metadata X + MAX_METADATA_SIZE - pos"
  define m1 where "m1 = put_cstr m pos ?b msg"
  define m2 where "m2 = put_cstr m1 ?p ?a msg"
  define m3 where "m3 = put_bytes m2 (metadata_end X - 1) [NUL]"
  have n: "?n < MAX_METADATA_SIZE" "0 < ?n" using assms(3) by (simp_all add: length_fixed_bytes MAX_METADATA_SIZE_def)
  have pos: "pos \<le> metadata_end X" "metadata X \<le> pos" "accessible m (metadata X) MAX_METADATA_SIZE"
    using assms(1) by (auto simp: in_metadata_def)
  have "accessible m pos ?b" by (rule in_metadata_accessible [OF assms(1)]) (use pos in \<open>simp add: metadata_end_def\<close>)
  then have v1: "vsnprintf (elib X) pos ?b f args m = Some (int (length msg), m1)"
    unfolding m1_def by (rule vsnprintf_ok [OF assms(6,7)])
  have acc: "accessible m1 (metadata X) MAX_METADATA_SIZE" "accessible m2 (metadata X) MAX_METADATA_SIZE"
    using pos(3) by (simp_all add: m1_def m2_def accessible_put_cstr)
  have "accessible m1 ?p ?a" by (rule accessible_sub [OF acc(1)]) (use n in auto)
  then have v2: "vsnprintf (elib X) ?p ?a f args m1 = Some (int (length msg), m2)"
    unfolding m2_def by (rule vsnprintf_ok [OF assms(6,7)])
  have "accessible m2 (metadata_end X - 1) 1"
    by (rule accessible_sub [OF acc(2)]) (use n in \<open>auto simp: metadata_end_def\<close>)
  then have s: "store_bytes m2 (metadata_end X - 1) [NUL] = Some m3" by (simp add: m3_def store_bytes_ok)
  have "bytes_at m1 (metadata X) ?F"
    by (rule bytes_at_cong [OF assms(2)]) (use assms(4) in \<open>auto simp: m1_def intro!: put_cstr_elsewhere\<close>)
  note cut = cut_message [OF n(1) refl this, of msg, folded m2_def]
  have f3: "bytes_at m3 (metadata X) ?F"
    by (rule bytes_at_cong [OF cut(1)]) (use n in \<open>auto simp: m3_def metadata_end_def intro!: put_bytes_outside\<close>)
  have c3: "bytes_at m3 ?p (take (?a - 1) msg @ [NUL])"
    using cut(2) n by (auto simp: m3_def bytes_at_iff put_bytes_apply metadata_end_def nth_append min_def)
  have e: "metadata X + MAX_METADATA_SIZE - ?p = ?a" "?p + ?a - Suc 0 = metadata_end X - Suc 0"
    "?b \<le> length msg" using n assms(5) by (auto simp: metadata_end_def)
  have "unchanged m m1 (metadata X) MAX_METADATA_SIZE" unfolding m1_def
    by (rule unchanged_sub [OF unchanged_put_cstr]) (use pos in \<open>auto simp: metadata_end_def\<close>)
  moreover have "unchanged m1 m2 (metadata X) MAX_METADATA_SIZE" unfolding m2_def
    by (rule unchanged_sub [OF unchanged_put_cstr]) (use n in auto)
  moreover have "unchanged m2 m3 (metadata X) MAX_METADATA_SIZE" unfolding m3_def
    by (rule unchanged_put) (use n in \<open>auto simp: metadata_end_def\<close>)
  ultimately have "unchanged m m3 (metadata X) MAX_METADATA_SIZE" by (blast intro: unchanged_trans)
  moreover have "keeps_accessible m m3"
    unfolding m1_def m2_def m3_def by (meson keeps_accessible_put keeps_accessible_trans put_cstr_keeps)
  ultimately show ?thesis using f3 c3
    by (simp add: emit_event_def v1 e v2 s [simplified] write_event_def plain_event_def fixed_data_def Let_def)
qed


text \<open>The metadata of an event, up to the message: what the first half of the code leaves behind.\<close>

definition after_metadata ::
    "etw_env \<Rightarrow> string \<Rightarrow> mem \<Rightarrow> nat \<Rightarrow> addr \<Rightarrow> addr \<Rightarrow> item list \<Rightarrow> bool \<Rightarrow> addr \<Rightarrow> etw_effect list \<Rightarrow> mem \<Rightarrow> bool" where
  "after_metadata X ev m cnt lo hi xs b pos out m' \<longleftrightarrow>
     in_metadata X m' lo hi pos \<and> bytes_at m' (metadata X) (fixed_bytes X ev) \<and>
     metadata X + length (fixed_bytes X ev) \<le> pos \<and>
     unchanged m m' (metadata X) MAX_METADATA_SIZE \<and> keeps_accessible m m' \<and> only_prints out \<and>
     (b \<longrightarrow> cnt \<le> 64 \<and> list_all known_item xs \<and>
        pos = metadata X + length (fixed_bytes X ev @ items_metadata X xs) \<and>
        m' = put_bytes m (metadata X) (fixed_bytes X ev @ items_metadata X xs)) \<and>
     (cnt \<le> 64 \<and> list_all known_item xs \<and>
        length (fixed_bytes X ev @ items_metadata X xs) \<le> MAX_METADATA_SIZE \<longrightarrow> b \<and> out = [])"

lemma after_metadataD:
  assumes "after_metadata X ev m cnt lo hi xs b pos out m'"
  shows "in_metadata X m' lo hi pos" "bytes_at m' (metadata X) (fixed_bytes X ev)"
    "accessible m' (metadata X) MAX_METADATA_SIZE" "metadata X + length (fixed_bytes X ev) \<le> pos"
    "unchanged m m' (metadata X) MAX_METADATA_SIZE" "keeps_accessible m m'" "only_prints out"
    "b \<Longrightarrow> cnt \<le> 64 \<and> list_all known_item xs \<and> pos = metadata X + length (fixed_bytes X ev @ items_metadata X xs)"
  using assms unfolding after_metadata_def in_metadata_def by blast+

lemma after_metadata_loop:
  assumes "entries X m ps cnt lo hi xs" "length ev \<le> 11" "list_all readable xs" "cnt \<le> 64"
  shows "\<exists>b pos out m'. metadata_loop X ps cnt file func line 0 (metadata X + length (fixed_bytes X ev))
      (put_bytes m (metadata X) (fixed_bytes X ev)) = Some (b, pos, out, m') \<and>
    after_metadata X ev m cnt lo hi xs b pos out m'"
proof -
  let ?F = "fixed_bytes X ev" let ?m1 = "put_bytes m (metadata X) ?F" and ?p = "metadata X + length ?F"
  note e = entries_fixed [OF assms(1,2)]
  have l: "?p \<le> metadata_end X" using e(1) by (simp add: in_metadata_def)
  obtain b pos out m' where r: "metadata_loop X ps cnt file func line 0 ?p ?m1 = Some (b, pos, out, m')"
    "in_metadata X m' lo hi pos" "?p \<le> pos" "unchanged ?m1 m' ?p (metadata_end X - ?p)" "keeps_accessible ?m1 m'"
    "only_prints out" "b \<longrightarrow> list_all known_item xs \<and> pos = ?p + length (items_metadata X xs) \<and> m' = put_bytes ?m1 ?p (items_metadata X xs)"
    using metadata_loop_total [OF e(2,3) le0 assms(3) e(1)] unfolding metadata_result_def by metis
  have f: "bytes_at m' (metadata X) ?F"
    by (rule bytes_at_unchanged [OF bytes_at_put_same r(4)]) (simp add: disjoint_ranges_def)
  have "unchanged ?m1 m' (metadata X) MAX_METADATA_SIZE"
    by (rule unchanged_sub [OF r(4)]) (use l in \<open>auto simp: metadata_end_def\<close>)
  then have u: "unchanged m m' (metadata X) MAX_METADATA_SIZE"
    by (rule unchanged_trans [OF unchanged_put, rotated -1]) (use l in \<open>auto simp: metadata_end_def\<close>)
  have ok: "b \<and> out = []" if "list_all known_item xs" "length (?F @ items_metadata X xs) \<le> MAX_METADATA_SIZE"
    using metadata_loop_ok [OF e(2,3) le0 that(1) e(1)] that(2) r(1) by (simp add: metadata_end_def)
  from r f u ok assms(4) keeps_accessible_trans [OF keeps_accessible_put r(5)] show ?thesis
    unfolding after_metadata_def by (intro exI [of _ b] exI [of _ pos] exI [of _ out] exI [of _ m'])
      (auto simp: put_bytes_append)
qed

lemma emit_metadata:
  assumes "entries X m ps cnt lo hi xs" "length ev \<le> 11" "list_all readable xs" "lvl < LevelPlus1 X"
    and "ps = (case qs of None \<Rightarrow> [] | Some ps \<Rightarrow> ps)"
  shows "\<exists>b pos out m2. internal_emit_self_described_event_va X ev (length ev + 1) lvl qs cnt file func line f args m =
      do { (e, m3) \<leftarrow> emit_event X lvl (length (fixed_bytes X ev)) b pos ps cnt file func line f args m2; Some (out @ [e], m3) } \<and>
    after_metadata X ev m cnt lo hi xs b pos out m2"
proof (cases "cnt \<le> 64")
  case True
  let ?F = "fixed_bytes X ev"
  obtain b pos out m2 where r: "metadata_loop X ps cnt file func line 0 (metadata X + length ?F)
      (put_bytes m (metadata X) ?F) = Some (b, pos, out, m2)" "after_metadata X ev m cnt lo hi xs b pos out m2"
    using after_metadata_loop [OF assms(1-3) True] by blast
  then show ?thesis
    using True assms(4) entries_fixed(4,5) [OF assms(1,2)]
    by (intro exI [of _ b] exI [of _ pos] exI [of _ out] exI [of _ m2])
      (simp add: internal_emit_self_described_event_va_def assms(5) [symmetric] LOG_MAX_ETW_PROPERTY_VALUE_PAIR_COUNT_def)
next
  case False
  let ?F = "fixed_bytes X ev" let ?m1 = "put_bytes m (metadata X) ?F"
  note e = entries_fixed [OF assms(1,2)]
  have "unchanged m ?m1 (metadata X) MAX_METADATA_SIZE"
    by (rule unchanged_put) (use assms(2) in \<open>auto simp: length_fixed_bytes MAX_METADATA_SIZE_def\<close>)
  then have "after_metadata X ev m cnt lo hi xs False (metadata X + length ?F) [] ?m1"
    using False e(1) by (simp add: after_metadata_def bytes_at_put_same only_prints_def)
  then show ?thesis
    using False assms(4) e(4,5)
    by (intro exI [of _ False] exI [of _ "metadata X + length ?F"] exI [of _ "[]"] exI [of _ ?m1])
      (simp add: internal_emit_self_described_event_va_def assms(5) [symmetric] LOG_MAX_ETW_PROPERTY_VALUE_PAIR_COUNT_def)
qed


section \<open>Properties\<close>

definition fixed_fields :: "etw_env \<Rightarrow> etw_field list" where
  "fixed_fields X = [Scalar ''content'' (tlg X TlgInANSISTRING), Scalar ''file'' (tlg X TlgInANSISTRING),
     Scalar ''func'' (tlg X TlgInANSISTRING), Scalar ''line'' (tlg X TlgInINT32)]"

lemma decode_fixed_field:
  assumes "tlg_values X" "t \<noteq> TlgInChain" "NUL \<notin> set nm"
  shows "decode_flat [] (fixed_field X nm t @ bs) = map_option ((#) (nm, tlg X t, None)) (decode_flat [] bs)"
proof -
  note v = tlg_char_values [OF assms(1,2)]
  from v(2) have "\<not> 32 \<le> tlg X t mod 128" "tlg X t < 128" by simp_all
  with v(1) assms(3) show ?thesis by (simp add: fixed_field_def decode_flat_name)
qed

lemma decode_event_bytes:
  assumes "tlg_values X" "NUL \<notin> set ev" "list_all etw_item xs"
  shows "decode_event (fixed_bytes X ev @ items_metadata X xs) = Some (ev, fixed_fields X @ regroup (map (item_flat X) xs))"
proof -
  have t: "takeWhile (\<lambda>c. c \<noteq> NUL) (ev @ NUL # bs) = ev" for bs
    using assms(2) by (subst takeWhile_append2) auto
  show ?thesis
    by (simp add: decode_event_def fixed_bytes_def t decode_fixed_field [OF assms(1)] decode_items [OF assms(1,3)]
        fixed_fields_def)
qed

text \<open>The fields of an event, as a consumer reads them: the header gives the size of the metadata.\<close>

definition event_fields :: "mem \<Rightarrow> SELF_DESCRIBED_EVENT \<Rightarrow> (string \<times> etw_field list) option" where
  "event_fields m e = do { bs \<leftarrow> load_bytes m (event_metadata e) (tlgEvtMetaSize e - 4); decode_event bs }"

lemma event_fields_at:
  assumes "bytes_at m (metadata X) bs" "length bs \<le> MAX_METADATA_SIZE"
  shows "event_fields m (self_described_event X lvl (length bs)) = decode_event bs"
proof -
  have "to_uint16 (int (length bs) + 4) = length bs + 4"
    using assms(2) by (subst to_uint16_id) (auto simp: MAX_METADATA_SIZE_def)
  with assms(1) show ?thesis by (simp add: event_fields_def self_described_event_def load_bytes_at)
qed

lemma etw_event_kind_name: "etw_event_kind l = (ev, lv) \<Longrightarrow> length ev \<le> 11 \<and> NUL \<notin> set ev"
  by (auto simp: etw_event_kind_def event_name_critical_def event_name_error_def event_name_warning_def
      event_name_info_def event_name_verbose_def event_name_unknown_def split: if_splits)

lemma etw_log_emit:
  assumes "etw_event_kind l = (ev, lv)" "log_context_get_property_value_pair_count h < 65536"
  shows "log_sink_etw_log X l h file func line (Some f) args m =
    internal_emit_self_described_event_va X ev (length ev + 1) (trace X lv) (log_context_get_property_value_pairs h)
      (log_context_get_property_value_pair_count h) file func line f args m"
  using assms by (simp add: log_sink_etw_log_def to_uint16_id)

lemma emit_full:
  assumes "entries X m ps cnt lo hi xs" "length ev \<le> 11" "list_all known_item xs" "lvl < LevelPlus1 X"
    and "ps = (case qs of None \<Rightarrow> [] | Some ps \<Rightarrow> ps)" "cnt \<le> 64" "fmt (elib X) f args = Some msg"
    and "length (fixed_bytes X ev @ items_metadata X xs) + length msg < MAX_METADATA_SIZE"
  defines "M \<equiv> fixed_bytes X ev @ items_metadata X xs" and "m' \<equiv> put_bytes m (metadata X)
      ((fixed_bytes X ev @ items_metadata X xs) @ msg @ [NUL])"
  shows "\<exists>es. internal_emit_self_described_event_va X ev (length ev + 1) lvl qs cnt file func line f args m =
      Some ([EventWrite (self_described_event X lvl (length M)) (fixed_data (metadata X + length M) file func line @ es)], m') \<and>
    list_all2 (describes m') (leaves xs) es"
proof -
  have rd: "list_all readable xs" using assms(3) by (auto simp: list_all_iff known_item_def)
  obtain b pos out m2 where em: "internal_emit_self_described_event_va X ev (length ev + 1) lvl qs cnt file func line f args m =
      do { (e, m3) \<leftarrow> emit_event X lvl (length (fixed_bytes X ev)) b pos ps cnt file func line f args m2;
           Some (out @ [e], m3) }" and af: "after_metadata X ev m cnt lo hi xs b pos out m2"
    using emit_metadata [OF assms(1,2) rd assms(4,5)] by blast
  have b: "b" "out = []" "pos = metadata X + length M" "m2 = put_bytes m (metadata X) M" "in_metadata X m2 lo hi pos"
    using af assms(3,6,8) by (auto simp: after_metadata_def M_def)
  have fits: "pos + length msg < metadata_end X" using assms(8) by (simp add: b(3) metadata_end_def M_def)
  have st: "stored m2 lo hi (take cnt ps) xs" "cnt \<le> length ps" "length xs \<le> 64"
    using assms(1,6,8) stored_length [of m lo hi "take cnt ps" xs] unfolding b(4) M_def
    by (auto simp: entries_def metadata_end_def intro!: stored_in_metadata)
  have "m' = put_bytes m2 pos (msg @ [NUL])"
    unfolding m'_def M_def [symmetric] b(3,4) put_bytes_append [of m "metadata X" M] by simp
  then obtain es where "emit_event X lvl (length (fixed_bytes X ev)) True pos ps cnt file func line f args m2 =
      Some (EventWrite (self_described_event X lvl (pos - metadata X)) (fixed_data pos file func line @ es), m')"
      "list_all2 (describes m') (leaves xs) es"
    using emit_event_full [OF b(5) st rd assms(7) fits] by metis
  with em b(1-3) show ?thesis by auto
qed

text \<open>The names and levels of the events as the requirements of the sink list them.\<close>

definition documented_levels :: "(LOG_LEVEL \<times> string \<times> TRACE_LEVEL) list" where
  "documented_levels =
     [(LOG_LEVEL_CRITICAL, ''LogCritical'', TRACE_LEVEL_CRITICAL), (LOG_LEVEL_ERROR, ''LogError'', TRACE_LEVEL_ERROR),
      (LOG_LEVEL_WARNING, ''LogWarning'', TRACE_LEVEL_WARNING), (LOG_LEVEL_INFO, ''LogInfo'', TRACE_LEVEL_INFORMATION),
      (LOG_LEVEL_VERBOSE, ''LogVerbose'', TRACE_LEVEL_VERBOSE)]"

definition documented_kind :: "LOG_LEVEL \<Rightarrow> string \<times> TRACE_LEVEL" where
  "documented_kind l = (case map_of documented_levels l of None \<Rightarrow> (''Unknown'', TRACE_LEVEL_NONE) | Some r \<Rightarrow> r)"

lemma documented_kind_eq: "documented_kind l = etw_event_kind l"
  by (simp add: documented_kind_def documented_levels_def etw_event_kind_def event_name_critical_def event_name_error_def
      event_name_warning_def event_name_info_def event_name_verbose_def event_name_unknown_def)

lemma log_carries_context:
  assumes "etw_ready X h m" "tlg_values X" "etw_event_kind l = (ev, lv)" "trace X lv < LevelPlus1 X"
    and "handle_items P m h ts xs" "list_all etw_item xs" "log_context_get_property_value_pair_count h \<le> 64"
    and "fmt (elib X) f args = Some msg" "NUL \<notin> set msg"
    and "length (fixed_bytes X ev @ items_metadata X xs) + length msg < MAX_METADATA_SIZE"
  shows "\<exists>e p fs es m'. log_sink_etw_log X l h file func line (Some f) args m =
       Some ([EventWrite e (fixed_data p file func line @ es)], m') \<and>
     tlgLevel e = trace X lv \<and> event_fields m' e = Some (ev, fixed_fields X @ fs) \<and>
     fs = regroup (map (item_flat X) xs) \<and> list_all2 same_shape fs ts \<and>
     c_str m' p = Some msg \<and> list_all2 (describes m') (leaves xs) es \<and>
     unchanged m m' (metadata X) MAX_METADATA_SIZE"
proof -
  let ?cnt = "log_context_get_property_value_pair_count h" let ?M = "fixed_bytes X ev @ items_metadata X xs"
  let ?e = "self_described_event X (trace X lv) (length ?M)" and ?m = "put_bytes m (metadata X) (?M @ msg @ [NUL])"
  have ev: "length ev \<le> 11" "NUL \<notin> set ev" using etw_event_kind_name [OF assms(3)] by auto
  have known: "list_all known_item xs" using assms(6) by (auto simp: list_all_iff etw_known)
  obtain lo hi where en: "entries X m (case log_context_get_property_value_pairs h of None \<Rightarrow> [] | Some ps \<Rightarrow> ps) ?cnt lo hi xs"
    using entries_context [OF assms(5,1)] by blast
  have lg: "log_sink_etw_log X l h file func line (Some f) args m = internal_emit_self_described_event_va X ev (length ev + 1)
      (trace X lv) (log_context_get_property_value_pairs h) ?cnt file func line f args m"
    by (rule etw_log_emit [OF assms(3)]) (use assms(7) in simp)
  obtain es where es: "log_sink_etw_log X l h file func line (Some f) args m =
      Some ([EventWrite ?e (fixed_data (metadata X + length ?M) file func line @ es)], ?m)"
      "list_all2 (describes ?m) (leaves xs) es"
    unfolding lg using emit_full [OF en ev(1) known assms(4) refl assms(7,8,10)] by blast
  have "bytes_at ?m (metadata X) (?M @ msg @ [NUL])" by (rule bytes_at_put_same)
  then have M: "bytes_at ?m (metadata X) ?M" "bytes_at ?m (metadata X + length ?M) (msg @ [NUL])"
    unfolding bytes_at_append [of ?m "metadata X" ?M] by auto
  have fields: "event_fields ?m ?e = Some (ev, fixed_fields X @ regroup (map (item_flat X) xs))"
    using event_fields_at [OF M(1)] decode_event_bytes [OF assms(2) ev(2) assms(6)] assms(10) by simp
  have "shape P ts xs" using assms(5) by (auto simp: handle_items_def shape.empty split: option.splits)
  then have "list_all2 same_shape (regroup (map (item_flat X) xs)) ts"
    using regroup_shape [of P ts xs X "[]"] by auto
  moreover have "unchanged m ?m (metadata X) MAX_METADATA_SIZE" by (rule unchanged_put) (use assms(10) in auto)
  moreover have "tlgLevel ?e = trace X lv" by (simp add: self_described_event_def)
  ultimately show ?thesis using fields es c_str_at [OF M(2) assms(9)] by blast
qed

text \<open>
  C6: A log call emits one self-described event that carries the whole context: when the
  provider is enabled for the level, the context has at most 64 properties and metadata and
  message fit in 4096 bytes, the only effect is one event with the level and name of the
  log level; decoding its metadata as the format prescribes gives the fields \<open>content\<close>,
  \<open>file\<close>, \<open>func\<close>, \<open>line\<close> and then fields with the names, types and nesting of the
  context's properties; the data are the whole message, file, function, line and, for each
  property that is not a struct, in order, exactly the bytes of its value.
\<close>
theorem etw_event_carries_context:
  assumes "etw_ready X h m" "tlg_values X" "documented_kind l = (ev, lv)" "trace X lv < LevelPlus1 X"
    and "handle_items P m h ts xs" "list_all etw_item xs" "log_context_get_property_value_pair_count h \<le> 64"
    and "fmt (elib X) f args = Some msg" "NUL \<notin> set msg"
    and "length (fixed_bytes X ev @ items_metadata X xs) + length msg < MAX_METADATA_SIZE"
  shows "\<exists>e p fs es m'. log_sink_etw_log X l h file func line (Some f) args m =
       Some ([EventWrite e (fixed_data p file func line @ es)], m') \<and>
     tlgLevel e = trace X lv \<and> event_fields m' e = Some (ev, fixed_fields X @ fs) \<and>
     fs = regroup (map (item_flat X) xs) \<and> list_all2 same_shape fs ts \<and>
     c_str m' p = Some msg \<and> list_all2 (describes m') (leaves xs) es \<and>
     unchanged m m' (metadata X) MAX_METADATA_SIZE"
  by (rule log_carries_context [OF assms [unfolded documented_kind_eq]])


lemma emit_plain:
  assumes "entries X m ps cnt lo hi xs" "length ev \<le> 11" "list_all readable xs" "lvl < LevelPlus1 X"
    and "ps = (case qs of None \<Rightarrow> [] | Some ps \<Rightarrow> ps)" "fmt (elib X) f args = Some msg" "int (length msg) \<le> INT_MAX"
    and "64 < cnt \<or> \<not> list_all known_item xs \<or>
      MAX_METADATA_SIZE \<le> length (fixed_bytes X ev @ items_metadata X xs) + length msg"
  shows "\<exists>out e m'. internal_emit_self_described_event_va X ev (length ev + 1) lvl qs cnt file func line f args m =
      Some (out @ [e], m') \<and> only_prints out \<and> plain_event X lvl ev file func line msg (e, m') \<and>
      unchanged m m' (metadata X) MAX_METADATA_SIZE \<and> keeps_accessible m m'"
proof -
  obtain b pos out m2 where em: "internal_emit_self_described_event_va X ev (length ev + 1) lvl qs cnt file func line f args m =
      do { (e, m3) \<leftarrow> emit_event X lvl (length (fixed_bytes X ev)) b pos ps cnt file func line f args m2;
           Some (out @ [e], m3) }" and af: "after_metadata X ev m cnt lo hi xs b pos out m2"
    using emit_metadata [OF assms(1-5)] by blast
  note p = after_metadataD [OF af]
  have "\<exists>r. emit_event X lvl (length (fixed_bytes X ev)) b pos ps cnt file func line f args m2 = Some r \<and>
    plain_event X lvl ev file func line msg r \<and> unchanged m2 (snd r) (metadata X) MAX_METADATA_SIZE \<and> keeps_accessible m2 (snd r)"
  proof (cases b)
    case True
    with p(8) assms(8) have "metadata_end X \<le> pos + length msg" by (auto simp: metadata_end_def)
    with True emit_event_retry [OF p(1,2) assms(2) p(4) _ assms(6,7)] show ?thesis by simp
  next
    case False
    with emit_event_plain [OF p(3,2) assms(2,6,7)] show ?thesis by simp
  qed
  then obtain e m' where r: "emit_event X lvl (length (fixed_bytes X ev)) b pos ps cnt file func line f args m2 = Some (e, m')"
    "plain_event X lvl ev file func line msg (e, m')" "unchanged m2 m' (metadata X) MAX_METADATA_SIZE" "keeps_accessible m2 m'"
    by auto
  have "unchanged m m' (metadata X) MAX_METADATA_SIZE" "keeps_accessible m m'" "only_prints out"
    using p(5-7) r(3,4) by (blast intro: unchanged_trans keeps_accessible_trans)+
  with em r(1,2) show ?thesis by (intro exI [of _ out] exI [of _ e] exI [of _ m']) simp
qed

lemma log_drops_properties:
  assumes "etw_ready X h m" "etw_event_kind l = (ev, lv)" "trace X lv < LevelPlus1 X"
    and "handle_items P m h ts xs" "list_all readable xs" "log_context_get_property_value_pair_count h < 65536"
    and "fmt (elib X) f args = Some msg" "int (length msg) \<le> INT_MAX"
    and "64 < log_context_get_property_value_pair_count h \<or> \<not> list_all known_item xs \<or>
      MAX_METADATA_SIZE \<le> length (fixed_bytes X ev @ items_metadata X xs) + length msg"
  shows "\<exists>out e m'. log_sink_etw_log X l h file func line (Some f) args m = Some (out @ [e], m') \<and>
     only_prints out \<and> plain_event X (trace X lv) ev file func line msg (e, m') \<and>
     unchanged m m' (metadata X) MAX_METADATA_SIZE"
proof -
  have ev: "length ev \<le> 11" using etw_event_kind_name [OF assms(2)] by auto
  obtain lo hi where en: "entries X m (case log_context_get_property_value_pairs h of None \<Rightarrow> [] | Some ps \<Rightarrow> ps)
      (log_context_get_property_value_pair_count h) lo hi xs"
    using entries_context [OF assms(4,1)] by blast
  show ?thesis unfolding etw_log_emit [OF assms(2,6)] using emit_plain [OF en ev assms(5,3) refl assms(7-9)] by blast
qed

text \<open>
  C36: When the properties do not fit, because there are more than 64, one has an unknown
  type, or metadata and message together exceed 4096 bytes, the event is emitted without
  any of them: after diagnostics the sink writes an event with the four fixed fields, whose
  \<open>content\<close> is the message cut to the space behind the metadata and terminated.
\<close>
theorem etw_event_drops_properties:
  assumes "etw_ready X h m" "documented_kind l = (ev, lv)" "trace X lv < LevelPlus1 X"
    and "handle_items P m h ts xs" "list_all readable xs" "log_context_get_property_value_pair_count h < 65536"
    and "fmt (elib X) f args = Some msg" "int (length msg) \<le> INT_MAX"
    and "64 < log_context_get_property_value_pair_count h \<or> \<not> list_all known_item xs \<or>
      MAX_METADATA_SIZE \<le> length (fixed_bytes X ev @ items_metadata X xs) + length msg"
  shows "\<exists>out e m'. log_sink_etw_log X l h file func line (Some f) args m = Some (out @ [e], m') \<and>
     only_prints out \<and> plain_event X (trace X lv) ev file func line msg (e, m') \<and>
     unchanged m m' (metadata X) MAX_METADATA_SIZE"
  by (rule log_drops_properties [OF assms [unfolded documented_kind_eq]])

lemma emit_total:
  assumes "entries X m ps cnt lo hi xs" "length ev \<le> 11" "list_all readable xs" "lvl < LevelPlus1 X"
    and "ps = (case qs of None \<Rightarrow> [] | Some ps \<Rightarrow> ps)"
  shows "\<exists>out m'. internal_emit_self_described_event_va X ev (length ev + 1) lvl qs cnt file func line f args m = Some (out, m') \<and>
      unchanged m m' (metadata X) MAX_METADATA_SIZE \<and> keeps_accessible m m' \<and>
      (only_prints out \<or> (\<exists>pre e ds. out = pre @ [EventWrite e ds] \<and> only_prints pre \<and> 4 \<le> length ds \<and> length ds \<le> 68))"
proof (cases "\<exists>msg. fmt (elib X) f args = Some msg \<and> int (length msg) \<le> INT_MAX")
  case False
  then have v: "vsnprintf (elib X) p n f args m' = Some (- 1, m')" for p n m'
    by (auto simp: vsnprintf_def split: option.splits)
  obtain b pos out m2 where em: "internal_emit_self_described_event_va X ev (length ev + 1) lvl qs cnt file func line f args m =
      do { (e, m3) \<leftarrow> emit_event X lvl (length (fixed_bytes X ev)) b pos ps cnt file func line f args m2;
           Some (out @ [e], m3) }" and af: "after_metadata X ev m cnt lo hi xs b pos out m2"
    using emit_metadata [OF assms] by blast
  have "emit_event X lvl (length (fixed_bytes X ev)) b pos ps cnt file func line f args m2 =
      Some (emit_error cnt file func line, m2)" by (simp add: emit_event_def v Let_def)
  with em after_metadataD(5-7) [OF af] show ?thesis by (simp add: only_prints_def emit_error_def)
next
  case True
  then obtain msg where msg: "fmt (elib X) f args = Some msg" "int (length msg) \<le> INT_MAX" by blast
  let ?M = "fixed_bytes X ev @ items_metadata X xs"
  show ?thesis
  proof (cases "cnt \<le> 64 \<and> list_all known_item xs \<and> length ?M + length msg < MAX_METADATA_SIZE")
    case False
    then have c: "64 < cnt \<or> \<not> list_all known_item xs \<or> MAX_METADATA_SIZE \<le> length ?M + length msg" by auto
    show ?thesis using emit_plain [OF assms msg c] by (fastforce simp: plain_event_def fixed_data_def)
  next
    case True
    let ?m' = "put_bytes m (metadata X) (?M @ msg @ [NUL])"
    obtain es where es: "internal_emit_self_described_event_va X ev (length ev + 1) lvl qs cnt file func line f args m =
      Some ([EventWrite (self_described_event X lvl (length ?M)) (fixed_data (metadata X + length ?M) file func line @ es)], ?m')"
      "list_all2 (describes ?m') (leaves xs) es"
      using emit_full [OF assms(1,2) _ assms(4,5) _ msg(1)] True by blast
    have "length es = length (leaves xs)" using list_all2_lengthD [OF es(2)] by simp
    then have "length es \<le> 64"
      using True assms(1) stored_length [of m lo hi "take cnt ps" xs] length_filter_le [of _ xs]
      unfolding entries_def leaves_def by (metis (no_types, lifting) le_trans length_take min.cobounded2 min.absorb2)
    moreover have "unchanged m ?m' (metadata X) MAX_METADATA_SIZE" by (rule unchanged_put) (use True in auto)
    ultimately show ?thesis using es(1) by (fastforce simp: only_prints_def fixed_data_def)
  qed
qed

lemma etw_log_returns:
  assumes "etw_ready X h m" "handle_items P m h ts xs" "list_all readable xs"
    and "log_context_get_property_value_pair_count h < 65536"
  shows "\<exists>out m'. log_sink_etw_log X l h file func line fo args m = Some (out, m') \<and>
     unchanged m m' (metadata X) MAX_METADATA_SIZE \<and> keeps_accessible m m' \<and>
     (only_prints out \<or> (\<exists>pre e ds. out = pre @ [EventWrite e ds] \<and> only_prints pre \<and> 4 \<le> length ds \<and> length ds \<le> 68))"
proof (cases "\<exists>f ev lv. fo = Some f \<and> etw_event_kind l = (ev, lv) \<and> trace X lv < LevelPlus1 X")
  case False
  then show ?thesis
    by (cases fo; cases "etw_event_kind l")
      (auto simp: log_sink_etw_log_def only_prints_def internal_emit_self_described_event_va_def)
next
  case True
  then obtain f ev lv where f: "fo = Some f" and k: "etw_event_kind l = (ev, lv)" and lv: "trace X lv < LevelPlus1 X" by blast
  have ev: "length ev \<le> 11" using etw_event_kind_name [OF k] by auto
  let ?cnt = "log_context_get_property_value_pair_count h"
  obtain lo hi where en: "entries X m (case log_context_get_property_value_pairs h of None \<Rightarrow> [] | Some ps \<Rightarrow> ps) ?cnt lo hi xs"
    using entries_context [OF assms(2,1)] by blast
  show ?thesis
    unfolding f etw_log_emit [OF k assms(4)] using emit_total [OF en ev assms(3) lv refl] by blast
qed

text \<open>The levels of the events among the effects, in order.\<close>

definition event_levels :: "etw_effect list \<Rightarrow> nat list" where
  "event_levels out = concat (map (\<lambda>e. case e of EventWrite d ds \<Rightarrow> [tlgLevel d] | _ \<Rightarrow> []) out)"

lemma event_levels_prints: "only_prints out \<Longrightarrow> event_levels (out @ es) = event_levels es"
  by (induction out) (auto simp: only_prints_def event_levels_def split: etw_effect.splits)

lemma emit_unformatted:
  assumes "entries X m ps cnt lo hi xs" "length ev \<le> 11" "list_all readable xs" "lvl < LevelPlus1 X"
    and "ps = (case qs of None \<Rightarrow> [] | Some ps \<Rightarrow> ps)" "formatted (elib X) f args = None"
    and "internal_emit_self_described_event_va X ev (length ev + 1) lvl qs cnt file func line f args m = Some (out, m')"
  shows "only_prints out"
proof -
  have v: "vsnprintf (elib X) p n f args m' = Some (- 1, m')" for p n m'
    using assms(6) by (auto simp: vsnprintf_def formatted_def split: option.splits if_splits)
  obtain b pos out' m2 where em: "internal_emit_self_described_event_va X ev (length ev + 1) lvl qs cnt file func line f args m =
      do { (e, m3) \<leftarrow> emit_event X lvl (length (fixed_bytes X ev)) b pos ps cnt file func line f args m2;
           Some (out' @ [e], m3) }" and af: "after_metadata X ev m cnt lo hi xs b pos out' m2"
    using emit_metadata [OF assms(1-5)] by blast
  have "emit_event X lvl (length (fixed_bytes X ev)) b pos ps cnt file func line f args m2 =
      Some (emit_error cnt file func line, m2)" by (simp add: emit_event_def v Let_def)
  with em assms(7) after_metadataD(5-7) [OF af] show ?thesis by (auto simp: only_prints_def emit_error_def)
qed

lemma emit_formatted:
  assumes "entries X m ps cnt lo hi xs" "length ev \<le> 11" "list_all readable xs" "lvl < LevelPlus1 X"
    and "ps = (case qs of None \<Rightarrow> [] | Some ps \<Rightarrow> ps)" "fmt (elib X) f args = Some msg" "int (length msg) \<le> INT_MAX"
    and run: "internal_emit_self_described_event_va X ev (length ev + 1) lvl qs cnt file func line f args m = Some (out, m')"
  shows "event_levels out = [lvl]"
proof -
  let ?M = "fixed_bytes X ev @ items_metadata X xs"
  show ?thesis
  proof (cases "cnt \<le> 64 \<and> list_all known_item xs \<and> length ?M + length msg < MAX_METADATA_SIZE")
    case False
    then have c: "64 < cnt \<or> \<not> list_all known_item xs \<or> MAX_METADATA_SIZE \<le> length ?M + length msg" by auto
    obtain pre a where "out = pre @ [a]" "only_prints pre" "plain_event X lvl ev file func line msg (a, m')"
      using emit_plain [OF assms(1-7) c, of "file" func line] run by auto
    then show ?thesis
      by (simp add: event_levels_prints plain_event_def self_described_event_def) (simp add: event_levels_def)
  next
    case True
    with emit_full [OF assms(1,2) _ assms(4,5) _ assms(6), of "file" func line] run show ?thesis
      by (auto simp: event_levels_def self_described_event_def)
  qed
qed

lemma etw_log_levels:
  assumes "etw_ready X h m" "handle_items P m h ts xs" "list_all readable xs"
    and "log_context_get_property_value_pair_count h < 65536" "documented_kind l = (ev, lv)"
    and run: "log_sink_etw_log X l h file func line (Some f) args m = Some (out, m')"
  shows "event_levels out = (if trace X lv < LevelPlus1 X \<and> formatted (elib X) f args \<noteq> None then [trace X lv] else [])"
proof (cases "trace X lv < LevelPlus1 X")
  case False
  with run show ?thesis
    unfolding etw_log_emit [OF assms(5) [unfolded documented_kind_eq] assms(4)]
    by (auto simp: internal_emit_self_described_event_va_def event_levels_def)
next
  case True
  have k: "etw_event_kind l = (ev, lv)" using assms(5) by (simp add: documented_kind_eq)
  have ev: "length ev \<le> 11" using etw_event_kind_name [OF k] by auto
  obtain lo hi where en: "entries X m (case log_context_get_property_value_pairs h of None \<Rightarrow> [] | Some ps \<Rightarrow> ps)
      (log_context_get_property_value_pair_count h) lo hi xs"
    using entries_context [OF assms(2,1)] by blast
  note e = run [unfolded etw_log_emit [OF k assms(4)]]
  show ?thesis
  proof (cases "formatted (elib X) f args")
    case None
    from emit_unformatted [OF en ev assms(3) True refl None e] have "event_levels (out @ []) = []"
      by (simp only: event_levels_prints) (simp add: event_levels_def)
    with None show ?thesis by simp
  next
    case (Some msg)
    then have "fmt (elib X) f args = Some msg" "int (length msg) \<le> INT_MAX"
      by (auto simp: formatted_def split: option.splits if_splits)
    from emit_formatted [OF en ev assms(3) True refl this e] True Some show ?thesis by simp
  qed
qed

lemma etw_init_returns:
  assumes "accessible m (metadata X) MAX_METADATA_SIZE"
  shows "\<exists>r out s' m'. log_sink_etw_init X s m = Some (r, out, s', m') \<and>
     unchanged m m' (metadata X) MAX_METADATA_SIZE \<and> keeps_accessible m m' \<and>
     (MU_FAILURE (elib X) \<noteq> 0 \<longrightarrow> s = LOG_SINK_ETW_STATE_NOT_INITIALIZED \<longrightarrow>
        s' = (if r = 0 then LOG_SINK_ETW_STATE_INITIALIZED else LOG_SINK_ETW_STATE_NOT_INITIALIZED))"
proof -
  have e: "entries X m [] 0 (metadata X) (metadata X) []"
    using assms by (simp add: entries_def in_metadata_def metadata_end_def)
  have n: "length event_name_info \<le> 11" by (simp add: event_name_info_def)
  have "\<exists>out m'. internal_emit_self_described_event X event_name_info (length event_name_info + 1)
      (trace X TRACE_LEVEL_INFORMATION) None 0 fl func line f args m = Some (out, m') \<and>
      unchanged m m' (metadata X) MAX_METADATA_SIZE \<and> keeps_accessible m m'" for fl func line f args
  proof (cases "trace X TRACE_LEVEL_INFORMATION < LevelPlus1 X")
    case True
    from emit_total [OF e n _ True, of None fl func line f args] show ?thesis
      unfolding internal_emit_self_described_event_def by auto
  next
    case False
    then show ?thesis
      by (simp add: internal_emit_self_described_event_def internal_emit_self_described_event_va_def)
  qed
  from this [of "Some (this_file X)" "Some ''log_sink_etw_init''" 603
      "''ETW provider was registered succesfully (self test). Executable file full path name = %s''"
      "[AStr (case GetModuleFileNameA X of None \<Rightarrow> ''UNKNOWN'' | Some path \<Rightarrow> path)]"]
  show ?thesis by (auto simp: log_sink_etw_init_def Let_def)
qed

lemma handle_items_unchanged:
  assumes "handle_items P m h ts xs" "unchanged m m' p n" "apart h p n"
  shows "handle_items P m' h ts xs"
proof (cases h)
  case None
  with assms(1) show ?thesis by (simp add: handle_items_def)
next
  case (Some C)
  have "\<forall>a\<in>{values_data C..<values_data C + values_data_length C}. m' a = m a"
    using assms(2,3) by (auto simp: Some apart_def unchanged_def)
  with assms(1) Some show ?thesis unfolding handle_items_def by (auto intro: stored_cong)
qed

text \<open>
  C20: The sink never fails: for every level, file, function, line, format and arguments and every
  context of fewer than 65536 entries that are laid out in its block as the init functions leave
  them, wide strings included, a log call returns, writes only to its array of 4096 bytes,
  and its effects are diagnostics, followed by at most one event with between 4 and 68 data
  descriptors; the array of descriptors is never overrun.
\<close>
theorem etw_log_total:
  assumes "etw_ready X h m" "handle_items P m h ts xs" "list_all readable xs"
    and "log_context_get_property_value_pair_count h < 65536"
  shows "\<exists>out m'. log_sink_etw_log X l h file func line fo args m = Some (out, m') \<and>
     unchanged m m' (metadata X) MAX_METADATA_SIZE \<and> keeps_accessible m m' \<and>
     (only_prints out \<or> (\<exists>pre e ds. out = pre @ [EventWrite e ds] \<and> only_prints pre \<and> 4 \<le> length ds \<and> length ds \<le> 68))"
  by (rule etw_log_returns [OF assms])


section \<open>Registration\<close>

text \<open>A run of the sink: the effects so far, the state and the memory.  The environment can differ from call to call.\<close>

inductive etw_run :: "etw_effect list \<Rightarrow> LOG_SINK_ETW_STATE \<Rightarrow> mem \<Rightarrow> bool" where
  start: "etw_run [] LOG_SINK_ETW_STATE_NOT_INITIALIZED m"
| init: "etw_run (tr @ out) s' m'" if "etw_run tr s m" "log_sink_etw_init X s m = Some (r, out, s', m')"
| deinit: "etw_run (tr @ out) s' m" if "etw_run tr s m" "log_sink_etw_deinit X s = (out, s')"
| log: "etw_run (tr @ out) s m'" if "etw_run tr s m" "log_sink_etw_log X l h file func line f args m = Some (out, m')"
| memory: "etw_run tr s m'" if "etw_run tr s m"

text \<open>
  How a provider may be used: registered only when it is not, unregistered only when it is.
  The argument says whether it is registered, \<^term>\<open>None\<close> is a misuse.
\<close>

fun provider_step :: "etw_effect \<Rightarrow> bool \<Rightarrow> bool option" where
  "provider_step (Register r) registered = (if registered then None else Some (0 \<le> r))"
| "provider_step Unregister registered = (if registered then Some False else None)"
| "provider_step (Print c) registered = Some registered"
| "provider_step (EventWrite e ds) registered = Some registered"

fun provider_run :: "etw_effect list \<Rightarrow> bool \<Rightarrow> bool option" where
  "provider_run [] registered = Some registered"
| "provider_run (e # es) registered = Option.bind (provider_step e registered) (provider_run es)"

lemma provider_run_append: "provider_run (xs @ ys) b = Option.bind (provider_run xs b) (provider_run ys)"
  by (induction xs arbitrary: b) (auto split: Option.bind_splits)

definition quiet :: "etw_effect list \<Rightarrow> bool" where
  "quiet out = list_all (\<lambda>e. case e of Register r \<Rightarrow> False | Unregister \<Rightarrow> False | _ \<Rightarrow> True) out"

lemma provider_run_quiet: "quiet out \<Longrightarrow> provider_run out b = Some b"
  by (induction out) (auto simp: quiet_def split: etw_effect.splits)

lemma metadata_loop_quiet:
  "metadata_loop X ps cnt file func line i pos m = Some (b, pos', out, m') \<Longrightarrow> quiet out"
proof (induction "cnt - i" arbitrary: i pos m)
  case 0
  then show ?case by (subst (asm) metadata_loop.simps) (simp add: quiet_def)
next
  case (Suc n)
  have i: "i < cnt" and n: "n = cnt - Suc i" using Suc.hyps(2) by auto
  note IH = Suc.hyps(1) [OF n]
  have q: "quiet [does_not_fit i cnt file func line]" "quiet [invalid_type X ty i cnt file func line]" for ty
    by (simp_all add: quiet_def does_not_fit_def invalid_type_def)
  from Suc.prems i show ?case
    by (subst (asm) metadata_loop.simps)
      (auto simp: q Let_def dest: IH split: if_splits option.splits Option.bind_splits)
qed

lemma emit_event_quiet: "emit_event X lvl n b pos ps cnt file func line f args m = Some (e, m') \<Longrightarrow> quiet [e]"
  by (auto simp: emit_event_def quiet_def emit_error_def write_event_def Let_def split: if_splits Option.bind_splits)

lemma emit_quiet:
  "internal_emit_self_described_event_va X ev n lvl qs cnt file func line f args m = Some (out, m') \<Longrightarrow> quiet out"
proof -
  have q: "quiet (xs @ ys) \<longleftrightarrow> quiet xs \<and> quiet ys" "quiet []" for xs ys by (simp_all add: quiet_def)
  assume "internal_emit_self_described_event_va X ev n lvl qs cnt file func line f args m = Some (out, m')"
  then show ?thesis
    by (auto simp: internal_emit_self_described_event_va_def q Let_def dest!: metadata_loop_quiet emit_event_quiet
        split: if_splits Option.bind_splits)
qed

lemma log_quiet: "log_sink_etw_log X l h file func line f args m = Some (out, m') \<Longrightarrow> quiet out"
  by (auto simp: log_sink_etw_log_def quiet_def [of "[Print _]"] dest: emit_quiet split: option.splits prod.splits)

text \<open>
  C19: The provider is used correctly: in every sequence of \<open>init\<close>, \<open>deinit\<close> and \<open>log\<close> calls,
  failing and repeated ones included, the provider is registered only when it is not
  registered and unregistered only when it is, and it is registered exactly while the sink
  is in the initialised state.
\<close>
theorem etw_provider_protocol:
  assumes "etw_run tr s m"
  shows "provider_run tr False = Some (s = LOG_SINK_ETW_STATE_INITIALIZED) \<and>
    (s = LOG_SINK_ETW_STATE_INITIALIZED \<or> s = LOG_SINK_ETW_STATE_NOT_INITIALIZED)"
  using assms
proof (induction rule: etw_run.induct)
  case (init tr s m X r out s' m')
  from init(2) init.IH show ?case
    by (auto simp: log_sink_etw_init_def internal_emit_self_described_event_def provider_run_append etw_called_in_def
        provider_run_quiet dest!: emit_quiet split: if_splits Option.bind_splits)
next
  case (deinit tr s m X out s')
  then show ?case
    by (auto simp: log_sink_etw_deinit_def provider_run_append etw_called_in_def split: if_splits)
next
  case (log tr s m X l h fl fn ln f args out m')
  then show ?case by (simp add: provider_run_append provider_run_quiet [OF log_quiet [OF log(2)]])
qed simp_all


section \<open>Witnesses\<close>

fun demo_tlg :: "TlgIn \<Rightarrow> nat" where
  "demo_tlg TlgInUNICODESTRING = 1"
| "demo_tlg TlgInANSISTRING = 2"
| "demo_tlg TlgInINT8 = 3"
| "demo_tlg TlgInUINT8 = 4"
| "demo_tlg TlgInINT16 = 5"
| "demo_tlg TlgInUINT16 = 6"
| "demo_tlg TlgInINT32 = 7"
| "demo_tlg TlgInUINT32 = 8"
| "demo_tlg TlgInINT64 = 9"
| "demo_tlg TlgInUINT64 = 10"
| "demo_tlg TlgInBOOL32 = 13"
| "demo_tlg TlgInSTRUCT = 24"
| "demo_tlg TlgInChain = 128"

fun demo_trace_level :: "TRACE_LEVEL \<Rightarrow> nat" where
  "demo_trace_level TRACE_LEVEL_NONE = 0"
| "demo_trace_level TRACE_LEVEL_CRITICAL = 1"
| "demo_trace_level TRACE_LEVEL_ERROR = 2"
| "demo_trace_level TRACE_LEVEL_WARNING = 3"
| "demo_trace_level TRACE_LEVEL_INFORMATION = 4"
| "demo_trace_level TRACE_LEVEL_VERBOSE = 5"

definition demo_etw :: etw_env where
  "demo_etw = \<lparr>elib = std_env, tlg = demo_tlg, trace = demo_trace_level, TlgBlobEvent4 = 4, LevelPlus1 = 6, metadata = 6000,
     TraceLoggingRegister = 0, GetModuleFileNameA = None, this_file = ''log_sink_etw.c'', etw_state_value = (\<lambda>k. k),
     etw_context_address = (\<lambda>h. 0)\<rparr>"

definition demo_value :: "char list" where
  "demo_value = encode_basic int32_t (- 5)"

definition demo_context :: LOG_CONTEXT where
  "demo_context = \<lparr>values_data = 1000, values_data_length = 5, property_value_pairs_ptr =
     [Some \<lparr>name = ''ctx'', value_ptr = 1000, type_if = struct_log_context_property_type std_env\<rparr>,
      Some \<lparr>name = ''a'', value_ptr = 1001, type_if = basic_log_context_property_type std_env int32_t\<rparr>],
     property_value_pair_count = 2\<rparr>"

definition demo_memory :: mem where
  "demo_memory = put_bytes demo_stack 1000 (char_of (1::nat) # demo_value)"

definition demo_items :: "item list" where
  "demo_items = [(''ctx'', struct_log_context_property_type std_env, [char_of (1::nat)]),
     (''a'', basic_log_context_property_type std_env int32_t, demo_value)]"

lemma demo_types:
  "get_type (struct_log_context_property_type std_env) = LOG_CONTEXT_PROPERTY_TYPE_struct"
  "get_type (basic_log_context_property_type std_env int32_t) = LOG_CONTEXT_PROPERTY_TYPE_int32_t" "length demo_value = 4"
  by (simp_all add: struct_log_context_property_type_def struct_log_context_property_type_get_type_def
      basic_log_context_property_type_def basic_log_context_property_type_get_type_def demo_value_def)

lemma demo_handle:
  "handle_items (\<lambda>T bs s. True) demo_memory (Some demo_context) [Struct ''ctx'' [Field ''a'' ''-5'']] demo_items"
proof -
  have b: "bytes_at demo_memory 1000 (char_of (1::nat) # demo_value)" unfolding demo_memory_def by (rule bytes_at_put_same)
  have "shape (\<lambda>T bs s. True) [Field ''a'' ''-5''] [(''a'', basic_log_context_property_type std_env int32_t, demo_value)]"
    unfolding demo_value_def
    by (rule shape.field) (auto simp: demo_types INT_MAX_def shape.empty in_basic_def intro!: field_copies)
  from shape.struct [OF demo_types(1) _ _ _ this shape.empty, of "''ctx''"] copies_struct [of std_env "Suc 0"]
  have "shape (\<lambda>T bs s. True) [Struct ''ctx'' [Field ''a'' ''-5'']] demo_items"
    by (simp add: demo_items_def INT_MAX_def)
  with b show ?thesis
    by (simp add: handle_items_def demo_context_def demo_items_def stored1_def demo_types)
qed

lemma demo_etw_ready:
  "etw_ready demo_etw (Some demo_context) demo_memory" "tlg_values demo_etw"
  "documented_kind LOG_LEVEL_INFO = (event_name_info, TRACE_LEVEL_INFORMATION)"
  "trace demo_etw TRACE_LEVEL_INFORMATION < LevelPlus1 demo_etw" "list_all etw_item demo_items"
  "log_context_get_property_value_pair_count (Some demo_context) = 2"
proof -
  have "accessible demo_memory 6000 4096" unfolding demo_memory_def
    by (rule accessible_put, rule demo_stack_accessible) simp_all
  then show "etw_ready demo_etw (Some demo_context) demo_memory"
    by (simp add: etw_ready_def demo_etw_def MAX_METADATA_SIZE_def apart_def demo_context_def)
  have "demo_tlg t < 32" if "t \<noteq> TlgInChain" for t using that by (cases t) auto
  then show "tlg_values demo_etw" by (simp add: tlg_values_def demo_etw_def)
  show "documented_kind LOG_LEVEL_INFO = (event_name_info, TRACE_LEVEL_INFORMATION)"
    by (simp add: documented_kind_eq etw_event_kind_def LOG_LEVEL_INFO_def LOG_LEVEL_CRITICAL_def LOG_LEVEL_ERROR_def LOG_LEVEL_WARNING_def)
  show "trace demo_etw TRACE_LEVEL_INFORMATION < LevelPlus1 demo_etw" by (simp add: demo_etw_def)
  show "list_all etw_item demo_items"
    by (simp add: demo_items_def etw_item_def known_item_def readable_def demo_types)
  show "log_context_get_property_value_pair_count (Some demo_context) = 2"
    by (simp add: log_context_get_property_value_pair_count_def demo_context_def)
qed

theorem etw_event_carries_context_witness:
  "\<exists>e p d m'. log_sink_etw_log demo_etw LOG_LEVEL_INFO (Some demo_context) (Some ''f.c'') (Some ''main'') 42 (Some ''n=%d'')
       [AInt 7] demo_memory = Some ([EventWrite e (fixed_data p (Some ''f.c'') (Some ''main'') 42 @ [d])], m') \<and>
     event_fields m' e = Some (''LogInfo'', fixed_fields demo_etw @ [Group ''ctx'' [Scalar ''a'' 7]]) \<and>
     c_str m' p = Some ''n=7'' \<and> (\<exists>q. d = EventDataDescCreate q 4 \<and> bytes_at m' q demo_value)"
proof -
  have f: "fmt (elib demo_etw) ''n=%d'' [AInt 7] = Some ''n=7''" by code_simp
  have fs: "regroup (map (item_flat demo_etw) demo_items) = [Group ''ctx'' [Scalar ''a'' 7]]"
    by (simp add: demo_items_def item_flat_simps demo_types) (simp add: demo_etw_def)
  have len: "length (fixed_bytes demo_etw event_name_info @ items_metadata demo_etw demo_items) + length ''n=7'' < MAX_METADATA_SIZE"
    by (simp add: length_fixed_bytes event_name_info_def items_metadata_def item_metadata_def demo_items_def demo_types
        MAX_METADATA_SIZE_def)
  have lv: "leaves demo_items = [(''a'', basic_log_context_property_type std_env int32_t, demo_value)]"
    by (simp add: leaves_def demo_items_def demo_types)
  show ?thesis
    using etw_event_carries_context [OF demo_etw_ready(1-4) demo_handle demo_etw_ready(5) _ f _ len,
        of "Some ''f.c''" "Some ''main''" 42]
    unfolding fs lv by (simp add: demo_etw_ready(6)) (auto simp: list_all2_Cons1 describes_def demo_types event_name_info_def)
qed

theorem etw_event_drops_properties_witness:
  "\<exists>out e m'. log_sink_etw_log demo_etw LOG_LEVEL_INFO (Some demo_context) (Some ''f.c'') (Some ''main'') 42 (Some ''%s'')
       [AStr (replicate 5000 (CHR ''x''))] demo_memory = Some (out @ [e], m') \<and> only_prints out \<and>
     plain_event demo_etw 4 ''LogInfo'' (Some ''f.c'') (Some ''main'') 42 (replicate 5000 (CHR ''x'')) (e, m')"
proof -
  have f: "fmt (elib demo_etw) ''%s'' [AStr s] = Some s" for s by (simp add: demo_etw_def std_env_def)
  have r: "list_all readable demo_items"
    using demo_etw_ready(5) by (auto simp: list_all_iff etw_item_def known_item_def)
  show ?thesis
    using etw_event_drops_properties [OF demo_etw_ready(1,3,4) demo_handle r _ f [of "replicate 5000 (CHR ''x'')"],
        of "Some ''f.c''" "Some ''main''" 42]
    by (simp add: demo_etw_ready(6) INT_MAX_def MAX_METADATA_SIZE_def event_name_info_def) (auto simp: demo_etw_def)
qed

theorem etw_log_total_witness:
  "\<exists>out m'. log_sink_etw_log demo_etw (LOG_LEVEL 99) (Some demo_context) None None (- 1) (Some ''%n'') [] demo_memory = Some (out, m') \<and>
     unchanged demo_memory m' (metadata demo_etw) MAX_METADATA_SIZE"
proof -
  have "list_all readable demo_items"
    using demo_etw_ready(5) by (auto simp: list_all_iff etw_item_def known_item_def)
  then show ?thesis using etw_log_total [OF demo_etw_ready(1) demo_handle] by (simp add: demo_etw_ready(6)) blast
qed

theorem etw_provider_protocol_witness:
  "provider_run [Register (- 5), Print (Printf (''ETW provider was NOT registered (register_result=0x%08x).'' @ CRLF) [AInt 4294967291])]
     False = Some False"
proof -
  let ?X = "demo_etw\<lparr>TraceLoggingRegister := - 5\<rparr>"
  let ?out = "[Register (- 5), Print (Printf (''ETW provider was NOT registered (register_result=0x%08x).'' @ CRLF) [AInt 4294967291])]"
  have "log_sink_etw_init ?X LOG_SINK_ETW_STATE_NOT_INITIALIZED demo_stack =
      Some (MU_FAILURE std_env, ?out, LOG_SINK_ETW_STATE_NOT_INITIALIZED, demo_stack)"
    by (simp add: log_sink_etw_init_def demo_etw_def to_uint32_def)
  from etw_provider_protocol [OF etw_run.init [OF etw_run.start this]] show ?thesis by simp
qed

end
