(* ===== verification/Get_Thread_Stack.thy ===== *)
theory Get_Thread_Stack
  imports Log_Sink "HOL-Library.Multiset"
begin

text \<open>
  \<open>get_thread_stack.c\<close> and \<open>logging_stacktrace.c\<close>: the thread stack module, on Windows with
  its symbol handler, its search path and its walk over the frames, and on Linux.  The
  Windows functions are parameters, a handle is an address.  What the module does to the
  outside is a list of effects.  The walk runs on fuel, since the unwinder may never reach
  the bottom of a stack: that enough fuel for the frames there are gives the result is
  proved.
\<close>

unbundle bit_operations_syntax

section \<open>Printing with a fallback\<close>

definition snprintfFailed :: string where
  "snprintfFailed = CHR 0x0A # ''snprintf failed''"

text \<open>The destination, its size and the memory; the fallback string is given with its size, terminator included.\<close>

definition snprintf_fallback_impl ::
    "c_env \<Rightarrow> addr \<times> nat \<Rightarrow> string \<Rightarrow> nat \<Rightarrow> string \<Rightarrow> carg list \<Rightarrow> mem \<Rightarrow> ((addr \<times> nat) \<times> mem) option" where
  "snprintf_fallback_impl E d fallback_string fallbackstring_size f args m =
     (case d of (destination, destination_size) \<Rightarrow> do {
        (snprintfResult, m1) \<leftarrow> vsnprintf E destination destination_size f args m;
        if \<not> (0 \<le> snprintfResult \<and> snprintfResult < to_int (int destination_size)) then do {
          let size_to_copy = (if destination_size < fallbackstring_size then destination_size else fallbackstring_size - 1);
          m2 \<leftarrow> store_bytes m1 destination (take size_to_copy (fallback_string @ [NUL]));
          Some ((destination + size_to_copy, destination_size - size_to_copy), m2) }
        else Some ((nat (int destination + snprintfResult), to_size_t (int destination_size - snprintfResult)), m1) })"

section \<open>The symbol handler\<close>

datatype SYM_INIT = SYM_INIT_INITIALIZED | SYM_INIT_NOT_INITIALIZED

record thread_stack =
  symbolsState :: SYM_INIT
  processHandle :: addr
  addressMask :: "64 word"

definition thread_stack_initial :: thread_stack where
  "thread_stack_initial = \<lparr>symbolsState = SYM_INIT_NOT_INITIALIZED, processHandle = NULL, addressMask = - 1\<rparr>"

datatype stack_effect =
    Stack_print stdout_call
  | Duplicate_handle "addr option" \<comment> \<open>the handle, when it succeeds\<close>
  | Close_handle addr
  | Sym_initialize addr "string option" bool
  | Sym_cleanup addr
  | Sym_refresh addr
  | Sym_from_addr addr "64 word"
  | Sym_get_line addr "64 word"
  | Snapshot addr
  | Open_thread addr
  | Acquire_lock
  | Release_lock
  | Suspend_thread addr bool
  | Resume_thread addr bool

text \<open>What the Windows functions return; \<open>M_ARM64\<close> says for which processor the code is built.\<close>

record context_registers =
  reg_ip :: "64 word"
  reg_sp :: "64 word"
  reg_lr :: "64 word"

record stack_env =
  slib :: c_env
  sym_init_value :: "SYM_INIT \<Rightarrow> int"
  M_ARM64 :: bool
  GetCurrentProcess :: addr
  addressof_processHandle :: addr \<comment> \<open>\<open>&g.processHandle\<close>, only printed\<close>
  GetLastError :: nat
  DuplicateHandle :: "addr option"
  GetModuleFileName :: "nat \<times> string"
  SymInitialize :: "addr \<Rightarrow> string option \<Rightarrow> bool"
  SymCleanup :: "addr \<Rightarrow> bool"
  CloseHandle :: "addr \<Rightarrow> bool"
  lpMaximumApplicationAddress :: "64 word"
  CreateToolhelp32Snapshot :: "addr option"
  SymRefreshModuleList :: "addr \<Rightarrow> bool"
  module_paths :: "string list" \<comment> \<open>\<open>szExePath\<close> of the modules \<open>Module32First\<close> and \<open>Module32Next\<close> give\<close>
  searchPath :: addr \<comment> \<open>of the array on the stack\<close>
  GetCurrentThreadId :: nat
  OpenThread :: "nat \<Rightarrow> addr option"
  SuspendThread :: "addr \<Rightarrow> bool"
  ResumeThread :: "addr \<Rightarrow> bool"
  RtlCaptureContext :: context_registers
  GetThreadContext :: "addr \<Rightarrow> context_registers option"
  SymFromAddr :: "64 word \<Rightarrow> string option"
  SymGetLineFromAddr64 :: "64 word \<Rightarrow> (string \<times> nat) option"
  RtlLookupFunctionEntry :: "64 word \<Rightarrow> bool"
  RtlVirtualUnwind :: "64 word \<Rightarrow> context_registers \<Rightarrow> context_registers"
  ReadProcessMemory :: "64 word \<Rightarrow> 64 word option"

definition MAX_PATH :: nat where
  "MAX_PATH = 260"

text \<open>\<open>strrchr\<close>: the position of the last backslash.\<close>

definition BACKSLASH :: char where
  "BACKSLASH = CHR 0x5C"

definition last_backslash :: "string \<Rightarrow> nat option" where
  "last_backslash s =
     (if BACKSLASH \<in> set s then Some (length s - 1 - length (takeWhile (\<lambda>c. c \<noteq> BACKSLASH) (rev s))) else None)"

definition strip_pac :: "stack_env \<Rightarrow> thread_stack \<Rightarrow> 64 word \<Rightarrow> 64 word" where
  "strip_pac W g address = (if M_ARM64 W then address AND addressMask g else address)"

text \<open>The address mask: the statements of the block in order.\<close>

definition fill_mask :: "64 word \<Rightarrow> 64 word" where
  "fill_mask maxAddr =
     (let a0 = maxAddr;
          a1 = a0 OR drop_bit 1 a0;
          a2 = a1 OR drop_bit 2 a1;
          a3 = a2 OR drop_bit 4 a2;
          a4 = a3 OR drop_bit 8 a3;
          a5 = a4 OR drop_bit 16 a4
      in a5 OR drop_bit 32 a5)"

definition close_handle :: "stack_env \<Rightarrow> addr \<Rightarrow> stack_effect list" where
  "close_handle W h =
     Close_handle h # (if CloseHandle W h then []
       else [Stack_print (Printf ''failure (GetLastError()=0x%x) in CloseHandle(g.processHandle=%p)''
               [AInt (int (GetLastError W)), APtr h])])"

definition get_thread_stack_init :: "stack_env \<Rightarrow> thread_stack \<Rightarrow> int \<times> stack_effect list \<times> thread_stack" where
  "get_thread_stack_init W g =
     (if symbolsState g = SYM_INIT_NOT_INITIALIZED then
        let hCurrentProcess = GetCurrentProcess W in
        (case DuplicateHandle W of
           None \<Rightarrow>
             (MU_FAILURE (slib W),
              [Duplicate_handle None,
               Stack_print (Printf (''failure (GetLastError()=0x%x) in DuplicateHandle(hCurrentProcess=%p, hCurrentProcess=%p, hCurrentProcess=%p, '' @
                   ''&g.processHandle=%p, 0, FALSE, DUPLICATE_SAME_ACCESS), will use hCurrentProcess=%p'')
                 [AInt (int (GetLastError W)), APtr hCurrentProcess, APtr hCurrentProcess, APtr hCurrentProcess,
                  APtr (addressof_processHandle W), APtr hCurrentProcess])], g)
         | Some h \<Rightarrow>
             let (pathLen, exePath) = GetModuleFileName W;
                 userSearchPath =
                   (if pathLen \<noteq> 0 \<and> pathLen < MAX_PATH then map_option (\<lambda>i. take i exePath) (last_backslash exePath) else None);
                 ok = SymInitialize W h userSearchPath;
                 out = [Duplicate_handle (Some h), Sym_initialize h userSearchPath ok]
             in if \<not> ok then
                  (MU_FAILURE (slib W),
                   out @ [Stack_print (Printf ''failure (GetLastError()=0x%x) in SymInitialize(g.processHandle=%p, userSearchPath=%s, TRUE)''
                           [AInt (int (GetLastError W)), APtr h, AStr (MU_P_OR_NULL (slib W) userSearchPath)])] @ close_handle W h,
                   g\<lparr>processHandle := NULL\<rparr>)
                else
                  (0, out, g\<lparr>processHandle := h, symbolsState := SYM_INIT_INITIALIZED,
                       addressMask := (if M_ARM64 W then fill_mask (lpMaximumApplicationAddress W) else addressMask g)\<rparr>))
      else (0, [], g))"

definition get_thread_stack_deinit :: "stack_env \<Rightarrow> thread_stack \<Rightarrow> stack_effect list \<times> thread_stack" where
  "get_thread_stack_deinit W g =
     (if symbolsState g = SYM_INIT_INITIALIZED then
        (Sym_cleanup (processHandle g) #
           (if SymCleanup W (processHandle g) then []
            else [Stack_print (Printf ''failure (GetLastError()=0x%x) in SymCleanup(g.processHandle=%p)''
                    [AInt (int (GetLastError W)), APtr (processHandle g)])]) @
           close_handle W (processHandle g),
         g\<lparr>processHandle := NULL, symbolsState := SYM_INIT_NOT_INITIALIZED\<rparr>)
      else ([], g))"


section \<open>The search path\<close>

definition sizeof_searchPath :: nat where
  "sizeof_searchPath = 32768"

text \<open>\<open>strstr\<close>: whether a string occurs in another.\<close>

fun occurs :: "string \<Rightarrow> string \<Rightarrow> bool" where
  "occurs needle [] = (needle = [])"
| "occurs needle (c # s) = (take (length needle) (c # s) = needle \<or> occurs needle s)"

text \<open>One module: the length of the path and the memory with the array.\<close>

definition add_directory :: "stack_env \<Rightarrow> string \<Rightarrow> nat \<times> mem \<Rightarrow> (nat \<times> mem) option" where
  "add_directory W path r =
     (case r of (searchPathLen, m) \<Rightarrow>
        (case last_backslash path of
           None \<Rightarrow> Some (searchPathLen, m)
         | Some dirLen \<Rightarrow>
             if MAX_PATH \<le> dirLen then Some (searchPathLen, m)
             else do {
               let dir = take dirLen path;
               s \<leftarrow> c_str m (searchPath W);
               if occurs dir s then Some (searchPathLen, m)
               else do {
                 (len1, m1) \<leftarrow>
                   (if 0 < searchPathLen \<and> searchPathLen + 1 < sizeof_searchPath
                    then map_option (\<lambda>m1. (searchPathLen + 1, m1)) (store_bytes m (searchPath W + searchPathLen) '';'')
                    else Some (searchPathLen, m));
                 if len1 + dirLen < sizeof_searchPath then do {
                   m2 \<leftarrow> store_bytes m1 (searchPath W + len1) dir;
                   m3 \<leftarrow> store_bytes m2 (searchPath W + (len1 + dirLen)) [NUL];
                   Some (len1 + dirLen, m3) }
                 else Some (len1, m1) } }))"

fun search_path_loop :: "stack_env \<Rightarrow> string list \<Rightarrow> nat \<times> mem \<Rightarrow> (nat \<times> mem) option" where
  "search_path_loop W [] r = Some r"
| "search_path_loop W (p # ps) r = Option.bind (add_directory W p r) (search_path_loop W ps)"

definition get_thread_stack_refresh_module_list ::
    "stack_env \<Rightarrow> thread_stack \<Rightarrow> mem \<Rightarrow> (stack_effect list \<times> mem) option" where
  "get_thread_stack_refresh_module_list W g m =
     (if symbolsState g \<noteq> SYM_INIT_INITIALIZED then Some ([], m)
      else
        (case CreateToolhelp32Snapshot W of
           None \<Rightarrow>
             Some ([Acquire_lock, Sym_refresh (processHandle g)] @
               (if SymRefreshModuleList W (processHandle g) then []
                else [Stack_print (Printf (''failure (GetLastError()=0x%x) in SymRefreshModuleList(g.processHandle=%p)'' @ [CHR 0x0A])
                        [AInt (int (GetLastError W)), APtr (processHandle g)])]) @
               [Release_lock], m)
         | Some hModuleSnap \<Rightarrow> do {
             m1 \<leftarrow> store_bytes m (searchPath W) [NUL];
             (searchPathLen, m2) \<leftarrow> search_path_loop W (module_paths W) (0, m1);
             if searchPathLen = 0 then Some ([Acquire_lock, Snapshot hModuleSnap, Close_handle hModuleSnap, Release_lock], m2)
             else do {
               s \<leftarrow> c_str m2 (searchPath W);
               let ok = SymInitialize W (processHandle g) (Some s);
               Some ([Acquire_lock, Snapshot hModuleSnap, Close_handle hModuleSnap, Sym_cleanup (processHandle g),
                      Sym_initialize (processHandle g) (Some s) ok] @
                 (if ok then []
                  else [Stack_print (Printf (''failure (GetLastError()=0x%x) in SymInitialize during refresh(g.processHandle=%p, searchPath=%s, TRUE)'' @ [CHR 0x0A])
                          [AInt (int (GetLastError W)), APtr (processHandle g), AStr s])]) @
                 [Release_lock], m2) } }))"

section \<open>The walk over the frames\<close>

definition fallback ::
    "stack_env \<Rightarrow> string \<Rightarrow> carg list \<Rightarrow> (addr \<times> nat) \<times> mem \<Rightarrow> ((addr \<times> nat) \<times> mem) option" where
  "fallback W f args r = snprintf_fallback_impl (slib W) (fst r) snprintfFailed (length snprintfFailed + 1) f args (snd r)"

text \<open>The separator before a line; \<open>firstLine\<close> is false after it.\<close>

definition separator :: "bool \<Rightarrow> string" where
  "separator firstLine = (if firstLine then [] else [CHR 0x0A])"

definition print_frame ::
    "stack_env \<Rightarrow> 64 word \<Rightarrow> bool \<Rightarrow> (addr \<times> nat) \<times> mem \<Rightarrow> ((addr \<times> nat) \<times> mem) option" where
  "print_frame W currentPc firstLine r =
     (let function_name = (case SymFromAddr W currentPc of None \<Rightarrow> ''failure in SymFromAddr'' | Some n \<Rightarrow> n);
          (file_name, line_number) =
            (case SymGetLineFromAddr64 W currentPc of None \<Rightarrow> (''failure in SymGetLineFromAddr64'', 0) | Some x \<Rightarrow> x)
      in fallback W ''%s!%s %s:%u''
           [AStr (separator firstLine), AStr function_name, AStr file_name, AInt (int line_number)] r)"

text \<open>One step of the unwinder: the caller's instruction pointer and registers.\<close>

definition unwind :: "stack_env \<Rightarrow> thread_stack \<Rightarrow> 64 word \<Rightarrow> context_registers \<Rightarrow> 64 word \<times> context_registers" where
  "unwind W g currentPc c =
     (if \<not> RtlLookupFunctionEntry W currentPc then
        if M_ARM64 W then (strip_pac W g (reg_lr c), c\<lparr>reg_lr := 0\<rparr>)
        else (case ReadProcessMemory W (reg_sp c) of
                None \<Rightarrow> (0, c)
              | Some pc \<Rightarrow> (pc, c\<lparr>reg_sp := reg_sp c + 8\<rparr>))
      else let c' = RtlVirtualUnwind W currentPc c in (strip_pac W g (reg_ip c'), c'))"

text \<open>The calls to the symbol handler for one frame.\<close>

definition frame_queries :: "thread_stack \<Rightarrow> 64 word \<Rightarrow> stack_effect list" where
  "frame_queries g pc = [Sym_from_addr (processHandle g) pc, Sym_get_line (processHandle g) pc]"

fun walk :: "stack_env \<Rightarrow> thread_stack \<Rightarrow> nat \<Rightarrow> 64 word \<Rightarrow> context_registers \<Rightarrow> bool \<Rightarrow> bool \<Rightarrow> (addr \<times> nat) \<times> mem \<Rightarrow>
    (stack_effect list \<times> (addr \<times> nat) \<times> mem) option" where
  "walk W g 0 currentPc c skipFirstFrame firstLine r = (if currentPc = 0 then Some ([], r) else None)"
| "walk W g (Suc fuel) currentPc c skipFirstFrame firstLine r =
     (if currentPc \<noteq> 0 then do {
        r1 \<leftarrow> (if skipFirstFrame then Some r else print_frame W currentPc firstLine r);
        let (pc', c') = unwind W g currentPc c;
        (out, r2) \<leftarrow> walk W g fuel pc' c' False (if skipFirstFrame then firstLine else False) r1;
        Some ((if skipFirstFrame then [] else frame_queries g currentPc) @ out, r2) }
      else Some ([], r))"

text \<open>
  The context of the thread, with the effects of acquiring it: suspending another thread.
  The flags are \<open>wasThreadSuspended\<close> and \<open>firstLine\<close>.
\<close>

definition acquire_context ::
    "stack_env \<Rightarrow> nat \<Rightarrow> addr \<Rightarrow> (addr \<times> nat) \<times> mem \<Rightarrow>
     (context_registers option \<times> bool \<times> bool \<times> stack_effect list \<times> (addr \<times> nat) \<times> mem) option" where
  "acquire_context W threadId hThread r =
     (if GetCurrentThreadId W = threadId then Some (Some (RtlCaptureContext W), False, True, [], r)
      else if \<not> SuspendThread W hThread then do {
        r1 \<leftarrow> fallback W ''%sfailure (GetLastError=%u) in SuspendThread'' [AStr (separator True), AInt (int (GetLastError W))] r;
        Some (None, False, False, [Suspend_thread hThread False], r1) }
      else (case GetThreadContext W hThread of
              None \<Rightarrow> do {
                r1 \<leftarrow> fallback W ''%sfailure (GetLastError=%u) in GetThreadContext'' [AStr (separator True), AInt (int (GetLastError W))] r;
                Some (None, True, False, [Suspend_thread hThread True], r1) }
            | Some c \<Rightarrow> Some (Some c, True, True, [Suspend_thread hThread True], r)))"

text \<open>
  The address of \<open>destination[destinationSize - 1]\<close>.  The size is zero after a fallback text
  that fills the rest of the buffer exactly; the index then wraps around and the address is the one before
  the destination, the last of the buffer, as with flat 64-bit addresses, where C leaves
  such a pointer undefined.
\<close>

definition last_byte :: "addr \<times> nat \<Rightarrow> addr" where
  "last_byte d = (fst d + to_size_t (int (snd d) - 1)) mod 18446744073709551616"

text \<open>
  The walk under the lock, when there is a context, and the end of an inspection: the thread is
  resumed and its handle closed, and the destination terminated.  Here \<open>Acquire_lock\<close> is
  an effect like the others, the call goes on with the lock; that it may never get it is the
  subject of the theory on the lock, \<open>Symbol_Lock\<close>.
\<close>

definition locked_walk ::
    "stack_env \<Rightarrow> thread_stack \<Rightarrow> nat \<Rightarrow> bool \<Rightarrow> context_registers option \<Rightarrow> bool \<Rightarrow> (addr \<times> nat) \<times> mem \<Rightarrow>
     (stack_effect list \<times> (addr \<times> nat) \<times> mem) option" where
  "locked_walk W g fuel own ctx firstLine r =
     (case ctx of
        None \<Rightarrow> Some ([], r)
      | Some c \<Rightarrow> do {
          (queries, r2) \<leftarrow> walk W g fuel (reg_ip c) c own firstLine r;
          Some ([Acquire_lock] @ queries @ [Release_lock], r2) })"

definition end_inspection ::
    "stack_env \<Rightarrow> addr \<Rightarrow> bool \<Rightarrow> (addr \<times> nat) \<times> mem \<Rightarrow> (stack_effect list \<times> mem) option" where
  "end_inspection W hThread wasThreadSuspended r =
     (let resumed = ResumeThread W hThread;
          out = (if wasThreadSuspended then [Resume_thread hThread resumed] else []) in
      if wasThreadSuspended \<and> \<not> resumed then
        Some (out @ [Stack_print (Printf ''failure (%u) in ResumeThread(hThread=%p)''
                 [AInt (int (GetLastError W)), APtr hThread])], snd r)
      else do {
        m3 \<leftarrow> store_bytes (snd r) (last_byte (fst r)) [NUL];
        Some (out @ [Close_handle hThread] @
          (if CloseHandle W hThread then []
           else [Stack_print (Printf ''failure (%u) in CloseHandle(hThread=%p)''
                   [AInt (int (GetLastError W)), APtr hThread])]), m3) })"

definition get_thread_stack ::
    "stack_env \<Rightarrow> thread_stack \<Rightarrow> nat \<Rightarrow> nat \<Rightarrow> addr \<Rightarrow> nat \<Rightarrow> mem \<Rightarrow> (stack_effect list \<times> mem) option" where
  "get_thread_stack W g fuel threadId destination destinationSize m =
     (if destination = NULL \<or> destinationSize = 0 then
        Some ([Stack_print (Printf (''invalid parameter: DWORD threadId=%u, destination=%p, destinationSize=%zu'' @ [CHR 0x0A])
                 [AInt (int threadId), APtr destination, AInt (int destinationSize)])], m)
      else if symbolsState g \<noteq> SYM_INIT_INITIALIZED then do {
        (d, m1) \<leftarrow> fallback W (''failure: get_thread_stack is not initialized, g.doSymInit=%'' @ PRI_MU_ENUM (slib W))
           (MU_ENUM_VALUE (slib W) ''SYM_INIT'' (sym_init_value W (symbolsState g))) ((destination, destinationSize), m);
        Some ([], m1) }
      else do {
        m1 \<leftarrow> store_bytes m destination [NUL];
        (case OpenThread W threadId of
           None \<Rightarrow> do {
             m2 \<leftarrow> store_bytes m1 (last_byte (destination, destinationSize)) [NUL];
             Some ([Stack_print (Printf ''failure (%u) in OpenThread(THREAD_GET_CONTEXT, FALSE, threadId=%x);''
                      [AInt (int (GetLastError W)), AInt (int threadId)])], m2) }
         | Some hThread \<Rightarrow> do {
             (ctx, wasThreadSuspended, firstLine, out, r1) \<leftarrow> acquire_context W threadId hThread ((destination, destinationSize), m1);
             (locked, r2) \<leftarrow> locked_walk W g fuel (GetCurrentThreadId W = threadId) ctx firstLine r1;
             (last, m3) \<leftarrow> end_inspection W hThread wasThreadSuspended r2;
             Some ([Open_thread hThread] @ out @ locked @ last, m3) }) })"

section \<open>Linux\<close>

definition get_thread_stack_init_linux :: int where
  "get_thread_stack_init_linux = 0"

definition get_thread_stack_linux :: "c_env \<Rightarrow> addr \<Rightarrow> nat \<Rightarrow> mem \<Rightarrow> (stdout_call list \<times> mem) option" where
  "get_thread_stack_linux E destination destinationSize m =
     (if destination = NULL \<or> destinationSize = 0 then
        Some ([Printf (''invalid parameter: destination=%p, destinationSize=%zu'' @ [CHR 0x0A])
                 [APtr destination, AInt (int destinationSize)]], m)
      else do {
        (d, m1) \<leftarrow> snprintf_fallback_impl E (destination, destinationSize) snprintfFailed (length snprintfFailed + 1)
           ''currently running platform not supported.'' [] m;
        Some ([], m1) })"

definition get_thread_stack_refresh_module_list_linux :: "mem \<Rightarrow> mem" where
  "get_thread_stack_refresh_module_list_linux m = m"

definition get_thread_stack_deinit_linux :: "mem \<Rightarrow> mem" where
  "get_thread_stack_deinit_linux m = m"

section \<open>The stack as a string\<close>

definition STACK_MAX_CHARACTERS :: nat where
  "STACK_MAX_CHARACTERS = 2048"

definition getStackAsString_win32 ::
    "stack_env \<Rightarrow> thread_stack \<Rightarrow> nat \<Rightarrow> addr \<Rightarrow> nat \<Rightarrow> mem \<Rightarrow> (stack_effect list \<times> mem) option" where
  "getStackAsString_win32 W g fuel destination destinationSize m =
     (if destination = NULL \<or> destinationSize = 0 then Some ([], m)
      else get_thread_stack W g fuel (GetCurrentThreadId W) destination destinationSize m)"

definition getStackAsString_linux :: "addr \<Rightarrow> nat \<Rightarrow> mem \<Rightarrow> mem option" where
  "getStackAsString_linux destination destinationSize m =
     (if destination = NULL \<or> destinationSize = 0 then Some m
      else if 0 < destinationSize then store_bytes m destination [NUL] else Some m)"


section \<open>The buffer\<close>

lemma to_int_le: "to_int (int n) \<le> int n"
proof (cases "int n \<le> INT_MAX")
  case True
  then show ?thesis by (simp add: to_int_id INT_MAX_def)
next
  case False
  then show ?thesis using to_int_range [of "int n"] by linarith
qed

text \<open>
  \<open>within d n m r\<close>: the destination has moved inside the \<open>n\<close> bytes at \<open>d\<close>, the size is what is
  left of them, and only they have changed since the memory \<open>m\<close>.
\<close>

definition within :: "addr \<Rightarrow> nat \<Rightarrow> mem \<Rightarrow> (addr \<times> nat) \<times> mem \<Rightarrow> bool" where
  "within d n m r \<longleftrightarrow> (\<exists>k m'. r = ((d + k, n - k), m') \<and> k \<le> n \<and> accessible m' d n \<and> unchanged m m' d n \<and> keeps_accessible m m')"

lemma fallback_within:
  assumes "within d n m r" "n < 18446744073709551616"
  shows "\<exists>r'. fallback W f args r = Some r' \<and> within d n m r'"
proof -
  obtain k m1 where r: "r = ((d + k, n - k), m1)" and k: "k \<le> n" and a: "accessible m1 d n"
    and u: "unchanged m m1 d n" "keeps_accessible m m1"
    using assms(1) by (auto simp: within_def)
  have ak: "accessible m1 (d + k) (n - k)" by (rule accessible_sub [OF a]) (use k in auto)
  obtain s m2 where v: "vsnprintf (slib W) (d + k) (n - k) f args m1 = Some (s, m2)" "unchanged m1 m2 (d + k) (n - k)"
    "\<forall>q l. accessible m1 q l \<longrightarrow> accessible m2 q l"
    using vsnprintf_total [OF ak] by blast
  have u2: "unchanged m m2 d n"
    by (rule unchanged_trans [OF u(1) unchanged_sub [OF v(2)]]) (use k in auto)
  have "m2 q \<noteq> None" if "m1 q \<noteq> None" for q using that v(3) [rule_format, of q 1] by (auto simp: accessible_iff)
  with u(2) have k2: "keeps_accessible m m2" by (simp add: keeps_accessible_def)
  have a2: "accessible m2 d n" using v(3) a by blast
  show ?thesis
  proof (cases "0 \<le> s \<and> s < to_int (int (n - k))")
    case True
    then have "s < int (n - k)" using to_int_le [of "n - k"] by linarith
    then have "nat (int (d + k) + s) = d + (k + nat s)" "to_size_t (int (n - k) - s) = n - (k + nat s)" "k + nat s \<le> n"
      using True assms(2) by (auto simp: to_size_t_id nat_diff_distrib)
    with True r v(1) u2 k2 a2 show ?thesis
      by (auto simp: fallback_def snprintf_fallback_impl_def within_def intro!: exI [of _ "k + nat s"])
  next
    case False
    define c where "c = (if n - k < length snprintfFailed + 1 then n - k else length snprintfFailed + 1 - 1)"
    let ?b = "take c (snprintfFailed @ [NUL])" let ?m3 = "put_bytes m2 (d + k) ?b"
    have len: "length ?b = c" "k + c \<le> n" using k by (auto simp: snprintfFailed_def c_def)
    have "accessible m2 (d + k) (length ?b)" by (rule accessible_sub [OF a2]) (use len in auto)
    then have st: "store_bytes m2 (d + k) ?b = Some ?m3" by (rule store_bytes_ok)
    have u3: "unchanged m ?m3 d n" by (rule unchanged_trans [OF u2 unchanged_put]) (use len in auto)
    have "fallback W f args r = Some ((d + k + c, n - k - c), ?m3)"
      unfolding r fallback_def snprintf_fallback_impl_def Let_def fst_conv snd_conv prod.case v(1) Option.bind.bind_lunit
        c_def [symmetric] st using False by (simp only: if_True not_False_eq_True)
    moreover have "within d n m ((d + k + c, n - k - c), ?m3)"
      unfolding within_def using len(2) a2 u3 keeps_accessible_trans [OF k2 keeps_accessible_put]
      by (intro exI [of _ "k + c"] exI [of _ ?m3]) (simp add: accessible_put)
    ultimately show ?thesis by blast
  qed
qed


lemma within_start: "accessible m d n \<Longrightarrow> within d n m ((d, n), m)"
  by (auto simp: within_def intro!: exI [of _ 0])

lemma within_store:
  assumes "within d n m r" "0 < n" "0 < d" "d + n \<le> 18446744073709551616"
  shows "last_byte (fst r) = d + n - 1"
    "\<exists>m'. store_bytes (snd r) (last_byte (fst r)) [NUL] = Some m' \<and> m' (d + n - 1) = Some NUL \<and>
       unchanged m m' d n \<and> keeps_accessible m m'"
proof -
  obtain k m1 where r: "r = ((d + k, n - k), m1)" and k: "k \<le> n" and a: "accessible m1 d n"
    and u: "unchanged m m1 d n" "keeps_accessible m m1"
    using assms(1) by (auto simp: within_def)
  show l: "last_byte (fst r) = d + n - 1"
  proof (cases "k = n")
    case True
    then have "last_byte (fst r) = (d + n - 1 + 18446744073709551616) mod 18446744073709551616"
      using assms(2-4) by (simp add: r last_byte_def to_size_t_def add.commute)
    also have "\<dots> = (d + n - 1) mod 18446744073709551616" by (rule mod_add_self2)
    also have "\<dots> = d + n - 1" using assms(2-4) by (intro mod_less) auto
    finally show ?thesis .
  next
    case False
    then have "to_size_t (int (n - k) - 1) = n - k - 1" using k assms(2-4) by (subst to_size_t_id) auto
    with False k assms(2-4) show ?thesis by (simp add: r last_byte_def)
  qed
  let ?m = "put_bytes m1 (d + n - 1) [NUL]"
  have "accessible m1 (d + n - 1) 1" by (rule accessible_sub [OF a]) (use assms(2) in auto)
  then have "store_bytes (snd r) (last_byte (fst r)) [NUL] = Some ?m" unfolding l by (simp add: r store_bytes_ok)
  moreover have "unchanged m ?m d n" by (rule unchanged_trans [OF u(1) unchanged_put]) (use assms(2) in auto)
  ultimately show "\<exists>m'. store_bytes (snd r) (last_byte (fst r)) [NUL] = Some m' \<and> m' (d + n - 1) = Some NUL \<and>
       unchanged m m' d n \<and> keeps_accessible m m'"
    using keeps_accessible_trans [OF u(2) keeps_accessible_put] by (auto simp: put_bytes_apply)
qed

section \<open>The frames\<close>

text \<open>The instruction pointers of the frames, when the unwinder reaches the bottom within the fuel.\<close>

fun frame_pcs :: "stack_env \<Rightarrow> thread_stack \<Rightarrow> nat \<Rightarrow> 64 word \<Rightarrow> context_registers \<Rightarrow> 64 word list option" where
  "frame_pcs W g 0 pc c = (if pc = 0 then Some [] else None)"
| "frame_pcs W g (Suc fuel) pc c =
     (if pc = 0 then Some []
      else (case unwind W g pc c of (pc', c') \<Rightarrow> map_option ((#) pc) (frame_pcs W g fuel pc' c')))"

definition frame_text :: "stack_env \<Rightarrow> 64 word \<Rightarrow> string" where
  "frame_text W pc =
     ''!'' @ (case SymFromAddr W pc of None \<Rightarrow> ''failure in SymFromAddr'' | Some n \<Rightarrow> n) @ '' '' @
     (case SymGetLineFromAddr64 W pc of None \<Rightarrow> ''failure in SymGetLineFromAddr64:0'' | Some (f, n) \<Rightarrow> f @ '':'' @ show_nat n)"

fun stack_text :: "stack_env \<Rightarrow> bool \<Rightarrow> 64 word list \<Rightarrow> string" where
  "stack_text W firstLine [] = []"
| "stack_text W firstLine (pc # pcs) = separator firstLine @ frame_text W pc @ stack_text W False pcs"

lemma print_frame_within:
  "within d n m r \<Longrightarrow> n < 18446744073709551616 \<Longrightarrow> \<exists>r'. print_frame W pc fl r = Some r' \<and> within d n m r'"
  unfolding print_frame_def Let_def by (simp only: prod.case_distrib split: prod.splits) (blast intro: fallback_within)

lemma walk_within:
  assumes "frame_pcs W g fuel pc c = Some pcs" "within d n m r" "n < 18446744073709551616"
  shows "\<exists>r'. walk W g fuel pc c skip fl r = Some (concat (map (frame_queries g) (if skip then tl pcs else pcs)), r') \<and>
     within d n m r'"
  using assms
proof (induction fuel arbitrary: pc c pcs skip fl r)
  case 0
  then have "pc = 0" by (simp split: if_splits)
  with 0 show ?case by (intro exI [of _ r]) simp
next
  case (Suc fuel)
  show ?case
  proof (cases "pc = 0")
    case True
    with Suc.prems show ?thesis by simp
  next
    case False
    obtain pc' c' where u: "unwind W g pc c = (pc', c')" by force
    with False Suc.prems(1) obtain qs where q: "frame_pcs W g fuel pc' c' = Some qs" "pcs = pc # qs" by auto
    obtain r1 where r1: "(if skip then Some r else print_frame W pc fl r) = Some r1" "within d n m r1"
      using print_frame_within [OF Suc.prems(2,3), of W pc fl] Suc.prems(2) by (cases skip) (simp_all, blast)
    from Suc.IH [OF q(1) r1(2) Suc.prems(3), of False "if skip then fl else False"] r1(1) False u q(2) show ?thesis
      by (cases skip) auto
  qed
qed

text \<open>The text so far: the destination is behind it and it is terminated.\<close>

definition written :: "addr \<Rightarrow> nat \<Rightarrow> mem \<Rightarrow> string \<Rightarrow> (addr \<times> nat) \<times> mem" where
  "written d n m s = ((d + length s, n - length s), put_cstr m d n s)"

lemma fallback_written:
  assumes "accessible m d n" "length (s @ t) < n" "int n \<le> INT_MAX" "fmt (slib W) f args = Some t"
  shows "fallback W f args (written d n m s) = Some (written d n m (s @ t))"
proof -
  have adv: "advance n s = length s" using assms(2) by (simp add: advance_def)
  have "accessible (put_cstr m d n s) (d + length s) (n - length s)"
    by (rule accessible_sub [OF accessible_put_cstr [OF assms(1)]]) (use assms(2) in auto)
  moreover have "int (length t) \<le> INT_MAX" using assms(2,3) by auto
  ultimately have v: "vsnprintf (slib W) (d + length s) (n - length s) f args (put_cstr m d n s) =
      Some (int (length t), put_cstr m d n (s @ t))"
    using vsnprintf_ok [OF assms(4)] put_cstr_append [of m d n s t] adv by simp
  have i: "int (length t) < to_int (int (n - length s))" "to_size_t (int (n - length s) - int (length t)) = n - length (s @ t)"
    using assms(2,3) by (auto simp: to_int_id to_size_t_id INT_MAX_def nat_diff_distrib)
  then show ?thesis by (simp add: written_def fallback_def snprintf_fallback_impl_def v nat_int_add)
qed

lemma c_printf_frame:
  "c_printf ''%s!%s %s:%u'' [AStr a, AStr b, AStr c, AInt (int n)] = Some (a @ ''!'' @ b @ '' '' @ c @ '':'' @ show_nat n)"
  by (simp add: c_printf_def c_conv_def is_digit_def)

lemma print_frame_written:
  assumes "conforming (slib W)" "accessible m d n" "length (s @ separator fl @ frame_text W pc) < n" "int n \<le> INT_MAX"
  shows "print_frame W pc fl (written d n m s) = Some (written d n m (s @ separator fl @ frame_text W pc))"
proof -
  have "show_nat 0 = ''0''" by code_simp
  then have f: "fmt (slib W) ''%s!%s %s:%u''
      [AStr (separator fl), AStr (case SymFromAddr W pc of None \<Rightarrow> ''failure in SymFromAddr'' | Some n \<Rightarrow> n),
       AStr (fst x), AInt (int (snd x))] = Some (separator fl @ frame_text W pc)"
    if "x = (case SymGetLineFromAddr64 W pc of None \<Rightarrow> (''failure in SymGetLineFromAddr64'', 0) | Some x \<Rightarrow> x)" for x
    using that by (intro conforming_fmt [OF assms(1)]) (auto simp: c_printf_frame frame_text_def split: option.splits prod.splits)
  show ?thesis
    unfolding print_frame_def Let_def
    using fallback_written [OF assms(2-4) f [OF refl]] by (auto split: prod.splits)
qed

lemma walk_written:
  assumes "frame_pcs W g fuel pc c = Some pcs" "conforming (slib W)" "accessible m d n" "int n \<le> INT_MAX"
    and "length (s @ stack_text W fl (if skip then tl pcs else pcs)) < n"
  shows "walk W g fuel pc c skip fl (written d n m s) =
    Some (concat (map (frame_queries g) (if skip then tl pcs else pcs)),
      written d n m (s @ stack_text W fl (if skip then tl pcs else pcs)))"
  using assms
proof (induction fuel arbitrary: pc c pcs skip fl s)
  case 0
  then show ?case by (auto split: if_splits)
next
  case (Suc fuel)
  show ?case
  proof (cases "pc = 0")
    case True
    with Suc.prems show ?thesis by auto
  next
    case False
    obtain pc' c' where u: "unwind W g pc c = (pc', c')" by force
    with False Suc.prems(1) obtain qs where q: "frame_pcs W g fuel pc' c' = Some qs" "pcs = pc # qs" by auto
    show ?thesis
    proof (cases skip)
      case True
      with Suc.IH [OF q(1) Suc.prems(2-4), of s fl False] Suc.prems(5) False u q(2) show ?thesis by simp
    next
      case False
      let ?s = "s @ separator fl @ frame_text W pc"
      have "print_frame W pc fl (written d n m s) = Some (written d n m ?s)"
        by (rule print_frame_written [OF Suc.prems(2,3) _ Suc.prems(4)]) (use Suc.prems(5) False q(2) in simp)
      with Suc.IH [OF q(1) Suc.prems(2-4), of ?s False False] Suc.prems(5) False \<open>pc \<noteq> 0\<close> u q(2) show ?thesis by simp
    qed
  qed
qed


section \<open>Properties of the walk\<close>

lemma acquire_context_within:
  assumes "within d n m r" "n < 18446744073709551616"
  shows "\<exists>ctx b fl out r'. acquire_context W t h r = Some (ctx, b, fl, out, r') \<and> within d n m r' \<and>
     (ctx \<noteq> None \<longrightarrow> ctx = Some (RtlCaptureContext W) \<or> ctx = GetThreadContext W h) \<and>
     out = (if GetCurrentThreadId W = t then [] else [Suspend_thread h b])"
proof -
  have f: "\<exists>r'. fallback W f args r = Some r' \<and> within d n m r'" for f args by (rule fallback_within [OF assms])
  consider "GetCurrentThreadId W = t" | "GetCurrentThreadId W \<noteq> t" "\<not> SuspendThread W h"
    | "GetCurrentThreadId W \<noteq> t" "SuspendThread W h" "GetThreadContext W h = None"
    | c where "GetCurrentThreadId W \<noteq> t" "SuspendThread W h" "GetThreadContext W h = Some c" by fastforce
  then show ?thesis
  proof cases
    case 2
    obtain r' where "fallback W ''%sfailure (GetLastError=%u) in SuspendThread''
        [AStr (separator True), AInt (int (GetLastError W))] r = Some r'" "within d n m r'" using f by blast
    with 2 show ?thesis by (auto simp: acquire_context_def)
  next
    case 3
    obtain r' where "fallback W ''%sfailure (GetLastError=%u) in GetThreadContext''
        [AStr (separator True), AInt (int (GetLastError W))] r = Some r'" "within d n m r'" using f by blast
    with 3 show ?thesis by (auto simp: acquire_context_def)
  qed (use assms(1) in \<open>auto simp: acquire_context_def\<close>)
qed

definition finite_stacks :: "stack_env \<Rightarrow> thread_stack \<Rightarrow> nat \<Rightarrow> bool" where
  "finite_stacks W g fuel \<longleftrightarrow>
     (\<forall>c. c = RtlCaptureContext W \<or> (\<exists>h. GetThreadContext W h = Some c) \<longrightarrow> frame_pcs W g fuel (reg_ip c) c \<noteq> None)"

text \<open>
  C15: The stack of a thread is written as a terminated string inside the buffer: when the
  module is initialised, the buffer is not empty, the unwinder reaches the bottom of the
  stacks, suspended threads can be resumed, and the call obtains the lock of the module (it
  does not when the thread it has suspended keeps the lock), \<open>get_thread_stack\<close> returns, the last byte of the
  buffer is the terminator, nothing outside the buffer has changed, and a thread it
  suspended is resumed.  Opening and suspending the thread, reading its registers, the
  symbol handler and the formatting may each fail.
\<close>
theorem get_thread_stack_terminated:
  assumes "symbolsState g = SYM_INIT_INITIALIZED" "accessible m d n" "0 < d" "0 < n" "d + n \<le> 18446744073709551616"
    and "finite_stacks W g fuel" "\<forall>h. ResumeThread W h"
  shows "\<exists>out m'. get_thread_stack W g fuel t d n m = Some (out, m') \<and> m' (d + n - 1) = Some NUL \<and>
     unchanged m m' d n \<and> keeps_accessible m m' \<and>
     (\<forall>h. Suspend_thread h True \<in> set out \<longrightarrow> Resume_thread h True \<in> set out)"
proof -
  let ?m1 = "put_bytes m d [NUL]"
  have a1: "accessible m d 1" by (rule accessible_sub [OF assms(2)]) (use assms(4) in auto)
  then have s1: "store_bytes m d [NUL] = Some ?m1" by (simp add: store_bytes_ok)
  have "unchanged m ?m1 d n" by (rule unchanged_put) (use assms(4) in auto)
  then have w1: "within d n m ((d, n), ?m1)"
    using assms(2) by (auto simp: within_def accessible_put intro!: exI [of _ 0])
  have n: "n < 18446744073709551616" using assms(3,5) by linarith
  show ?thesis
  proof (cases "OpenThread W t")
    case None
    with within_store(2) [OF w1 assms(4,3,5)] s1 assms(1,3,4) show ?thesis by (auto simp: get_thread_stack_def)
  next
    case (Some h)
    obtain ctx b fl out r1 where ac: "acquire_context W t h ((d, n), ?m1) = Some (ctx, b, fl, out, r1)" "within d n m r1"
      "ctx \<noteq> None \<longrightarrow> ctx = Some (RtlCaptureContext W) \<or> ctx = GetThreadContext W h"
      "out = (if GetCurrentThreadId W = t then [] else [Suspend_thread h b])"
      using acquire_context_within [OF w1 n] by blast
    let ?walk = "locked_walk W g fuel (GetCurrentThreadId W = t) ctx fl r1"
    have "\<exists>locked r2. ?walk = Some (locked, r2) \<and> within d n m r2 \<and> (\<forall>h. Suspend_thread h True \<notin> set locked)"
    proof (cases ctx)
      case (Some c)
      then have "c = RtlCaptureContext W \<or> GetThreadContext W h = Some c" using ac(3) by auto
      then obtain pcs where p: "frame_pcs W g fuel (reg_ip c) c = Some pcs"
        using assms(6) unfolding finite_stacks_def by blast
      show ?thesis using walk_within [OF p ac(2) n, of "GetCurrentThreadId W = t" fl] Some
        by (auto simp: frame_queries_def locked_walk_def)
    qed (use ac(2) in \<open>simp add: locked_walk_def\<close>)
    then obtain locked r2 where r2: "?walk = Some (locked, r2)" "within d n m r2" "\<forall>h. Suspend_thread h True \<notin> set locked"
      by blast
    obtain m' where m': "store_bytes (snd r2) (last_byte (fst r2)) [NUL] = Some m'" "m' (d + n - 1) = Some NUL"
       "unchanged m m' d n" "keeps_accessible m m'"
      using within_store(2) [OF r2(2) assms(4,3,5)] by blast
    show ?thesis using Some s1 assms(1,3,4,7) ac(1,4) r2(1,3) m' by (auto simp: get_thread_stack_def end_inspection_def Let_def)
  qed
qed

text \<open>
  C10: The stack of the current thread is the list of its frames: when the text fits, the
  buffer holds one line per frame below \<open>get_thread_stack\<close> itself, in the order of the
  unwinder, with the function, the file and the line the symbol handler gives, or the texts
  that say that it failed.
\<close>
theorem get_thread_stack_frames:
  assumes "symbolsState g = SYM_INIT_INITIALIZED" "accessible m d n" "0 < d" "int n \<le> INT_MAX" "conforming (slib W)"
    and "d + n \<le> 18446744073709551616" "OpenThread W (GetCurrentThreadId W) = Some h"
    and "frame_pcs W g fuel (reg_ip (RtlCaptureContext W)) (RtlCaptureContext W) = Some pcs"
    and "length (stack_text W True (tl pcs)) < n" "NUL \<notin> set (stack_text W True (tl pcs))"
  shows "\<exists>out m'. get_thread_stack W g fuel (GetCurrentThreadId W) d n m = Some (out, m') \<and>
     c_str m' d = Some (stack_text W True (tl pcs))"
proof -
  let ?s = "stack_text W True (tl pcs)" let ?m = "put_cstr m d n ?s"
  have n: "0 < n" using assms(9) by simp
  have a1: "accessible m d 1" by (rule accessible_sub [OF assms(2)]) (use n in auto)
  have s1: "store_bytes m d [NUL] = Some (put_cstr m d n [])" using a1 n by (simp add: store_bytes_ok put_cstr_def)
  have w0: "((d, n), put_cstr m d n []) = written d n m []" by (simp add: written_def)
  have wk: "walk W g fuel (reg_ip (RtlCaptureContext W)) (RtlCaptureContext W) True True (written d n m []) =
      Some (concat (map (frame_queries g) (tl pcs)), written d n m ?s)"
    using walk_written [OF assms(8,5,2,4), of "[]" True True] assms(9) by simp
  have "within d n m (written d n m ?s)"
    using assms(2,9) by (auto simp: within_def written_def unchanged_put_cstr put_cstr_keeps accessible_put_cstr
        intro!: exI [of _ "length ?s"])
  from within_store [OF this n assms(3,6)]
  have l: "last_byte (fst (written d n m ?s)) = d + n - 1" and
    st: "\<exists>m'. store_bytes (snd (written d n m ?s)) (d + n - 1) [NUL] = Some m'" by auto
  then have m': "store_bytes (snd (written d n m ?s)) (d + n - 1) [NUL] = Some (put_bytes ?m (d + n - 1) [NUL])"
    by (auto simp: written_def store_bytes_def split: if_splits)
  have "bytes_at ?m d (?s @ [NUL])" using assms(9) by (simp add: put_cstr_def bytes_at_put_same del: bytes_at_append)
  then have "bytes_at (put_bytes ?m (d + n - 1) [NUL]) d (?s @ [NUL])"
    using assms(9) by (auto simp: bytes_at_iff put_bytes_apply nth_append)
  then have "c_str (put_bytes ?m (d + n - 1) [NUL]) d = Some ?s" using assms(10) by (rule c_str_at)
  then show ?thesis
    using assms(1,3,7) n s1 wk l m'
    by (simp add: get_thread_stack_def acquire_context_def locked_walk_def end_inspection_def w0 Let_def)
qed


section \<open>Small buffers on Linux\<close>

text \<open>
  On Linux a buffer of fewer than 17 bytes is filled completely and not terminated: the
  message does not fit, and of the fallback text exactly as many bytes as the buffer has
  are copied.
\<close>
theorem linux_stack_unterminated:
  assumes "conforming E" "accessible m d n" "0 < d" "0 < n" "n < 17"
  shows "\<exists>m'. get_thread_stack_linux E d n m = Some ([], m') \<and> bytes_at m' d (take n snprintfFailed) \<and>
     NUL \<notin> set (take n snprintfFailed) \<and> length (take n snprintfFailed) = n \<and> unchanged m m' d n"
proof -
  let ?t = "''currently running platform not supported.''"
  have "c_printf ?t [] = Some ?t" by code_simp
  then have f: "fmt E ?t [] = Some ?t" by (rule conforming_fmt [OF assms(1)])
  then have v: "vsnprintf E d n ?t [] m = Some (int (length ?t), put_cstr m d n ?t)"
    using assms(2) by (intro vsnprintf_ok) (auto simp: INT_MAX_def)
  have i: "\<not> int (length ?t) < to_int (int n)" using assms(5) by (simp add: to_int_id)
  let ?b = "take n (snprintfFailed @ [NUL])"
  have len: "length snprintfFailed = 16" "NUL \<notin> set snprintfFailed" by (simp_all add: snprintfFailed_def)
  then have b: "?b = take n snprintfFailed" "length ?b = n" using assms(5) by auto
  have st: "store_bytes (put_cstr m d n ?t) d ?b = Some (put_bytes (put_cstr m d n ?t) d ?b)"
    by (rule store_bytes_ok, rule accessible_put_cstr) (use assms(2) b in simp)
  have "get_thread_stack_linux E d n m = Some ([], put_bytes (put_cstr m d n ?t) d ?b)"
    using assms(3-5) st i b(2) unfolding get_thread_stack_linux_def snprintf_fallback_impl_def prod.case v Option.bind.bind_lunit Let_def
    by (simp add: len)
  moreover have "unchanged m (put_bytes (put_cstr m d n ?t) d ?b) d n"
    by (rule unchanged_trans [OF unchanged_put_cstr unchanged_put]) (use b in auto)
  moreover have "bytes_at (put_bytes (put_cstr m d n ?t) d ?b) d ?b" by (rule bytes_at_put_same)
  moreover have "length (take n snprintfFailed) = n" using len assms(5) by simp
  ultimately show ?thesis unfolding b(1) using len by (auto dest: in_set_takeD)
qed

section \<open>The search path\<close>

text \<open>The path as a text: what one module adds to it, when there is room.\<close>

definition module_directory :: "string \<Rightarrow> string option" where
  "module_directory path =
     (case last_backslash path of None \<Rightarrow> None | Some k \<Rightarrow> if MAX_PATH \<le> k then None else Some (take k path))"

definition extend_path :: "string \<Rightarrow> string \<Rightarrow> string" where
  "extend_path path s =
     (case module_directory path of
        None \<Rightarrow> s
      | Some dir \<Rightarrow> if occurs dir s then s else if s = [] then dir else s @ '';'' @ dir)"

definition join_path :: "string list \<Rightarrow> string" where
  "join_path paths = fold extend_path paths []"

definition path_at :: "stack_env \<Rightarrow> mem \<Rightarrow> string \<Rightarrow> bool" where
  "path_at W m s \<longleftrightarrow> accessible m (searchPath W) sizeof_searchPath \<and> bytes_at m (searchPath W) (s @ [NUL]) \<and> NUL \<notin> set s"

lemma last_backslash_bound: "last_backslash p = Some k \<Longrightarrow> k < length p"
  by (cases p) (auto simp: last_backslash_def split: if_splits)

lemma put_path:
  assumes "accessible m p n" "length (s @ t) < n" "bytes_at m p s"
  shows "bytes_at (put_bytes (put_bytes m (p + length s) t) (p + length (s @ t)) [NUL]) p ((s @ t) @ [NUL])"
proof -
  have "put_bytes (put_bytes m (p + length s) t) (p + length (s @ t)) [NUL] = put_bytes m (p + length s) (t @ [NUL])"
    by (simp add: put_bytes_append add.assoc)
  moreover have "bytes_at (put_bytes m (p + length s) (t @ [NUL])) p s"
    by (rule bytes_at_put_other [OF assms(3)]) (simp add: disjoint_ranges_def)
  moreover have "bytes_at (put_bytes m (p + length s) (t @ [NUL])) (p + length s) (t @ [NUL])" by (rule bytes_at_put_same)
  ultimately show ?thesis by (simp add: add.assoc)
qed

lemma occurs_Nil [simp]: "occurs [] s"
  by (cases s) auto

lemma add_directory_ok:
  assumes "path_at W m s" "NUL \<notin> set path" "length (extend_path path s) < sizeof_searchPath"
  shows "\<exists>m'. add_directory W path (length s, m) = Some (length (extend_path path s), m') \<and> path_at W m' (extend_path path s) \<and>
     unchanged m m' (searchPath W) sizeof_searchPath \<and> keeps_accessible m m'"
proof (cases "\<exists>dir. module_directory path = Some dir \<and> \<not> occurs dir s")
  case False
  have c: "c_str m (searchPath W) = Some s" using assms(1) by (auto simp: path_at_def intro: c_str_at)
  from False have "extend_path path s = s" by (auto simp: extend_path_def split: option.splits)
  with False assms(1) c show ?thesis
    by (auto simp: add_directory_def module_directory_def split: option.splits if_splits)
next
  case True
  then obtain k where k: "last_backslash path = Some k" "\<not> MAX_PATH \<le> k" "\<not> occurs (take k path) s"
    by (auto simp: module_directory_def split: option.splits if_splits)
  let ?dir = "take k path" let ?p = "searchPath W" let ?u = "if s = [] then [] else '';''"
  have len: "length ?dir = k" using last_backslash_bound [OF k(1)] by simp
  have e: "extend_path path s = s @ ?u @ ?dir" using k by (simp add: extend_path_def module_directory_def)
  have c: "c_str m ?p = Some s" and a: "accessible m ?p sizeof_searchPath" and b: "bytes_at m ?p s"
    using assms(1) by (auto simp: path_at_def intro: c_str_at)
  define m1 where "m1 = put_bytes m (?p + length s) ?u"
  let ?m2 = "put_bytes m1 (?p + length (s @ ?u)) ?dir"
  let ?m3 = "put_bytes ?m2 (?p + length ((s @ ?u) @ ?dir)) [NUL]"
  have le: "length (extend_path path s) = length s + length ?u + k" using len by (simp add: e)
  have fits: "length s + length ?u + k < sizeof_searchPath" using assms(3) len by (simp add: e split: if_splits)
  have acc: "accessible m q l" if "?p \<le> q" "q + l \<le> ?p + sizeof_searchPath" for q l
    by (rule accessible_sub [OF a that])
  have st: "store_bytes m (?p + length s) ?u = Some m1" unfolding m1_def by (rule store_bytes_ok, rule acc) (use fits in auto)
  have st2: "store_bytes m1 (?p + length (s @ ?u)) ?dir = Some ?m2"
    by (rule store_bytes_ok) (use fits len in \<open>auto simp: m1_def intro!: accessible_put acc\<close>)
  have st3: "store_bytes ?m2 (?p + length ((s @ ?u) @ ?dir)) [NUL] = Some ?m3"
    by (rule store_bytes_ok) (use fits len in \<open>auto simp: m1_def intro!: accessible_put acc\<close>)
  have run: "add_directory W path (length s, m) = Some (length (extend_path path s), ?m3)"
    using k c st st2 st3 fits len le
    by (cases "s = []") (simp_all add: add_directory_def m1_def Let_def add.assoc)
  have b1: "bytes_at m1 ?p (s @ ?u)"
    using bytes_at_put_other [OF b, of "?p + length s" ?u] bytes_at_put_same [of m "?p + length s" ?u]
    by (simp add: m1_def disjoint_ranges_def)
  have "accessible m1 ?p sizeof_searchPath" using a by (simp add: m1_def accessible_put)
  from put_path [OF this _ b1, of ?dir] fits len have "bytes_at ?m3 ?p (extend_path path s @ [NUL])" by (simp add: e)
  moreover have "NUL \<notin> set (extend_path path s)"
    using assms(1,2) by (auto simp: e path_at_def dest: in_set_takeD split: if_splits)
  moreover have "accessible ?m3 ?p sizeof_searchPath" using a by (simp add: m1_def accessible_put)
  moreover have "unchanged m ?m3 ?p sizeof_searchPath" unfolding m1_def
    by (intro unchanged_trans [OF unchanged_trans [OF unchanged_put unchanged_put] unchanged_put]) (use fits len in auto)
  moreover have "keeps_accessible m ?m3" unfolding m1_def by (meson keeps_accessible_put keeps_accessible_trans)
  ultimately show ?thesis using run by (auto simp: path_at_def)
qed


lemma occurs_append: "occurs d s \<Longrightarrow> occurs d (s @ t)"
proof (induction s)
  case Nil
  then show ?case by simp
next
  case (Cons c s)
  show ?case
  proof (cases "take (length d) (c # s) = d")
    case True
    then have "length d \<le> length (c # s)" by (metis length_take min.absorb_iff2 min.commute)
    then have "take (length d) ((c # s) @ t) = take (length d) (c # s)" by (subst take_append) simp
    with True show ?thesis by simp
  next
    case False
    with Cons show ?thesis by simp
  qed
qed

lemma occurs_prepend: "occurs d t \<Longrightarrow> occurs d (s @ t)"
  by (induction s) auto

lemma occurs_refl: "occurs d d"
  by (cases d) auto

lemma extend_path_occurs:
  "occurs d s \<Longrightarrow> occurs d (extend_path p s)" "module_directory p = Some d \<Longrightarrow> occurs d (extend_path p s)"
  by (auto simp: extend_path_def occurs_append occurs_prepend occurs_refl split: option.splits
      intro: occurs_prepend [of d "CHR '';'' # d" s, simplified])

lemma extend_path_length: "length s \<le> length (extend_path p s)"
  by (auto simp: extend_path_def split: option.splits)

lemma fold_extend_length: "length s \<le> length (fold extend_path ps s)"
proof (induction ps arbitrary: s)
  case (Cons p ps)
  show ?case using Cons [of "extend_path p s"] extend_path_length [of s p] by simp
qed simp

lemma fold_extend_occurs:
  "occurs d s \<Longrightarrow> occurs d (fold extend_path ps s)"
  "p \<in> set ps \<Longrightarrow> module_directory p = Some d \<Longrightarrow> occurs d (fold extend_path ps s)"
proof -
  show keep: "occurs d s \<Longrightarrow> occurs d (fold extend_path ps s)" for ps s
    by (induction ps arbitrary: s) (auto simp: extend_path_occurs)
  show "p \<in> set ps \<Longrightarrow> module_directory p = Some d \<Longrightarrow> occurs d (fold extend_path ps s)"
    by (induction ps arbitrary: s) (auto simp: extend_path_occurs keep)
qed

text \<open>
  The path independently of the loop: the directories in the order of their first
  occurrence, separated by semicolons.  This is what the loop builds unless a directory has
  a semicolon in its name or occurs as a part of another one.
\<close>

definition directories :: "string list \<Rightarrow> string list" where
  "directories paths = List.map_filter module_directory paths"

fun path_text :: "string list \<Rightarrow> string" where
  "path_text [] = []"
| "path_text [d] = d"
| "path_text (d # e # ds) = d @ '';'' @ path_text (e # ds)"

definition first_occurrences :: "'a list \<Rightarrow> 'a list" where
  "first_occurrences xs = rev (remdups (rev xs))"

definition separate :: "string list \<Rightarrow> bool" where
  "separate ds \<longleftrightarrow> (\<forall>d\<in>set ds. CHR '';'' \<notin> set d \<and> (\<forall>e\<in>set ds. occurs d e \<longrightarrow> d = e))"

lemma occurs_iff: "occurs d s \<longleftrightarrow> (\<exists>x y. s = x @ d @ y)"
proof
  show "occurs d s \<Longrightarrow> \<exists>x y. s = x @ d @ y"
  proof (induction s)
    case (Cons c s)
    show ?case
    proof (cases "take (length d) (c # s) = d")
      case True
      then have "c # s = [] @ d @ drop (length d) (c # s)" using append_take_drop_id [of "length d" "c # s"] by simp
      then show ?thesis by blast
    next
      case False
      with Cons obtain x y where "s = x @ d @ y" by auto
      then have "c # s = (c # x) @ d @ y" by simp
      then show ?thesis by blast
    qed
  qed simp
  show "\<exists>x y. s = x @ d @ y \<Longrightarrow> occurs d s" by (auto simp: occurs_append occurs_prepend occurs_refl)
qed

lemma occurs_split:
  assumes "c \<notin> set d" "occurs d (a @ c # b)"
  shows "occurs d a \<or> occurs d b"
proof -
  obtain x y where e: "a @ c # b = x @ d @ y" using assms(2) by (auto simp: occurs_iff)
  then obtain us where "a = x @ us \<and> us @ c # b = d @ y \<or> a @ us = x \<and> c # b = us @ d @ y"
    by (auto simp: append_eq_append_conv2)
  then show ?thesis
  proof
    assume us: "a = x @ us \<and> us @ c # b = d @ y"
    then obtain vs where "us = d @ vs \<or> us @ vs = d \<and> c # b = vs @ y" by (auto simp: append_eq_append_conv2)
    with us assms(1) show ?thesis by (cases vs) (auto simp: occurs_append occurs_prepend occurs_refl)
  next
    assume us: "a @ us = x \<and> c # b = us @ d @ y"
    then show ?thesis using assms(1) by (cases us; cases d) (auto simp: occurs_append occurs_prepend occurs_refl)
  qed
qed

lemma occurs_path_text:
  "CHR '';'' \<notin> set d \<Longrightarrow> occurs d (path_text ds) \<Longrightarrow> ds \<noteq> [] \<Longrightarrow> \<exists>e\<in>set ds. occurs d e"
  by (induction ds rule: path_text.induct) (auto dest: occurs_split)

lemma path_text_snoc: "ds \<noteq> [] \<Longrightarrow> path_text (ds @ [d]) = path_text ds @ '';'' @ d"
  by (induction ds rule: path_text.induct) auto

lemma path_text_Nil: "path_text ds = [] \<longleftrightarrow> ds = [] \<or> ds = [[]]"
  by (induction ds rule: path_text.induct) auto

lemma occurs_in_path_text: "d \<in> set ds \<Longrightarrow> occurs d (path_text ds)"
  by (induction ds rule: path_text.induct)
    (auto simp: occurs_refl occurs_append intro: occurs_prepend [of d "CHR '';'' # s" for s, simplified])

lemma first_occurrences_simps [simp]:
  "first_occurrences [] = []" "set (first_occurrences xs) = set xs"
  "first_occurrences (xs @ [x]) = (if x \<in> set xs then first_occurrences xs else first_occurrences xs @ [x])"
  by (simp_all add: first_occurrences_def)

lemma join_path_directories:
  "separate (directories paths) \<Longrightarrow> join_path paths = path_text (first_occurrences (directories paths))"
proof (induction paths rule: rev_induct)
  case Nil
  then show ?case by (simp add: join_path_def directories_def List.map_filter_def)
next
  case (snoc p ps)
  let ?ds = "first_occurrences (directories ps)"
  have j: "join_path (ps @ [p]) = extend_path p (join_path ps)" by (simp add: join_path_def)
  show ?case
  proof (cases "module_directory p")
    case None
    then have "directories (ps @ [p]) = directories ps" by (simp add: directories_def List.map_filter_def)
    with snoc None j show ?thesis by (simp add: extend_path_def)
  next
    case (Some d)
    then have ds: "directories (ps @ [p]) = directories ps @ [d]" by (simp add: directories_def List.map_filter_def)
    with snoc have IH: "join_path ps = path_text ?ds" by (auto simp: separate_def)
    show ?thesis
    proof (cases "d \<in> set (directories ps)")
      case True
      then have "occurs d (path_text ?ds)" by (intro occurs_in_path_text) simp
      with True Some j ds IH show ?thesis by (simp add: extend_path_def)
    next
      case False
      have sep: "CHR '';'' \<notin> set d" "\<forall>e\<in>set ?ds. \<not> occurs d e \<and> \<not> occurs e d"
        using snoc.prems False by (auto simp: ds separate_def)
      show ?thesis
      proof (cases "?ds = []")
        case True
        with False Some j ds IH show ?thesis by (auto simp: extend_path_def)
      next
        case ne: False
        then have "\<not> occurs d (path_text ?ds)" using occurs_path_text [OF sep(1)] sep(2) by blast
        moreover have "[] \<notin> set ?ds" using sep(2) by auto
        then have "?ds \<noteq> [[]]" by (metis list.set_intros(1))
        then have "path_text ?ds \<noteq> []" using ne by (simp add: path_text_Nil)
        ultimately show ?thesis using False ne Some j ds IH by (simp add: extend_path_def path_text_snoc)
      qed
    qed
  qed
qed

lemma search_path_loop_ok:
  assumes "path_at W m s" "\<forall>p\<in>set ps. NUL \<notin> set p" "length (fold extend_path ps s) < sizeof_searchPath"
  shows "\<exists>m'. search_path_loop W ps (length s, m) = Some (length (fold extend_path ps s), m') \<and>
     path_at W m' (fold extend_path ps s) \<and> unchanged m m' (searchPath W) sizeof_searchPath \<and> keeps_accessible m m'"
  using assms
proof (induction ps arbitrary: s m)
  case (Cons p ps)
  have "length (extend_path p s) < sizeof_searchPath"
    using Cons.prems(3) fold_extend_length [of "extend_path p s" ps] by simp
  then obtain m1 where m1: "add_directory W p (length s, m) = Some (length (extend_path p s), m1)" "path_at W m1 (extend_path p s)"
    "unchanged m m1 (searchPath W) sizeof_searchPath" "keeps_accessible m m1"
    using add_directory_ok [OF Cons.prems(1), of p] Cons.prems(2) by auto
  from Cons.IH [OF m1(2)] Cons.prems(2,3) obtain m2 where
    "search_path_loop W ps (length (extend_path p s), m1) = Some (length (fold extend_path (p # ps) s), m2)"
    "path_at W m2 (fold extend_path (p # ps) s)" "unchanged m1 m2 (searchPath W) sizeof_searchPath" "keeps_accessible m1 m2"
    by auto
  with m1 show ?case by (auto intro: unchanged_trans keeps_accessible_trans)
qed simp

text \<open>
  C23: Refreshing the module list: when the snapshot succeeds and the directories of the
  modules fit in the 32768 bytes of the path, the call takes the lock, cleans the symbol
  handler up once and initialises it once, prints one message exactly when that fails, and
  releases the lock; only the array of the path changes.  The path has the directory of every
  module in it as a part (directories of 260 or more characters apart), in the sense of \<open>strstr\<close>: when no directory has a
  semicolon in it or occurs in a different one, the path is exactly the list of the
  different directories, in the order of their first occurrence, separated by semicolons.
\<close>
theorem refresh_search_path:
  fixes W g
  defines "path \<equiv> join_path (module_paths W)"
  defines "ok \<equiv> SymInitialize W (processHandle g) (Some path)"
  assumes "symbolsState g = SYM_INIT_INITIALIZED" "CreateToolhelp32Snapshot W = Some h"
    and "accessible m (searchPath W) sizeof_searchPath" "\<forall>p\<in>set (module_paths W). NUL \<notin> set p"
    and "length path < sizeof_searchPath" "path \<noteq> []"
  shows "\<exists>m'. get_thread_stack_refresh_module_list W g m =
     Some ([Acquire_lock, Snapshot h, Close_handle h, Sym_cleanup (processHandle g),
            Sym_initialize (processHandle g) (Some path) ok] @
       (if ok then []
        else [Stack_print (Printf (''failure (GetLastError()=0x%x) in SymInitialize during refresh(g.processHandle=%p, searchPath=%s, TRUE)'' @ [CHR 0x0A])
                [AInt (int (GetLastError W)), APtr (processHandle g), AStr path])]) @
       [Release_lock], m') \<and>
     unchanged m m' (searchPath W) sizeof_searchPath \<and>
     (\<forall>d\<in>set (directories (module_paths W)). occurs d path) \<and>
     (separate (directories (module_paths W)) \<longrightarrow> path = path_text (first_occurrences (directories (module_paths W))))"
proof -
  let ?m1 = "put_bytes m (searchPath W) [NUL]" let ?s = path
  have "accessible m (searchPath W) 1" by (rule accessible_sub [OF assms(5)]) (simp_all add: sizeof_searchPath_def)
  then have st: "store_bytes m (searchPath W) [NUL] = Some ?m1" by (simp add: store_bytes_ok)
  have p: "path_at W ?m1 []" using assms(5) by (simp add: path_at_def accessible_put put_bytes_apply)
  have len: "length (fold extend_path (module_paths W) []) < sizeof_searchPath"
    using assms(7) by (simp add: path_def join_path_def)
  obtain m' where m': "search_path_loop W (module_paths W) (0, ?m1) = Some (length ?s, m')" "path_at W m' ?s"
    "unchanged ?m1 m' (searchPath W) sizeof_searchPath"
    using search_path_loop_ok [OF p assms(6) len] by (auto simp: path_def join_path_def)
  have "unchanged m ?m1 (searchPath W) sizeof_searchPath" by (rule unchanged_put) (simp_all add: sizeof_searchPath_def)
  then have u: "unchanged m m' (searchPath W) sizeof_searchPath" using m'(3) by (rule unchanged_trans)
  have c: "c_str m' (searchPath W) = Some ?s" using m'(2) by (auto simp: path_at_def intro: c_str_at)
  have "occurs d ?s" if "d \<in> set (directories (module_paths W))" for d
    using that fold_extend_occurs(2) unfolding path_def join_path_def
    by (fastforce simp: directories_def List.map_filter_def)
  with assms(3,4,8) st m'(1) c u join_path_directories [of "module_paths W"] show ?thesis
    by (auto simp: get_thread_stack_refresh_module_list_def Let_def ok_def path_def)
qed

text \<open>
  A directory that does not fit leaves the search path unterminated: the separator has
  replaced the terminator, the length counts it, and the byte behind it is whatever the
  array held before.
\<close>
theorem search_path_unterminated:
  assumes "path_at W m s" "s \<noteq> []" "module_directory path = Some dir" "\<not> occurs dir s"
    and "length s + 1 < sizeof_searchPath" "sizeof_searchPath \<le> length s + 1 + length dir"
  shows "\<exists>m'. add_directory W path (length s, m) = Some (length s + 1, m') \<and>
     m' (searchPath W + length s) = Some (CHR '';'') \<and>
     m' (searchPath W + length s + 1) = m (searchPath W + length s + 1)"
proof -
  have c: "c_str m (searchPath W) = Some s" using assms(1) by (auto simp: path_at_def intro: c_str_at)
  obtain k where k: "last_backslash path = Some k" "\<not> MAX_PATH \<le> k" "dir = take k path"
    using assms(3) by (auto simp: module_directory_def split: option.splits if_splits)
  have len: "length dir = k" using last_backslash_bound [OF k(1)] k(3) by simp
  have "accessible m (searchPath W + length s) 1"
    by (rule accessible_sub [of m "searchPath W" sizeof_searchPath]) (use assms(1,5) in \<open>auto simp: path_at_def\<close>)
  then have st: "store_bytes m (searchPath W + length s) '';'' = Some (put_bytes m (searchPath W + length s) '';'')"
    by (simp add: store_bytes_ok)
  show ?thesis
    using k(1,2) assms(2,4-6) c st len unfolding k(3) [symmetric]
    by (simp add: add_directory_def Let_def k(3) [symmetric] put_bytes_apply)
qed


section \<open>The address mask\<close>

lemma bit_or_drop: "bit (a OR drop_bit k a) n \<longleftrightarrow> bit a n \<or> bit a (k + n)" for a :: "64 word"
  by (simp add: bit_or_iff bit_drop_bit_eq)

lemma smear_step:
  fixes a x :: "64 word"
  assumes "\<And>n. bit a n \<longleftrightarrow> (\<exists>j<k. bit x (n + j))"
  shows "bit (a OR drop_bit k a) n \<longleftrightarrow> (\<exists>j<2 * k. bit x (n + j))"
proof -
  have "(\<exists>j<2 * k. bit x (n + j)) \<longleftrightarrow> (\<exists>j<k. bit x (n + j)) \<or> (\<exists>j<k. bit x (k + n + j))"
  proof
    assume "\<exists>j<2 * k. bit x (n + j)"
    then obtain j where j: "j < 2 * k" "bit x (n + j)" by blast
    show "(\<exists>j<k. bit x (n + j)) \<or> (\<exists>j<k. bit x (k + n + j))"
    proof (cases "j < k")
      case False
      with j have "j - k < k" "bit x (k + n + (j - k))" by (auto simp: ac_simps)
      then show ?thesis by blast
    qed (use j in blast)
  next
    assume "(\<exists>j<k. bit x (n + j)) \<or> (\<exists>j<k. bit x (k + n + j))"
    then show "\<exists>j<2 * k. bit x (n + j)"
    proof
      assume "\<exists>j<k. bit x (k + n + j)"
      then obtain j where "j < k" "bit x (n + (k + j))" by (auto simp: ac_simps)
      then show ?thesis by (intro exI [of _ "k + j"]) auto
    next
      assume "\<exists>j<k. bit x (n + j)"
      then obtain j where "j < k" "bit x (n + j)" by blast
      then show ?thesis by (intro exI [of _ j]) auto
    qed
  qed
  then show ?thesis unfolding bit_or_drop assms by simp
qed

lemma fill_mask_bit: "bit (fill_mask x) n \<longleftrightarrow> (\<exists>m\<ge>n. bit x m)"
proof -
  define a1 where "a1 = x OR drop_bit 1 x"
  define a2 where "a2 = a1 OR drop_bit 2 a1"
  define a3 where "a3 = a2 OR drop_bit 4 a2"
  define a4 where "a4 = a3 OR drop_bit 8 a3"
  define a5 where "a5 = a4 OR drop_bit 16 a4"
  have b0: "bit x n \<longleftrightarrow> (\<exists>j<1. bit x (n + j))" for n by simp
  have b1: "bit a1 n \<longleftrightarrow> (\<exists>j<2. bit x (n + j))" for n using smear_step [OF b0] by (simp add: a1_def)
  have b2: "bit a2 n \<longleftrightarrow> (\<exists>j<4. bit x (n + j))" for n using smear_step [OF b1] by (simp add: a2_def)
  have b3: "bit a3 n \<longleftrightarrow> (\<exists>j<8. bit x (n + j))" for n using smear_step [OF b2] by (simp add: a3_def)
  have b4: "bit a4 n \<longleftrightarrow> (\<exists>j<16. bit x (n + j))" for n using smear_step [OF b3] by (simp add: a4_def)
  have b5: "bit a5 n \<longleftrightarrow> (\<exists>j<32. bit x (n + j))" for n using smear_step [OF b4] by (simp add: a5_def)
  have b6: "bit (fill_mask x) n \<longleftrightarrow> (\<exists>j<64. bit x (n + j))"
    using smear_step [OF b5] by (simp add: fill_mask_def Let_def a1_def a2_def a3_def a4_def a5_def)
  show ?thesis
  proof
    assume "\<exists>m\<ge>n. bit x m"
    then obtain m where m: "n \<le> m" "bit x m" by blast
    then have "m < 64" using bit_imp_le_length [of x m] by simp
    with m show "bit (fill_mask x) n" unfolding b6 by (intro exI [of _ "m - n"]) auto
  qed (use b6 le_add1 in blast)
qed

lemma high_bit_exists:
  fixes a x :: "64 word"
  assumes "bit a n" "a \<le> x"
  shows "\<exists>m\<ge>n. bit x m"
proof (rule ccontr)
  assume none: "\<not> (\<exists>m\<ge>n. bit x m)"
  have "take_bit n x = x"
  proof (rule bit_word_eqI)
    fix m show "bit (take_bit n x) m = bit x m" using none by (auto simp: bit_take_bit_iff not_less [symmetric])
  qed
  then have "unat x = take_bit n (unat x)" by (metis unsigned_take_bit_eq)
  then have x: "unat x < 2 ^ n" by (metis take_bit_nat_less_exp)
  have "bit (unat a) n" using assms(1) by (simp add: bit_unsigned_iff bit_imp_le_length)
  then have "2 ^ n \<le> unat a"
    by (metis bit_nat_def div_less even_zero not_le)
  moreover have "unat a \<le> unat x" using assms(2) by (simp add: word_le_nat_alt)
  ultimately show False using x by simp
qed

text \<open>
  C35: Stripping the authentication bits: on ARM64, after initialisation, every address up
  to the highest application address is unchanged by \<open>strip_pac\<close>, and when bits above the
  highest bit of that address have been set in it they are removed and nothing else; the
  result is the address before it was signed.
\<close>
theorem strip_pac_recovers:
  assumes "M_ARM64 W" "symbolsState g = SYM_INIT_NOT_INITIALIZED" "get_thread_stack_init W g = (0, out, g')"
    and "MU_FAILURE (slib W) \<noteq> 0" "a \<le> lpMaximumApplicationAddress W"
    and "\<And>n. bit pac n \<Longrightarrow> 2 ^ n > unat (lpMaximumApplicationAddress W)"
  shows "strip_pac W g' (a OR pac) = a"
proof -
  let ?x = "lpMaximumApplicationAddress W"
  have "addressMask g' = fill_mask ?x"
    using assms(1-4) by (auto simp: get_thread_stack_init_def Let_def split: option.splits prod.splits if_splits)
  then have s: "strip_pac W g' (a OR pac) = (a OR pac) AND fill_mask ?x" using assms(1) by (simp add: strip_pac_def)
  have np: "\<not> bit (fill_mask ?x) n" if "bit pac n" for n
  proof
    assume "bit (fill_mask ?x) n"
    then obtain m where m: "n \<le> m" "bit ?x m" unfolding fill_mask_bit by blast
    have "bit (unat ?x) m" using m(2) by (simp add: bit_unsigned_iff bit_imp_le_length)
    then have "2 ^ m \<le> unat ?x" by (metis bit_nat_def div_less even_zero not_le)
    moreover have "(2::nat) ^ n \<le> 2 ^ m" using m(1) by simp
    ultimately show False using assms(6) [OF that] by linarith
  qed
  have "bit ((a OR pac) AND fill_mask ?x) n = bit a n" for n
    using np high_bit_exists [OF _ assms(5)] by (auto simp: bit_and_iff bit_or_iff fill_mask_bit)
  then show ?thesis unfolding s by (intro bit_word_eqI) blast
qed


section \<open>The effects of a call\<close>

definition only_prints :: "stack_effect list \<Rightarrow> bool" where
  "only_prints out = list_all (\<lambda>e. case e of Stack_print c \<Rightarrow> True | _ \<Rightarrow> False) out"

lemma only_prints_simps [simp]:
  "only_prints []" "only_prints (e # out) \<longleftrightarrow> (\<exists>c. e = Stack_print c) \<and> only_prints out"
  by (cases e; simp add: only_prints_def)+

text \<open>What is done under the lock: nothing, or the queries for the printed frames.\<close>

definition locked_queries :: "thread_stack \<Rightarrow> 64 word list option \<Rightarrow> stack_effect list" where
  "locked_queries g frames =
     (case frames of None \<Rightarrow> [] | Some pcs \<Rightarrow> [Acquire_lock] @ concat (map (frame_queries g) pcs) @ [Release_lock])"

lemma walk_queries:
  "walk W g fuel pc c skip fl r = Some (out, r') \<Longrightarrow> \<exists>pcs. out = concat (map (frame_queries g) pcs)"
proof (induction fuel arbitrary: pc c skip fl r out)
  case 0
  then show ?case by (auto split: if_splits intro: exI [of _ "[]"])
next
  case (Suc fuel)
  show ?case
  proof (cases "pc = 0")
    case True
    with Suc.prems show ?thesis by (auto intro: exI [of _ "[]"])
  next
    case False
    with Suc.prems obtain r1 pc' c' out' where
      "walk W g fuel pc' c' False (if skip then fl else False) r1 = Some (out', r')"
      "out = (if skip then [] else frame_queries g pc) @ out'"
      by (auto split: Option.bind_splits prod.splits)
    with Suc.IH obtain pcs where "out = (if skip then [] else frame_queries g pc) @ concat (map (frame_queries g) pcs)" by blast
    then show ?thesis by (intro exI [of _ "if skip then pcs else pc # pcs"]) simp
  qed
qed

lemma locked_walk_queries:
  assumes "locked_walk W g fuel own ctx fl r = Some (locked, r')"
  shows "\<exists>frames. locked = locked_queries g frames \<and> (frames \<noteq> None \<longleftrightarrow> ctx \<noteq> None)"
proof (cases ctx)
  case None
  with assms show ?thesis by (intro exI [of _ None]) (simp add: locked_walk_def locked_queries_def)
next
  case (Some c)
  with assms obtain q where q: "walk W g fuel (reg_ip c) c own fl r = Some (q, r')"
    "locked = [Acquire_lock] @ q @ [Release_lock]" by (auto simp: locked_walk_def Option.bind_eq_Some_conv)
  obtain pcs where "q = concat (map (frame_queries g) pcs)" using walk_queries [OF q(1)] by blast
  with q(2) Some show ?thesis by (intro exI [of _ "Some pcs"]) (simp add: locked_queries_def)
qed

lemma end_inspection_effects:
  assumes "end_inspection W h b r = Some (out, m')"
  shows "\<exists>msgs. only_prints msgs \<and>
     out = (if b \<and> \<not> ResumeThread W h then [Resume_thread h False] @ msgs
       else (if b then [Resume_thread h True] else []) @ [Close_handle h] @ msgs)"
proof (cases "b \<and> \<not> ResumeThread W h")
  case True
  with assms show ?thesis by (auto simp: end_inspection_def)
next
  case False
  with assms show ?thesis
    by (intro exI [of _ "drop (if b then 2 else 1) out"])
      (auto simp: end_inspection_def Let_def split: Option.bind_splits if_splits)
qed

lemma get_thread_stack_open:
  assumes "d \<noteq> NULL" "n \<noteq> 0" "symbolsState g = SYM_INIT_INITIALIZED" "OpenThread W t = Some h"
  shows "get_thread_stack W g fuel t d n m = do {
     m1 \<leftarrow> store_bytes m d [NUL];
     (ctx, b, fl, out, r1) \<leftarrow> acquire_context W t h ((d, n), m1);
     (locked, r2) \<leftarrow> locked_walk W g fuel (GetCurrentThreadId W = t) ctx fl r1;
     (fin, m3) \<leftarrow> end_inspection W h b r2;
     Some ([Open_thread h] @ out @ locked @ fin, m3) }"
  unfolding get_thread_stack_def using assms by simp

lemma get_thread_stack_effects:
  assumes "get_thread_stack W g fuel t d n m = Some (out, m')"
  obtains (prints) "only_prints out"
    | (own) h frames msgs where "OpenThread W t = Some h" "GetCurrentThreadId W = t" "only_prints msgs"
        "out = [Open_thread h] @ locked_queries g frames @ [Close_handle h] @ msgs"
    | (failed) h msgs where "OpenThread W t = Some h" "GetCurrentThreadId W \<noteq> t" "only_prints msgs"
        "out = [Open_thread h, Suspend_thread h False, Close_handle h] @ msgs"
    | (other) h frames msgs where "OpenThread W t = Some h" "GetCurrentThreadId W \<noteq> t" "only_prints msgs" "ResumeThread W h"
        "out = [Open_thread h, Suspend_thread h True] @ locked_queries g frames @ [Resume_thread h True, Close_handle h] @ msgs"
        "frames \<noteq> None \<longleftrightarrow> GetThreadContext W h \<noteq> None"
    | (stuck) h frames msgs where "OpenThread W t = Some h" "GetCurrentThreadId W \<noteq> t" "only_prints msgs" "\<not> ResumeThread W h"
        "out = [Open_thread h, Suspend_thread h True] @ locked_queries g frames @ [Resume_thread h False] @ msgs"
        "frames \<noteq> None \<longleftrightarrow> GetThreadContext W h \<noteq> None"
proof (cases "d = NULL \<or> n = 0 \<or> symbolsState g \<noteq> SYM_INIT_INITIALIZED \<or> OpenThread W t = None")
  case True
  with assms have "only_prints out"
    by (auto simp: get_thread_stack_def split: Option.bind_splits if_splits option.splits)
  then show thesis by (rule prints)
next
  case False
  then obtain h where h: "OpenThread W t = Some h" by auto
  have d: "d \<noteq> NULL" "n \<noteq> 0" "symbolsState g = SYM_INIT_INITIALIZED" using False by auto
  note run = assms [unfolded get_thread_stack_open [OF d h]]
  obtain m1 where m1: "store_bytes m d [NUL] = Some m1"
    using run by (cases "store_bytes m d [NUL]") simp_all
  obtain ctx b fl pre r1 where ac: "acquire_context W t h ((d, n), m1) = Some (ctx, b, fl, pre, r1)"
    using run m1 by (cases "acquire_context W t h ((d, n), m1)") (simp, metis prod_cases5)
  obtain locked r2 where wk: "locked_walk W g fuel (GetCurrentThreadId W = t) ctx fl r1 = Some (locked, r2)"
    using run m1 ac by (cases "locked_walk W g fuel (GetCurrentThreadId W = t) ctx fl r1") (simp, metis surj_pair)
  obtain fin where en: "end_inspection W h b r2 = Some (fin, m')" and out: "out = [Open_thread h] @ pre @ locked @ fin"
    using run m1 ac wk by (cases "end_inspection W h b r2") auto
  obtain frames where "locked = locked_queries g frames \<and> (frames \<noteq> None \<longleftrightarrow> ctx \<noteq> None)"
    using locked_walk_queries [OF wk] ..
  then have fr: "locked = locked_queries g frames" "frames \<noteq> None \<longleftrightarrow> ctx \<noteq> None" by simp_all
  obtain msgs where en: "only_prints msgs"
    "fin = (if b \<and> \<not> ResumeThread W h then [Resume_thread h False] @ msgs
       else (if b then [Resume_thread h True] else []) @ [Close_handle h] @ msgs)"
    using end_inspection_effects [OF en] by blast
  consider "GetCurrentThreadId W = t" "pre = []" "\<not> b"
    | "GetCurrentThreadId W \<noteq> t" "pre = [Suspend_thread h False]" "\<not> b" "frames = None"
    | "GetCurrentThreadId W \<noteq> t" "pre = [Suspend_thread h True]" b "frames \<noteq> None \<longleftrightarrow> GetThreadContext W h \<noteq> None"
    using ac fr(2) by (auto simp: acquire_context_def split: if_splits option.splits Option.bind_splits)
  then show thesis
  proof cases
    case 1
    with out fr(1) en show thesis by (intro own [OF h _ en(1)]) auto
  next
    case 2
    with out fr(1) en show thesis by (intro failed [OF h _ en(1)]) (auto simp: locked_queries_def)
  next
    case 3
    show thesis
    proof (cases "ResumeThread W h")
      case True
      with 3 out fr(1) en show thesis by (intro other [OF h _ en(1)]) auto
    next
      case False
      with 3 out fr(1) en show thesis by (intro stuck [OF h _ en(1)]) auto
    qed
  qed
qed

section \<open>Handles\<close>

text \<open>
  A run of initialisations, refreshes, inspections of threads and deinitialisations: the effects
  so far and the state.
\<close>

inductive stack_run :: "stack_effect list \<Rightarrow> thread_stack \<Rightarrow> bool" where
  start: "stack_run [] thread_stack_initial"
| init: "stack_run (tr @ out) g'" if "stack_run tr g" "get_thread_stack_init W g = (r, out, g')"
| refresh: "stack_run (tr @ out) g" if "stack_run tr g" "get_thread_stack_refresh_module_list W g m = Some (out, m')"
| stack: "stack_run (tr @ out) g"
    if "stack_run tr g" "get_thread_stack W g fuel t d n m = Some (out, m')"
| deinit: "stack_run (tr @ out) g'" if "stack_run tr g" "get_thread_stack_deinit W g = (out, g')"

text \<open>
  The handles that are open, as a multiset; a call of \<open>CloseHandle\<close> on one that is not open
  is a misuse.
\<close>

fun handle_step :: "stack_effect \<Rightarrow> addr multiset \<Rightarrow> addr multiset option" where
  "handle_step (Duplicate_handle (Some h)) hs = Some (add_mset h hs)"
| "handle_step (Snapshot h) hs = Some (add_mset h hs)"
| "handle_step (Open_thread h) hs = Some (add_mset h hs)"
| "handle_step (Close_handle h) hs = (if h \<in># hs then Some (hs - {#h#}) else None)"
| "handle_step _ hs = Some hs"

fun handle_run :: "stack_effect list \<Rightarrow> addr multiset \<Rightarrow> addr multiset option" where
  "handle_run [] hs = Some hs"
| "handle_run (e # es) hs = Option.bind (handle_step e hs) (handle_run es)"

lemma handle_run_append: "handle_run (xs @ ys) hs = Option.bind (handle_run xs hs) (handle_run ys)"
  by (induction xs arbitrary: hs) (auto split: Option.bind_splits)

definition open_handles :: "thread_stack \<Rightarrow> addr multiset" where
  "open_handles g = (if symbolsState g = SYM_INIT_INITIALIZED then {#processHandle g#} else {#})"

text \<open>The handles of the threads that could not be resumed, one for each failure.\<close>

fun not_resumed :: "stack_effect list \<Rightarrow> addr multiset" where
  "not_resumed [] = {#}"
| "not_resumed (Resume_thread h False # es) = add_mset h (not_resumed es)"
| "not_resumed (e # es) = not_resumed es"

lemma not_resumed_Cons:
  "not_resumed (e # es) = (case e of Resume_thread h ok \<Rightarrow> if ok then {#} else {#h#} | _ \<Rightarrow> {#}) + not_resumed es"
  by (cases "(e # es)" rule: not_resumed.cases) auto

lemma not_resumed_append: "not_resumed (xs @ ys) = not_resumed xs + not_resumed ys"
  by (induction xs) (simp_all add: not_resumed_Cons)

lemma queries_quiet:
  "only_prints out \<Longrightarrow> handle_run out hs = Some hs \<and> not_resumed out = {#}"
  "handle_run (locked_queries g frames) hs = Some hs \<and> not_resumed (locked_queries g frames) = {#}"
proof -
  show "only_prints out \<Longrightarrow> handle_run out hs = Some hs \<and> not_resumed out = {#}" by (induction out) auto
  have "handle_run (concat (map (frame_queries g) pcs)) hs = Some hs \<and> not_resumed (concat (map (frame_queries g) pcs)) = {#}" for pcs
    by (induction pcs) (auto simp: frame_queries_def)
  then show "handle_run (locked_queries g frames) hs = Some hs \<and> not_resumed (locked_queries g frames) = {#}"
    by (auto simp: locked_queries_def handle_run_append not_resumed_append split: option.splits)
qed

lemmas effects_quiet [simp] = conjunct1 [OF queries_quiet(1)] conjunct2 [OF queries_quiet(1)]
  conjunct1 [OF queries_quiet(2)] conjunct2 [OF queries_quiet(2)]

text \<open>What each call does to the open handles, whatever other handles \<open>L\<close> are open.\<close>

lemma init_handles:
  assumes "get_thread_stack_init W g = (r, out, g')"
  shows "handle_run out (open_handles g + L) = Some (open_handles g' + L) \<and> not_resumed out = {#}"
  using assms
  by (auto simp: get_thread_stack_init_def Let_def open_handles_def close_handle_def split: option.splits prod.splits if_splits)

lemma refresh_handles:
  assumes "get_thread_stack_refresh_module_list W g m = Some (out, m')"
  shows "handle_run out hs = Some hs \<and> not_resumed out = {#}"
  using assms
  by (auto simp: get_thread_stack_refresh_module_list_def Let_def split: option.splits Option.bind_splits if_splits)

lemma stack_call_handles:
  assumes "get_thread_stack W g fuel t d n m = Some (out, m')"
  shows "handle_run out hs = Some (hs + not_resumed out)"
  using assms
  by (cases rule: get_thread_stack_effects) (auto simp: handle_run_append not_resumed_append)

lemma deinit_handles:
  assumes "get_thread_stack_deinit W g = (out, g')"
  shows "handle_run out (open_handles g + L) = Some (open_handles g' + L) \<and> not_resumed out = {#}"
  using assms by (auto simp: get_thread_stack_deinit_def open_handles_def close_handle_def split: if_splits)

text \<open>
  C24: The handles of the module: in every sequence of initialisations, refreshes of the
  module list, inspections of threads and deinitialisations that return, failing ones
  included, \<open>CloseHandle\<close> is only called on open handles, and after each call the open handles are the
  process handle, exactly while the module is initialised, and the handles of the threads
  that it suspended and could not resume, one for each failure of \<open>ResumeThread\<close>, which stay
  open.
\<close>
theorem stack_handles:
  assumes "stack_run tr g"
  shows "handle_run tr {#} = Some (open_handles g + not_resumed tr)"
  using assms
proof (induction rule: stack_run.induct)
  case start
  then show ?case by (simp add: open_handles_def thread_stack_initial_def)
next
  case (init tr g W r out g')
  with init_handles [OF init(2)] show ?case by (simp add: handle_run_append not_resumed_append)
next
  case (refresh tr g W m out m')
  with refresh_handles [OF refresh(2)] show ?case by (simp add: handle_run_append not_resumed_append)
next
  case (stack tr g W fuel t d n m out m')
  with stack_call_handles [OF stack(2)] show ?case by (simp add: handle_run_append not_resumed_append)
next
  case (deinit tr g W out g')
  with deinit_handles [OF deinit(2)] show ?case by (simp add: handle_run_append not_resumed_append)
qed

section \<open>Witnesses\<close>

text \<open>A stack of three frames; only the second function has a name.\<close>

definition demo_stack_env :: stack_env where
  "demo_stack_env =
     \<lparr>slib = std_env, sym_init_value = (\<lambda>s. 0), M_ARM64 = False, GetCurrentProcess = 1, addressof_processHandle = 2,
      GetLastError = 5, DuplicateHandle = Some 77, GetModuleFileName = (9, ''C:'' @ [BACKSLASH] @ ''a.exe''),
      SymInitialize = (\<lambda>h p. True), SymCleanup = (\<lambda>h. True), CloseHandle = (\<lambda>h. True),
      lpMaximumApplicationAddress = 0x7FFEFFFF, CreateToolhelp32Snapshot = Some 88,
      SymRefreshModuleList = (\<lambda>h. True), module_paths = [''C:'' @ [BACKSLASH] @ ''a.exe'', ''D:'' @ [BACKSLASH] @ ''b.dll''],
      searchPath = 50000, GetCurrentThreadId = 3, OpenThread = (\<lambda>t. Some 66), SuspendThread = (\<lambda>h. True),
      ResumeThread = (\<lambda>h. True), RtlCaptureContext = \<lparr>reg_ip = 3, reg_sp = 0, reg_lr = 0\<rparr>,
      GetThreadContext = (\<lambda>h. Some \<lparr>reg_ip = 2, reg_sp = 0, reg_lr = 0\<rparr>),
      SymFromAddr = (\<lambda>pc. if pc = 2 then Some ''main'' else None),
      SymGetLineFromAddr64 = (\<lambda>pc. Some (''m.c'', 7)), RtlLookupFunctionEntry = (\<lambda>pc. True),
      RtlVirtualUnwind = (\<lambda>pc c. c\<lparr>reg_ip := reg_ip c - 1\<rparr>), ReadProcessMemory = (\<lambda>a. None)\<rparr>"

definition demo_state :: thread_stack where
  "demo_state = \<lparr>symbolsState = SYM_INIT_INITIALIZED, processHandle = 77, addressMask = - 1\<rparr>"

lemma demo_frames:
  "frame_pcs demo_stack_env demo_state 3 (reg_ip (RtlCaptureContext demo_stack_env)) (RtlCaptureContext demo_stack_env) = Some [3, 2, 1]"
  by (simp add: demo_stack_env_def demo_state_def numeral_3_eq_3 unwind_def strip_pac_def Let_def)

theorem get_thread_stack_terminated_witness:
  "\<exists>out m'. get_thread_stack demo_stack_env demo_state 3 9 2000 10 demo_stack = Some (out, m') \<and> m' 2009 = Some NUL \<and>
     unchanged demo_stack m' 2000 10"
proof -
  have f: "finite_stacks demo_stack_env demo_state 3"
    using demo_frames
    by (auto simp: finite_stacks_def) (simp add: demo_stack_env_def demo_state_def numeral_3_eq_3 unwind_def strip_pac_def Let_def)
  have a: "accessible demo_stack 2000 10" by (rule demo_stack_accessible) simp_all
  have "\<exists>out m'. get_thread_stack demo_stack_env demo_state 3 9 2000 10 demo_stack = Some (out, m') \<and> m' (2000 + 10 - 1) = Some NUL \<and>
     unchanged demo_stack m' 2000 10 \<and> keeps_accessible demo_stack m' \<and>
     (\<forall>h. Suspend_thread h True \<in> set out \<longrightarrow> Resume_thread h True \<in> set out)"
    by (rule get_thread_stack_terminated [OF _ a _ _ _ f]) (simp_all add: demo_state_def, simp add: demo_stack_env_def)
  then show ?thesis by auto
qed

theorem get_thread_stack_frames_witness:
  "\<exists>out m'. get_thread_stack demo_stack_env demo_state 3 3 2000 100 demo_stack = Some (out, m') \<and>
     c_str m' 2000 = Some (''!main m.c:7'' @ [CHR 0x0A] @ ''!failure in SymFromAddr m.c:7'')"
proof -
  have a: "accessible demo_stack 2000 100" by (rule demo_stack_accessible) simp_all
  have sh: "show_nat 7 = ''7''" by code_simp
  have t: "stack_text demo_stack_env True (tl [3, 2, 1]) = ''!main m.c:7'' @ [CHR 0x0A] @ ''!failure in SymFromAddr m.c:7''"
    by (simp add: separator_def frame_text_def demo_stack_env_def sh)
  have i: "GetCurrentThreadId demo_stack_env = 3" "OpenThread demo_stack_env 3 = Some 66" "conforming (slib demo_stack_env)"
    by (simp_all add: demo_stack_env_def conforming_std_env)
  show ?thesis
    using get_thread_stack_frames [OF _ a _ _ i(3) _ _ demo_frames, of 66, unfolded t i(1)] i(2)
    by (simp add: demo_state_def INT_MAX_def)
qed

theorem linux_stack_unterminated_witness:
  "\<exists>m'. get_thread_stack_linux std_env 2000 5 demo_stack = Some ([], m') \<and> bytes_at m' 2000 (CHR 0x0A # ''snpr'')"
proof -
  have a: "accessible demo_stack 2000 5" by (rule demo_stack_accessible) simp_all
  show ?thesis using linux_stack_unterminated [OF conforming_std_env a] by (auto simp: snprintfFailed_def)
qed

definition demo_path_memory :: mem where
  "demo_path_memory = put_bytes (\<lambda>a. None) 50000 (replicate 32768 NUL)"

lemma demo_path_accessible: "accessible demo_path_memory (searchPath demo_stack_env) sizeof_searchPath"
  by (auto simp: accessible_iff demo_path_memory_def put_bytes_def sizeof_searchPath_def demo_stack_env_def)

lemma demo_join: "join_path (module_paths demo_stack_env) = ''C:;D:''"
  by (simp add: demo_stack_env_def join_path_def extend_path_def module_directory_def last_backslash_def BACKSLASH_def MAX_PATH_def)

theorem refresh_search_path_witness:
  "\<exists>m'. get_thread_stack_refresh_module_list demo_stack_env demo_state demo_path_memory =
     Some ([Acquire_lock, Snapshot 88, Close_handle 88, Sym_cleanup 77, Sym_initialize 77 (Some ''C:;D:'') True, Release_lock], m') \<and>
     unchanged demo_path_memory m' 50000 32768"
proof -
  have s: "CreateToolhelp32Snapshot demo_stack_env = Some 88" "searchPath demo_stack_env = 50000"
    "SymInitialize demo_stack_env h p" "processHandle demo_state = 77" for h p
    by (simp_all add: demo_stack_env_def demo_state_def)
  have n: "\<forall>p\<in>set (module_paths demo_stack_env). NUL \<notin> set p" by (simp add: demo_stack_env_def BACKSLASH_def)
  show ?thesis
    using refresh_search_path [OF _ s(1) demo_path_accessible n, of demo_state] unfolding demo_join
    by (simp add: s demo_state_def sizeof_searchPath_def) blast
qed

theorem search_path_unterminated_witness:
  "\<exists>(s :: string) m m'. add_directory demo_stack_env (''D:'' @ [BACKSLASH] @ ''b.dll'') (length s, m) = Some (length s + 1, m') \<and>
     m' (searchPath demo_stack_env + length s) = Some (CHR '';'') \<and>
     m' (searchPath demo_stack_env + length s + 1) = m (searchPath demo_stack_env + length s + 1)"
proof -
  let ?s = "replicate 32766 (CHR ''x'')" let ?m = "put_bytes demo_path_memory 50000 (?s @ [NUL])"
  have sp: "searchPath demo_stack_env = 50000" by (simp add: demo_stack_env_def)
  have p: "path_at demo_stack_env ?m ?s"
    using accessible_put [OF demo_path_accessible] bytes_at_put_same [of demo_path_memory 50000 "?s @ [NUL]"]
    unfolding path_at_def sp by simp
  have d: "module_directory (''D:'' @ [BACKSLASH] @ ''b.dll'') = Some ''D:''"
    by (simp add: module_directory_def last_backslash_def BACKSLASH_def MAX_PATH_def)
  have o: "\<not> occurs ''D:'' (replicate n (CHR ''x''))" for n by (induction n) auto
  have "\<exists>m'. add_directory demo_stack_env (''D:'' @ [BACKSLASH] @ ''b.dll'') (length ?s, ?m) = Some (length ?s + 1, m') \<and>
     m' (searchPath demo_stack_env + length ?s) = Some (CHR '';'') \<and>
     m' (searchPath demo_stack_env + length ?s + 1) = ?m (searchPath demo_stack_env + length ?s + 1)"
    by (rule search_path_unterminated [OF p _ d o]) (simp_all add: sizeof_searchPath_def)
  then show ?thesis by blast
qed

theorem strip_pac_recovers_witness:
  "strip_pac (demo_stack_env\<lparr>M_ARM64 := True\<rparr>) (demo_state\<lparr>addressMask := 0x7FFFFFFF\<rparr>) (0x12345678 OR push_bit 48 1) = 0x12345678"
proof -
  let ?W = "demo_stack_env\<lparr>M_ARM64 := True\<rparr>"
  have fm: "fill_mask 0x7FFEFFFF = 0x7FFFFFFF" by code_simp
  have i: "get_thread_stack_init ?W thread_stack_initial =
      (0, [Duplicate_handle (Some 77), Sym_initialize 77 (Some ''C:'') True], demo_state\<lparr>addressMask := 0x7FFFFFFF\<rparr>)"
    by (simp add: get_thread_stack_init_def thread_stack_initial_def demo_stack_env_def Let_def fm demo_state_def
        MAX_PATH_def last_backslash_def BACKSLASH_def)
  have b: "2 ^ n > unat (lpMaximumApplicationAddress ?W)" if "bit (push_bit 48 (1 :: 64 word)) n" for n
  proof -
    have "n = 48" using that unfolding push_bit_of_1 by (simp only: bit_exp_iff)
    then show ?thesis by (simp add: demo_stack_env_def)
  qed
  show ?thesis
    by (rule strip_pac_recovers [OF _ _ i _ _ b])
      (simp_all add: thread_stack_initial_def, simp_all add: demo_stack_env_def std_env_def)
qed

text \<open>An initialisation, and the inspection of a thread that cannot be resumed.\<close>

theorem stack_handles_witness:
  "handle_run [Duplicate_handle (Some 77), Sym_initialize 77 (Some ''C:'') True,
       Open_thread 66, Suspend_thread 66 True, Resume_thread 66 False,
       Stack_print (Printf ''failure (%u) in ResumeThread(hThread=%p)'' [AInt 5, APtr 66])] {#} = Some {#77, 66#}"
proof -
  let ?W = "demo_stack_env\<lparr>ResumeThread := (\<lambda>h. False), GetThreadContext := (\<lambda>h. None)\<rparr>"
  have i: "get_thread_stack_init ?W thread_stack_initial =
      (0, [Duplicate_handle (Some 77), Sym_initialize 77 (Some ''C:'') True], demo_state)"
    by (simp add: get_thread_stack_init_def thread_stack_initial_def demo_stack_env_def Let_def demo_state_def
        MAX_PATH_def last_backslash_def BACKSLASH_def)
  have a: "accessible demo_stack 2000 100" by (rule demo_stack_accessible) simp_all
  let ?m = "put_bytes demo_stack 2000 [NUL]"
  have st: "store_bytes demo_stack 2000 [NUL] = Some ?m"
    by (rule store_bytes_ok) (simp add: accessible_sub [OF a])
  have w: "within 2000 100 ?m ((2000, 100), ?m)" by (rule within_start, rule accessible_put [OF a])
  obtain r where r: "fallback ?W ''%sfailure (GetLastError=%u) in GetThreadContext'' [AStr (separator True), AInt 5] ((2000, 100), ?m) = Some r"
    using fallback_within [OF w] by fastforce
  have s: "get_thread_stack ?W demo_state 3 9 2000 100 demo_stack =
      Some ([Open_thread 66, Suspend_thread 66 True, Resume_thread 66 False,
       Stack_print (Printf ''failure (%u) in ResumeThread(hThread=%p)'' [AInt 5, APtr 66])], snd r)"
    using st r by (simp add: get_thread_stack_def demo_state_def acquire_context_def locked_walk_def end_inspection_def
        demo_stack_env_def)
  from stack_handles [OF stack_run.stack [OF stack_run.init [OF stack_run.start i] s]] show ?thesis
    by (simp add: open_handles_def demo_state_def)
qed

end
