(* ===== verification/Logger_Sinks.thy ===== *)
theory Logger_Sinks
  imports Logger Log_Sink_Etw Get_Thread_Stack
begin

text \<open>
  \<open>logger_sinks_config.c\<close> and the macros of \<open>logger.h\<close>: the three sinks of the library as
  values of the sink interface, the array of the configured ones, the logger on top of the
  thread stack module, and what a log call does in all of them together.  The world of the
  program is a record of the memory, the output, the client the callback acts on, and the
  static variables of the modules.
\<close>

section \<open>The world of the program\<close>

record 'c app =
  memory :: mem
  stdout :: "stdout_call list"
  client :: 'c
  callback :: "'c callback_state"
  etw_state :: LOG_SINK_ETW_STATE
  etw_trace :: "etw_effect list" \<comment> \<open>registrations and events, in order\<close>
  stack_state :: thread_stack
  stack_trace :: "stack_effect list"

text \<open>The libraries the modules use and the options of the build.\<close>

record app_env =
  console_env :: sink_env
  callback_env :: sink_env
  tracelogging :: etw_env
  windows :: stack_env
  logger_state_value :: "LOGGER_STATE \<Rightarrow> int"
  USE_LOG_SINK_CONSOLE :: bool
  USE_LOG_SINK_CALLBACK :: bool
  USE_LOG_SINK_ETW :: bool

definition app_initial :: "mem \<Rightarrow> 'c \<Rightarrow> 'c app" where
  "app_initial m c = \<lparr>memory = m, stdout = [], client = c, callback = callback_state_initial,
     etw_state = LOG_SINK_ETW_STATE_NOT_INITIALIZED, etw_trace = [], stack_state = thread_stack_initial, stack_trace = []\<rparr>"

text \<open>The output of a module is part of the program's output.\<close>

definition etw_printed :: "etw_effect list \<Rightarrow> stdout_call list" where
  "etw_printed out = concat (map (\<lambda>e. case e of Print c \<Rightarrow> [c] | _ \<Rightarrow> []) out)"

definition stack_printed :: "stack_effect list \<Rightarrow> stdout_call list" where
  "stack_printed out = concat (map (\<lambda>e. case e of Stack_print c \<Rightarrow> [c] | _ \<Rightarrow> []) out)"

definition etw_effects :: "etw_effect list \<Rightarrow> 'c app \<Rightarrow> 'c app" where
  "etw_effects out w = w\<lparr>stdout := stdout w @ etw_printed out, etw_trace := etw_trace w @ out\<rparr>"

definition stack_effects :: "stack_effect list \<Rightarrow> 'c app \<Rightarrow> 'c app" where
  "stack_effects out w = w\<lparr>stdout := stdout w @ stack_printed out, stack_trace := stack_trace w @ out\<rparr>"

section \<open>The sinks\<close>

definition log_sink_console :: "sink_env \<Rightarrow> 'c app LOG_SINK_IF" where
  "log_sink_console S =
     \<lparr>sink_init = (\<lambda>w. Some (log_sink_console_init, w)),
      sink_log = (\<lambda>l h file func line f args w.
        map_option (\<lambda>(out, m'). w\<lparr>stdout := stdout w @ out, memory := m'\<rparr>)
          (log_sink_console_log S l h file func line f args (memory w))),
      sink_deinit = (\<lambda>w. w\<lparr>memory := log_sink_console_deinit (memory w)\<rparr>)\<rparr>"

definition log_sink_callback :: "sink_env \<Rightarrow> 'c app LOG_SINK_IF" where
  "log_sink_callback S =
     \<lparr>sink_init = (\<lambda>w. Some (log_sink_callback_init, w)),
      sink_log = (\<lambda>l h file func line f args w.
        map_option (\<lambda>(c', out, m'). w\<lparr>client := c', stdout := stdout w @ out, memory := m'\<rparr>)
          (log_sink_callback_log S (callback w) l h file func line f args (memory w) (client w))),
      sink_deinit = (\<lambda>w. w\<lparr>callback := log_sink_callback_deinit (callback w)\<rparr>)\<rparr>"

definition log_sink_etw :: "etw_env \<Rightarrow> 'c app LOG_SINK_IF" where
  "log_sink_etw X =
     \<lparr>sink_init = (\<lambda>w. map_option (\<lambda>(r, out, s', m'). (r, etw_effects out (w\<lparr>etw_state := s', memory := m'\<rparr>)))
        (log_sink_etw_init X (etw_state w) (memory w))),
      sink_log = (\<lambda>l h file func line f args w.
        map_option (\<lambda>(out, m'). etw_effects out (w\<lparr>memory := m'\<rparr>))
          (log_sink_etw_log X l h file func line f args (memory w))),
      sink_deinit = (\<lambda>w. case log_sink_etw_deinit X (etw_state w) of (out, s') \<Rightarrow> etw_effects out (w\<lparr>etw_state := s'\<rparr>))\<rparr>"

definition all_sinks :: "app_env \<Rightarrow> 'c app LOG_SINK_IF list" where
  "all_sinks A =
     (if USE_LOG_SINK_CONSOLE A then [log_sink_console (console_env A)] else []) @
     (if USE_LOG_SINK_CALLBACK A then [log_sink_callback (callback_env A)] else []) @
     (if USE_LOG_SINK_ETW A then [log_sink_etw (tracelogging A)] else [])"

text \<open>Without any sink the array is \<open>NULL\<close> and its length 0.\<close>

definition configured_sinks :: "app_env \<Rightarrow> 'c app LOG_SINK_IF list option" where
  "configured_sinks A =
     (if USE_LOG_SINK_CONSOLE A \<or> USE_LOG_SINK_CALLBACK A \<or> USE_LOG_SINK_ETW A then Some (all_sinks A) else None)"

definition configured_sink_count :: "app_env \<Rightarrow> nat" where
  "configured_sink_count A = length (all_sinks A :: unit app LOG_SINK_IF list)"

definition app_logger_env :: "app_env \<Rightarrow> 'c app logger_env" where
  "app_logger_env A =
     \<lparr>libc = lib (console_env A),
      printf = (\<lambda>c w. w\<lparr>stdout := stdout w @ [c]\<rparr>),
      stack_init = (\<lambda>w. case get_thread_stack_init (windows A) (stack_state w) of
        (r, out, g) \<Rightarrow> (r, stack_effects out (w\<lparr>stack_state := g\<rparr>))),
      stack_deinit = (\<lambda>w. case get_thread_stack_deinit (windows A) (stack_state w) of
        (out, g) \<Rightarrow> stack_effects out (w\<lparr>stack_state := g\<rparr>)),
      state_value = logger_state_value A\<rparr>"

definition app_logger :: "app_env \<Rightarrow> mem \<Rightarrow> 'c \<Rightarrow> 'c app logger" where
  "app_logger A m c = logger_initial (configured_sink_count A) (configured_sinks A) (app_initial m c)"

section \<open>The log macros\<close>

text \<open>
  \<open>LOGGER_LOG\<close> and \<open>LOGGER_LOG_WITH_CONFIG\<close>: the file, the function and the line are those of
  the call.
\<close>

record call_site =
  site_file :: string
  site_func :: string
  site_line :: int

definition call_at :: "call_site \<Rightarrow> LOG_LEVEL \<Rightarrow> LOG_CONTEXT_HANDLE \<Rightarrow> string \<Rightarrow> carg list \<Rightarrow> log_call" where
  "call_at site l h f args = \<lparr>log_level = l, log_context = h, file_name = Some (site_file site),
     func_name = Some (site_func site), line_no = site_line site, call_format = Some f, format_args = args\<rparr>"

definition LOGGER_LOG ::
    "call_site \<Rightarrow> LOG_LEVEL \<Rightarrow> LOG_CONTEXT_HANDLE \<Rightarrow> string \<Rightarrow> carg list \<Rightarrow> 'w logger \<Rightarrow> failure + 'w logger" where
  "LOGGER_LOG site l h f args s = logger_log (call_at site l h f args) s"

definition LOGGER_LOG_WITH_CONFIG ::
    "'w logger_env \<Rightarrow> (LOG_CONTEXT_HANDLE \<Rightarrow> addr) \<Rightarrow> call_site \<Rightarrow> 'w LOGGER_CONFIG \<Rightarrow> LOG_LEVEL \<Rightarrow> LOG_CONTEXT_HANDLE \<Rightarrow>
     string \<Rightarrow> carg list \<Rightarrow> 'w logger \<Rightarrow> failure + 'w logger" where
  "LOGGER_LOG_WITH_CONFIG L address site cfg l h f args s = logger_log_with_config L address cfg (call_at site l h f args) s"

text \<open>
  \<open>EXPAND_MESSAGE\<close>: the format and the arguments of a message, nothing for a property.  The
  macro is not defined for a wide string and for a name; the expansion is then no C code.
\<close>

fun EXPAND_MESSAGE :: "field_desc \<Rightarrow> (string \<times> carg list) list option" where
  "EXPAND_MESSAGE (LOG_MESSAGE f args) = Some [(f, args)]"
| "EXPAND_MESSAGE (LOG_CONTEXT_PROPERTY v nm) = Some []"
| "EXPAND_MESSAGE (LOG_CONTEXT_PROPERTY_CUSTOM_FUNCTION T nm vf) = Some []"
| "EXPAND_MESSAGE (LOG_CONTEXT_STRING_PROPERTY nm f args) = Some []"
| "EXPAND_MESSAGE _ = None"

text \<open>
  \<open>HAS_ANY_PROPERTIES\<close>: whether anything is left of the arguments when the messages are
  replaced by nothing; what the macro is not defined for stays, and counts.
\<close>

fun HAS_ANY_PROPERTIES :: "field_desc \<Rightarrow> bool" where
  "HAS_ANY_PROPERTIES (LOG_MESSAGE f args) = False"
| "HAS_ANY_PROPERTIES _ = True"

text \<open>The format the arguments have together: the empty one without a message; two messages are no C code.\<close>

fun expand_messages :: "field_desc list \<Rightarrow> (string \<times> carg list) list option" where
  "expand_messages [] = Some []"
| "expand_messages (fd # fds) = do { ms \<leftarrow> EXPAND_MESSAGE fd; ns \<leftarrow> expand_messages fds; Some (ms @ ns) }"

definition the_message :: "field_desc list \<Rightarrow> (string \<times> carg list) option" where
  "the_message fds = (case expand_messages fds of Some [] \<Rightarrow> Some ('''', []) | Some [x] \<Rightarrow> Some x | _ \<Rightarrow> None)"

text \<open>
  \<open>LOGGER_LOG_EX\<close>, \<^term>\<open>None\<close> when the expansion does not compile.  \<open>frame\<close> is the address of
  the values of the context on the stack, \<open>ab\<close> the option \<open>LOG_ABORT_ON_ERROR\<close>.
\<close>

definition LOGGER_LOG_EX ::
    "c_env \<Rightarrow> bool \<Rightarrow> addr \<Rightarrow> call_site \<Rightarrow> LOG_LEVEL \<Rightarrow> field_desc list \<Rightarrow> 'c app logger \<Rightarrow> (failure + 'c app logger) option" where
  "LOGGER_LOG_EX E ab frame site l fds s =
     (case the_message fds of
        None \<Rightarrow> None
      | Some (f, args) \<Rightarrow>
          if list_ex HAS_ANY_PROPERTIES fds then
            if \<not> LOG_CONTEXT_CHECK_VARIABLE_ARGS fds then None
            else Some (case LOG_CONTEXT_LOCAL_DEFINE E ab frame None fds (memory (world s)) of
                         Inl e \<Rightarrow> Inl e
                       | Inr (C, out, m') \<Rightarrow>
                           (case logger_log (call_at site l (Some C) f args)
                              (s\<lparr>world := (world s)\<lparr>stdout := stdout (world s) @ out, memory := m'\<rparr>\<rparr>) of
                              Inl e \<Rightarrow> Inl (printed_before out e)
                            | Inr s' \<Rightarrow> Inr s'))
          else Some (logger_log (call_at site l None f args) s))"


section \<open>The protocol of the sinks\<close>

text \<open>
  The ETW sink is the only one with a state: it is initialised when it is among the sinks
  \<open>j, ..., n - 1\<close>, and it needs its array.
\<close>

definition etw_index :: "app_env \<Rightarrow> nat" where
  "etw_index A = (if USE_LOG_SINK_CONSOLE A then 1 else 0) + (if USE_LOG_SINK_CALLBACK A then 1 else 0)"

definition etw_among :: "app_env \<Rightarrow> nat \<Rightarrow> nat \<Rightarrow> bool" where
  "etw_among A j n \<longleftrightarrow> USE_LOG_SINK_ETW A \<and> j \<le> etw_index A \<and> etw_index A < n"

definition etw_usable :: "app_env \<Rightarrow> mem \<Rightarrow> bool" where
  "etw_usable A m \<longleftrightarrow> (USE_LOG_SINK_ETW A \<longrightarrow>
     accessible m (metadata (tracelogging A)) MAX_METADATA_SIZE \<and> conforming (elib (tracelogging A)))"

definition app_phase :: "app_env \<Rightarrow> nat \<Rightarrow> nat \<Rightarrow> 'c app \<Rightarrow> bool" where
  "app_phase A j n w \<longleftrightarrow> etw_usable A (memory w) \<and>
     etw_state w = (if etw_among A j n then LOG_SINK_ETW_STATE_INITIALIZED else LOG_SINK_ETW_STATE_NOT_INITIALIZED)"

text \<open>What a log call needs: a level of the enumeration, a well-formed context, and the buffers.\<close>

definition well_formed_handle :: "LOG_CONTEXT_HANDLE \<Rightarrow> ptree list \<Rightarrow> mem \<Rightarrow> bool" where
  "well_formed_handle h ts m \<longleftrightarrow> handle_inv prints_anywhere m h ts \<and>
     (\<exists>xs. handle_items prints_anywhere m h ts xs \<and> list_all readable xs) \<and>
     log_context_get_property_value_pair_count h < 65536"

definition buffers_ready :: "app_env \<Rightarrow> LOG_CONTEXT_HANDLE \<Rightarrow> mem \<Rightarrow> bool" where
  "buffers_ready A h m \<longleftrightarrow>
     (USE_LOG_SINK_CONSOLE A \<longrightarrow> sink_ready (console_env A) h m) \<and>
     (USE_LOG_SINK_CALLBACK A \<longrightarrow> sink_ready (callback_env A) h m) \<and>
     (USE_LOG_SINK_ETW A \<longrightarrow> etw_ready (tracelogging A) h m)"

definition app_ok :: "app_env \<Rightarrow> log_call \<Rightarrow> 'c app \<Rightarrow> bool" where
  "app_ok A c w \<longleftrightarrow> log_level c \<in> set LOG_LEVEL_VALUES \<and> (\<exists>ts. well_formed_handle (log_context c) ts (memory w)) \<and>
     buffers_ready A (log_context c) (memory w)"

lemma sink_cases:
  assumes "i < length (all_sinks A :: 'c app LOG_SINK_IF list)"
  obtains
    (console) "USE_LOG_SINK_CONSOLE A" "all_sinks A ! i = (log_sink_console (console_env A) :: 'c app LOG_SINK_IF)" "i < etw_index A"
  | (callback) "USE_LOG_SINK_CALLBACK A" "all_sinks A ! i = (log_sink_callback (callback_env A) :: 'c app LOG_SINK_IF)" "i < etw_index A"
  | (etw) "USE_LOG_SINK_ETW A" "all_sinks A ! i = (log_sink_etw (tracelogging A) :: 'c app LOG_SINK_IF)" "i = etw_index A"
proof -
  from assms have "USE_LOG_SINK_CONSOLE A \<and> all_sinks A ! i = (log_sink_console (console_env A) :: 'c app LOG_SINK_IF) \<and> i < etw_index A \<or>
    USE_LOG_SINK_CALLBACK A \<and> all_sinks A ! i = (log_sink_callback (callback_env A) :: 'c app LOG_SINK_IF) \<and> i < etw_index A \<or>
    USE_LOG_SINK_ETW A \<and> all_sinks A ! i = (log_sink_etw (tracelogging A) :: 'c app LOG_SINK_IF) \<and> i = etw_index A"
    by (cases "USE_LOG_SINK_CONSOLE A"; cases "USE_LOG_SINK_CALLBACK A"; cases "USE_LOG_SINK_ETW A")
      (auto simp: all_sinks_def etw_index_def less_Suc_eq)
  with that show thesis by blast
qed

lemma etw_among_after:
  "i < etw_index A \<Longrightarrow> etw_among A j (Suc i) \<longleftrightarrow> etw_among A j i"
  "i < etw_index A \<Longrightarrow> etw_among A (Suc i) n \<longleftrightarrow> etw_among A i n"
  by (auto simp: etw_among_def)

lemma sink_ready_unchanged: "sink_ready S h m \<Longrightarrow> keeps_accessible m m' \<Longrightarrow> sink_ready S h m'"
  by (auto simp: sink_ready_def intro: keeps_accessibleD)

lemma buffers_ready_unchanged: "buffers_ready A h m \<Longrightarrow> keeps_accessible m m' \<Longrightarrow> buffers_ready A h m'"
  by (auto simp: buffers_ready_def etw_ready_def intro: sink_ready_unchanged keeps_accessibleD)

lemma etw_usable_unchanged: "etw_usable A m \<Longrightarrow> keeps_accessible m m' \<Longrightarrow> etw_usable A m'"
  by (auto simp: etw_usable_def intro: keeps_accessibleD)

lemma well_formed_handle_unchanged:
  "well_formed_handle h ts m \<Longrightarrow> unchanged m m' p n \<Longrightarrow> apart h p n \<Longrightarrow> well_formed_handle h ts m'"
  unfolding well_formed_handle_def by (blast intro: handle_inv_unchanged handle_items_unchanged)

lemma app_ok_unchanged:
  assumes "app_ok A c w" "unchanged (memory w) (memory w') p n" "apart (log_context c) p n" "keeps_accessible (memory w) (memory w')"
  shows "app_ok A c w'"
  using assms unfolding app_ok_def by (blast intro: well_formed_handle_unchanged buffers_ready_unchanged)

text \<open>The bytes a log call may write: the buffers of the configured sinks.\<close>

definition sink_buffers :: "app_env \<Rightarrow> addr set" where
  "sink_buffers A =
     (if USE_LOG_SINK_CONSOLE A then {temp (console_env A)..<temp (console_env A) + LOG_MAX_MESSAGE_LENGTH} else {}) \<union>
     (if USE_LOG_SINK_CALLBACK A then {temp (callback_env A)..<temp (callback_env A) + LOG_MAX_MESSAGE_LENGTH} else {}) \<union>
     (if USE_LOG_SINK_ETW A then {metadata (tracelogging A)..<metadata (tracelogging A) + MAX_METADATA_SIZE} else {})"

definition writes_buffers :: "app_env \<Rightarrow> mem \<Rightarrow> mem \<Rightarrow> bool" where
  "writes_buffers A m m' \<longleftrightarrow> (\<forall>a. a \<notin> sink_buffers A \<longrightarrow> m' a = m a) \<and> keeps_accessible m m'"

lemma writes_buffers_refl: "writes_buffers A m m"
  by (simp add: writes_buffers_def)

lemma writes_buffers_trans: "writes_buffers A m m1 \<Longrightarrow> writes_buffers A m1 m2 \<Longrightarrow> writes_buffers A m m2"
  unfolding writes_buffers_def by (auto intro: keeps_accessible_trans)

lemma writes_buffers_unchanged:
  "unchanged m m' p k \<Longrightarrow> {p..<p + k} \<subseteq> sink_buffers A \<Longrightarrow> keeps_accessible m m' \<Longrightarrow> writes_buffers A m m'"
  unfolding writes_buffers_def unchanged_def by (meson atLeastLessThan_iff not_less subsetD)

lemma app_log_memory:
  assumes "i < length (all_sinks A :: 'c app LOG_SINK_IF list)" "app_ok A c w"
  shows "\<exists>w' p k. call_sink c (all_sinks A ! i) w = Some (w' :: 'c app) \<and> etw_state w' = etw_state w \<and>
     unchanged (memory w) (memory w') p k \<and> {p..<p + k} \<subseteq> sink_buffers A \<and> apart (log_context c) p k \<and>
     keeps_accessible (memory w) (memory w')"
proof -
  let ?h = "log_context c" and ?m = "memory w"
  from assms(2) obtain ts where ts: "well_formed_handle ?h ts ?m" "buffers_ready A ?h ?m" "log_level c \<in> set LOG_LEVEL_VALUES"
    by (auto simp: app_ok_def)
  show ?thesis using assms(1)
  proof (cases rule: sink_cases)
    case console
    then have r: "sink_ready (console_env A) ?h ?m" using ts(2) by (simp add: buffers_ready_def)
    obtain out m' where "log_sink_console_log (console_env A) (log_level c) ?h (file_name c) (func_name c) (line_no c)
        (call_format c) (format_args c) ?m = Some (out, m')"
      "unchanged ?m m' (temp (console_env A)) LOG_MAX_MESSAGE_LENGTH" "keeps_accessible ?m m'"
      using console_returns [OF r ts(3)] ts(1) unfolding well_formed_handle_def by blast
    with console r show ?thesis
      by (intro exI [of _ "w\<lparr>stdout := stdout w @ out, memory := m'\<rparr>"] exI [of _ "temp (console_env A)"]
          exI [of _ LOG_MAX_MESSAGE_LENGTH]) (auto simp: call_sink_def log_sink_console_def sink_ready_def sink_buffers_def)
  next
    case callback
    then have r: "sink_ready (callback_env A) ?h ?m" using ts(2) by (simp add: buffers_ready_def)
    obtain c' m' where "log_sink_callback_log (callback_env A) (callback w) (log_level c) ?h (file_name c) (func_name c) (line_no c)
        (call_format c) (format_args c) ?m (client w) = Some (c', [], m')"
      "unchanged ?m m' (temp (callback_env A)) LOG_MAX_MESSAGE_LENGTH" "keeps_accessible ?m m'"
      using callback_returns [OF r] ts(1) unfolding well_formed_handle_def by metis
    with callback r show ?thesis
      by (intro exI [of _ "w\<lparr>client := c', memory := m'\<rparr>"] exI [of _ "temp (callback_env A)"]
          exI [of _ LOG_MAX_MESSAGE_LENGTH]) (auto simp: call_sink_def log_sink_callback_def sink_ready_def sink_buffers_def)
  next
    case etw
    then have r: "etw_ready (tracelogging A) ?h ?m" using ts(2) by (simp add: buffers_ready_def)
    obtain out m' where "log_sink_etw_log (tracelogging A) (log_level c) ?h (file_name c) (func_name c) (line_no c)
        (call_format c) (format_args c) ?m = Some (out, m')"
      "unchanged ?m m' (metadata (tracelogging A)) MAX_METADATA_SIZE" "keeps_accessible ?m m'"
      using etw_log_returns [OF r] ts(1) unfolding well_formed_handle_def by metis
    with etw r show ?thesis
      by (intro exI [of _ "etw_effects out (w\<lparr>memory := m'\<rparr>)"] exI [of _ "metadata (tracelogging A)"]
          exI [of _ MAX_METADATA_SIZE]) (auto simp: call_sink_def log_sink_etw_def etw_effects_def etw_ready_def sink_buffers_def)
  qed
qed

lemma app_log_phase:
  assumes "i < length (all_sinks A :: 'c app LOG_SINK_IF list)" "app_phase A j n w" "app_ok A c w"
  shows "\<exists>w'. call_sink c (all_sinks A ! i) w = Some (w' :: 'c app) \<and> app_phase A j n w' \<and> app_ok A c w' \<and>
     writes_buffers A (memory w) (memory w')"
proof -
  obtain w' p k where w': "call_sink c (all_sinks A ! i) w = Some w'" "etw_state w' = etw_state w"
    "unchanged (memory w) (memory w') p k" "{p..<p + k} \<subseteq> sink_buffers A" "apart (log_context c) p k"
    "keeps_accessible (memory w) (memory w')"
    using app_log_memory [OF assms(1,3)] by blast
  have "app_phase A j n w'" using assms(2) w'(2) etw_usable_unchanged [OF _ w'(6)] by (auto simp: app_phase_def)
  with w'(1) app_ok_unchanged [OF assms(3) w'(3,5,6)] writes_buffers_unchanged [OF w'(3,4,6)] show ?thesis by blast
qed


lemma app_init_phase:
  assumes "i < length (all_sinks A :: 'c app LOG_SINK_IF list)" "app_phase A 0 i w"
  shows "\<exists>r w'. sink_init (all_sinks A ! i) w = Some (r, w' :: 'c app) \<and> app_phase A 0 (if r = 0 then Suc i else i) w'"
  using assms(1)
proof (cases rule: sink_cases)
  case etw
  from assms(2) etw have s: "etw_state w = LOG_SINK_ETW_STATE_NOT_INITIALIZED"
    and u: "etw_usable A (memory w)" "accessible (memory w) (metadata (tracelogging A)) MAX_METADATA_SIZE"
      "MU_FAILURE (elib (tracelogging A)) \<noteq> 0"
    by (auto simp: app_phase_def etw_among_def etw_usable_def conforming_def)
  obtain r out s' m' where "log_sink_etw_init (tracelogging A) (etw_state w) (memory w) = Some (r, out, s', m')"
    "keeps_accessible (memory w) m'"
    "s' = (if r = 0 then LOG_SINK_ETW_STATE_INITIALIZED else LOG_SINK_ETW_STATE_NOT_INITIALIZED)"
    using etw_init_returns [OF u(2), of "etw_state w"] u(3) s by metis
  with etw u(1) show ?thesis
    by (auto simp: log_sink_etw_def app_phase_def etw_effects_def etw_among_def intro: etw_usable_unchanged)
qed (use assms(2) in \<open>auto simp: log_sink_console_def log_sink_callback_def log_sink_console_init_def
    log_sink_callback_init_def app_phase_def etw_among_after\<close>)

lemma app_deinit_phase:
  assumes "j < length (all_sinks A :: 'c app LOG_SINK_IF list)" "j < n" "app_phase A j n w"
  shows "app_phase A (Suc j) n (sink_deinit (all_sinks A ! j) (w :: 'c app))"
  using assms(1)
proof (cases rule: sink_cases)
  case etw
  with assms(2,3) show ?thesis
    by (auto simp: log_sink_etw_def app_phase_def etw_effects_def etw_among_def log_sink_etw_deinit_def)
qed (use assms(3) in \<open>auto simp: log_sink_console_def log_sink_callback_def log_sink_console_deinit_def
    log_sink_callback_deinit_def app_phase_def etw_among_after\<close>)

interpretation app: sink_protocol "app_logger_env A" "all_sinks A" "app_phase A" "app_ok A" for A
proof unfold_locales
  fix i w
  assume "i < length (all_sinks A :: 'a app LOG_SINK_IF list)" "app_phase A 0 i (w :: 'a app)"
  then show "\<exists>r w'. sink_init (all_sinks A ! i) w = Some (r, w') \<and> app_phase A 0 (if r = 0 then Suc i else i) w'"
    by (rule app_init_phase)
next
  fix j n w
  assume "j < n" "n \<le> length (all_sinks A :: 'a app LOG_SINK_IF list)" "app_phase A j n (w :: 'a app)"
  then show "app_phase A (Suc j) n (sink_deinit (all_sinks A ! j) w)" by (intro app_deinit_phase) auto
next
  fix i w c
  assume "i < length (all_sinks A :: 'a app LOG_SINK_IF list)" "app_phase A 0 (length (all_sinks A :: 'a app LOG_SINK_IF list)) w"
    "app_ok A c (w :: 'a app)"
  then show "\<exists>w'. call_sink c (all_sinks A ! i) w = Some w' \<and>
      app_phase A 0 (length (all_sinks A :: 'a app LOG_SINK_IF list)) w' \<and> app_ok A c w'"
    using app_log_phase by blast
qed (auto simp: app_phase_def etw_among_def app_logger_env_def stack_effects_def split: prod.splits)

text \<open>
  The same contract when the client also wants to know what a log call does to its memory: since
  \<open>m0\<close> only the buffers have been written.
\<close>

interpretation framed: sink_protocol "app_logger_env A" "all_sinks A" "app_phase A"
    "\<lambda>c w. app_ok A c w \<and> writes_buffers A m0 (memory w)" for A m0
proof unfold_locales
  fix i w c
  assume "i < length (all_sinks A :: 'a app LOG_SINK_IF list)" "app_phase A 0 (length (all_sinks A :: 'a app LOG_SINK_IF list)) w"
    "app_ok A c (w :: 'a app) \<and> writes_buffers A m0 (memory w)"
  then show "\<exists>w'. call_sink c (all_sinks A ! i) w = Some w' \<and>
      app_phase A 0 (length (all_sinks A :: 'a app LOG_SINK_IF list)) w' \<and> app_ok A c w' \<and> writes_buffers A m0 (memory w')"
    using app_log_phase writes_buffers_trans by blast
qed (fact app.init_phase app.deinit_phase app.empty_phase app.printf_phase app.stack_init_phase app.stack_deinit_phase)+


section \<open>Runs of a program\<close>

text \<open>
  What a program does with the library, on one thread: it initialises and deinitialises the
  logger as often as it wants, logs while the logger is initialised and with well-formed
  contexts, and between the calls does what it wants with its own memory, its callback and
  its client, but leaves the ETW sink alone.
\<close>

inductive app_run :: "app_env \<Rightarrow> 'c app logger \<Rightarrow> bool" for A where
  start: "app_run A (app_logger A m c)" if "etw_usable A m"
| init: "app_run A s'" if "app_run A s" "logger_init (app_logger_env A) s = Inr (r, s')"
| deinit: "app_run A s'" if "app_run A s" "logger_deinit (app_logger_env A) s = Inr s'"
| log: "app_run A s'" if "app_run A s" "app_ok A c (world s)" "logger_log c s = Inr s'"
| own: "app_run A (s\<lparr>world := w\<rparr>)" if "app_run A s" "etw_usable A (memory w)" "etw_state w = etw_state (world s)"

lemma length_all_sinks: "length (all_sinks A) = configured_sink_count A"
  by (simp add: all_sinks_def configured_sink_count_def)

lemma app_run_inv:
  assumes "app_run A (s :: 'c app logger)" "USE_LOG_SINK_CONSOLE A \<or> USE_LOG_SINK_CALLBACK A \<or> USE_LOG_SINK_ETW A"
  shows "app.logger_inv A s"
  using assms(1)
proof (induction rule: app_run.induct)
  case (start m c)
  have "configured_sinks A = Some (all_sinks A :: 'c app LOG_SINK_IF list)" using assms(2) by (simp add: configured_sinks_def)
  moreover from start have "app_phase A 0 0 (app_initial m c)" by (simp add: app_phase_def app_initial_def etw_among_def)
  ultimately show ?case
    using app.logger_initial_inv [of A "app_initial m c"] by (simp add: app_logger_def length_all_sinks)
next
  case (init s r s')
  then show ?case using app.logger_init_inv [of A s] by auto
next
  case (deinit s s')
  then show ?case using app.logger_deinit_inv [of A s] by auto
next
  case (log s c s')
  then have "logger_state s = LOGGER_STATE_INITIALIZED" by (auto simp: logger_log_def split: if_splits)
  with log app.logger_log_inv [of A s c] show ?case by auto
next
  case (own s w)
  then show ?case unfolding app.logger_inv_def by (auto simp: app_phase_def)
qed

text \<open>
  C1: A program that uses the logger with the sinks of the library as above never runs into
  undefined behaviour, whatever sinks are configured and whichever initialisations fail: in
  every state it can reach, \<open>logger_init\<close> and \<open>logger_deinit\<close> return, and so does every log
  call with a well-formed context while the logger is initialised; and the ETW sink is
  initialised exactly while it is configured and the logger is initialised.
\<close>
theorem program_defined:
  assumes "app_run A s" "USE_LOG_SINK_CONSOLE A \<or> USE_LOG_SINK_CALLBACK A \<or> USE_LOG_SINK_ETW A"
  shows "(\<exists>r s'. logger_init (app_logger_env A) s = Inr (r, s')) \<and> (\<exists>s'. logger_deinit (app_logger_env A) s = Inr s') \<and>
    (\<forall>c. logger_state s = LOGGER_STATE_INITIALIZED \<and> app_ok A c (world s) \<longrightarrow> (\<exists>s'. logger_log c s = Inr s')) \<and>
    (etw_state (world s) = LOG_SINK_ETW_STATE_INITIALIZED \<longleftrightarrow>
       USE_LOG_SINK_ETW A \<and> logger_state s = LOGGER_STATE_INITIALIZED)"
proof -
  have inv: "app.logger_inv A s" by (rule app_run_inv [OF assms])
  have "etw_among A 0 (length (all_sinks A)) \<longleftrightarrow> USE_LOG_SINK_ETW A"
    by (simp add: etw_among_def etw_index_def all_sinks_def)
  with inv have "etw_state (world s) = LOG_SINK_ETW_STATE_INITIALIZED \<longleftrightarrow>
       USE_LOG_SINK_ETW A \<and> logger_state s = LOGGER_STATE_INITIALIZED"
    unfolding app.logger_inv_def by (auto simp: app_phase_def etw_among_def)
  with app.logger_init_inv [OF inv] app.logger_deinit_inv [OF inv] app.logger_log_inv [OF inv] show ?thesis by blast
qed


section \<open>One log call in all sinks\<close>

text \<open>What a line needs to be printed: the message formats, and neither it nor the header is too long.\<close>

definition line_prints :: "c_env \<Rightarrow> string \<Rightarrow> LOG_CONTEXT_HANDLE \<Rightarrow> ptree list \<Rightarrow> string \<Rightarrow> carg list \<Rightarrow> string \<Rightarrow> bool" where
  "line_prints E header h ts f args msg \<longleftrightarrow> fmt E f args = Some msg \<and> int (length msg) \<le> INT_MAX \<and>
     int (length header) \<le> INT_MAX \<and> (h \<noteq> None \<longrightarrow> length header < LOG_MAX_MESSAGE_LENGTH) \<and>
     NUL \<notin> set (header @ render ts @ '' '' @ msg)"

definition line_text :: "string \<Rightarrow> ptree list \<Rightarrow> string \<Rightarrow> string" where
  "line_text header ts msg = take 4095 (header @ render ts @ '' '' @ msg)"

text \<open>The line of a call on the console and for the callback.\<close>

definition console_text :: "app_env \<Rightarrow> log_call \<Rightarrow> ptree list \<Rightarrow> string \<Rightarrow> string" where
  "console_text A c ts msg =
     line_text (console_header (console_env A) (log_level c) (file_name c) (func_name c) (line_no c)) ts msg"

definition callback_text :: "app_env \<Rightarrow> log_call \<Rightarrow> ptree list \<Rightarrow> string \<Rightarrow> string" where
  "callback_text A c ts msg = line_text (callback_header (callback_env A) (file_name c) (func_name c) (line_no c)) ts msg"

definition call_prints :: "app_env \<Rightarrow> log_call \<Rightarrow> ptree list \<Rightarrow> string \<Rightarrow> bool" where
  "call_prints A c ts msg \<longleftrightarrow> (\<exists>f. call_format c = Some f \<and>
     (USE_LOG_SINK_CONSOLE A \<longrightarrow> line_prints (lib (console_env A))
        (console_header (console_env A) (log_level c) (file_name c) (func_name c) (line_no c)) (log_context c) ts f (format_args c) msg) \<and>
     (USE_LOG_SINK_CALLBACK A \<longrightarrow> line_prints (lib (callback_env A))
        (callback_header (callback_env A) (file_name c) (func_name c) (line_no c)) (log_context c) ts f (format_args c) msg))"

definition console_output :: "app_env \<Rightarrow> log_call \<Rightarrow> ptree list \<Rightarrow> string \<Rightarrow> stdout_call list" where
  "console_output A c ts msg = (if USE_LOG_SINK_CONSOLE A then [Printf (''%s%s'' @ CRLF)
     [AStr (console_text A c ts msg), AStr LOG_SINK_CONSOLE_ANSI_COLOR_RESET]] else [])"

definition client_after :: "app_env \<Rightarrow> log_call \<Rightarrow> ptree list \<Rightarrow> string \<Rightarrow> 'c callback_state \<Rightarrow> 'c \<Rightarrow> 'c" where
  "client_after A c ts msg cb x = (if USE_LOG_SINK_CALLBACK A \<and> log_level c \<le> log_sink_callback_max_level cb
     then call_back cb (log_level c) (callback_text A c ts msg) x else x)"

lemma log_run_append: "log_run c (xs @ ys) w = Option.bind (log_run c xs w) (log_run c ys)"
  by (induction xs arbitrary: w) (auto split: Option.bind_splits)

definition context_kept :: "app_env \<Rightarrow> log_call \<Rightarrow> ptree list \<Rightarrow> mem \<Rightarrow> bool" where
  "context_kept A c ts m \<longleftrightarrow> log_level c \<in> set LOG_LEVEL_VALUES \<and> well_formed_handle (log_context c) ts m \<and>
     buffers_ready A (log_context c) m"

lemma context_kept_unchanged:
  "context_kept A c ts m \<Longrightarrow> unchanged m m' p n \<Longrightarrow> apart (log_context c) p n \<Longrightarrow> keeps_accessible m m' \<Longrightarrow> context_kept A c ts m'"
  unfolding context_kept_def by (blast intro: well_formed_handle_unchanged buffers_ready_unchanged)

lemma console_part:
  assumes "context_kept A c ts (memory w)" "call_prints A c ts msg"
  shows "\<exists>m'. log_run c (if USE_LOG_SINK_CONSOLE A then [log_sink_console (console_env A)] else []) w =
     Some (w\<lparr>stdout := stdout w @ console_output A c ts msg, memory := m'\<rparr>) \<and> context_kept A c ts m' \<and>
     writes_buffers A (memory w) m'"
proof (cases "USE_LOG_SINK_CONSOLE A")
  case True
  with assms obtain f where f: "call_format c = Some f"
    and r: "sink_ready (console_env A) (log_context c) (memory w)" "handle_inv prints_anywhere (memory w) (log_context c) ts"
    and p: "line_prints (lib (console_env A)) (console_header (console_env A) (log_level c) (file_name c) (func_name c) (line_no c))
        (log_context c) ts f (format_args c) msg" "log_level c \<in> set LOG_LEVEL_VALUES"
    by (auto simp: context_kept_def call_prints_def buffers_ready_def well_formed_handle_def)
  from console_prints_line [OF r(1) p(2) r(2)] p(1) obtain m' where
    "log_sink_console_log (console_env A) (log_level c) (log_context c) (file_name c) (func_name c) (line_no c) (Some f)
       (format_args c) (memory w) = Some ([Printf (''%s%s'' @ CRLF)
        [AStr (console_text A c ts msg), AStr LOG_SINK_CONSOLE_ANSI_COLOR_RESET]], m')"
    "unchanged (memory w) m' (temp (console_env A)) LOG_MAX_MESSAGE_LENGTH" "keeps_accessible (memory w) m'"
    unfolding line_prints_def console_text_def line_text_def by metis
  with True f r(1) show ?thesis
    by (auto simp: call_sink_def log_sink_console_def console_output_def sink_ready_def sink_buffers_def
        intro!: context_kept_unchanged [OF assms(1)] writes_buffers_unchanged)
next
  case False
  then show ?thesis using assms(1)
    by (intro exI [of _ "memory w"]) (simp add: console_output_def client_after_def writes_buffers_refl)
qed

lemma callback_part:
  assumes "context_kept A c ts (memory w)" "call_prints A c ts msg"
  shows "\<exists>m'. log_run c (if USE_LOG_SINK_CALLBACK A then [log_sink_callback (callback_env A)] else []) w =
     Some (w\<lparr>client := client_after A c ts msg (callback w) (client w), memory := m'\<rparr>) \<and> context_kept A c ts m' \<and>
     writes_buffers A (memory w) m'"
proof (cases "USE_LOG_SINK_CALLBACK A")
  case True
  with assms obtain f where f: "call_format c = Some f"
    and r: "sink_ready (callback_env A) (log_context c) (memory w)" "handle_inv prints_anywhere (memory w) (log_context c) ts"
    and p: "line_prints (lib (callback_env A)) (callback_header (callback_env A) (file_name c) (func_name c) (line_no c))
        (log_context c) ts f (format_args c) msg"
    by (auto simp: context_kept_def call_prints_def buffers_ready_def well_formed_handle_def)
  have l: "if log_level c \<le> log_sink_callback_max_level (callback w) then
      \<exists>m'. log_sink_callback_log (callback_env A) (callback w) (log_level c) (log_context c) (file_name c) (func_name c)
         (line_no c) (Some f) (format_args c) (memory w) (client w) =
       Some (call_back (callback w) (log_level c) (callback_text A c ts msg) (client w), [], m') \<and>
       unchanged (memory w) m' (temp (callback_env A)) LOG_MAX_MESSAGE_LENGTH \<and> keeps_accessible (memory w) m'
     else log_sink_callback_log (callback_env A) (callback w) (log_level c) (log_context c) (file_name c) (func_name c)
         (line_no c) (Some f) (format_args c) (memory w) (client w) = Some (client w, [], memory w)"
    unfolding callback_text_def line_text_def
    by (rule callback_calls_line [OF r]) (use p in \<open>auto simp: line_prints_def\<close>)
  show ?thesis
  proof (cases "log_level c \<le> log_sink_callback_max_level (callback w)")
    case le: True
    with l True f r(1) show ?thesis
      by (auto simp: call_sink_def log_sink_callback_def client_after_def sink_ready_def sink_buffers_def
          intro!: context_kept_unchanged [OF assms(1)] writes_buffers_unchanged)
  next
    case False
    with l True f assms(1) show ?thesis
      by (intro exI [of _ "memory w"]) (simp add: call_sink_def log_sink_callback_def client_after_def writes_buffers_refl)
  qed
next
  case False
  then show ?thesis using assms(1)
    by (intro exI [of _ "memory w"]) (simp add: console_output_def client_after_def writes_buffers_refl)
qed

text \<open>
  \<open>etw_logged A c ts m out m'\<close>: the effects \<open>out\<close> and the memory \<open>m'\<close> are those of exactly one
  call of the ETW sink's log function for the call \<open>c\<close>, in a memory that differs from \<open>m\<close> only
  in buffers of sinks and still holds the context; they have exactly one event, with the level of the call, when the provider
  is enabled for it and its library formats the message, and none otherwise.
  Without the sink there are no effects.
\<close>

definition one_event :: "app_env \<Rightarrow> log_call \<Rightarrow> etw_effect list \<Rightarrow> bool" where
  "one_event A c out \<longleftrightarrow>
     (\<forall>f ev lv. call_format c = Some f \<longrightarrow> documented_kind (log_level c) = (ev, lv) \<longrightarrow>
        event_levels out =
          (if trace (tracelogging A) lv < LevelPlus1 (tracelogging A) \<and> formatted (elib (tracelogging A)) f (format_args c) \<noteq> None
           then [trace (tracelogging A) lv] else []))"

definition etw_logged :: "app_env \<Rightarrow> log_call \<Rightarrow> ptree list \<Rightarrow> mem \<Rightarrow> etw_effect list \<Rightarrow> mem \<Rightarrow> bool" where
  "etw_logged A c ts m out m' \<longleftrightarrow>
     (if USE_LOG_SINK_ETW A then
        (\<exists>m1. writes_buffers A m m1 \<and> well_formed_handle (log_context c) ts m1 \<and>
          log_sink_etw_log (tracelogging A) (log_level c) (log_context c) (file_name c) (func_name c) (line_no c)
            (call_format c) (format_args c) m1 = Some (out, m')) \<and>
        one_event A c out
      else out = [])"

lemma etw_logged_before: "writes_buffers A m m1 \<Longrightarrow> etw_logged A c ts m1 out m' \<Longrightarrow> etw_logged A c ts m out m'"
  unfolding etw_logged_def by (simp split: if_splits) (blast intro: writes_buffers_trans)

lemma etw_part:
  assumes "context_kept A c ts (memory w)"
  shows "\<exists>out m'. log_run c (if USE_LOG_SINK_ETW A then [log_sink_etw (tracelogging A)] else []) w =
     Some (etw_effects out (w\<lparr>memory := m'\<rparr>)) \<and> quiet out \<and> etw_logged A c ts (memory w) out m' \<and>
     context_kept A c ts m' \<and> writes_buffers A (memory w) m'"
proof (cases "USE_LOG_SINK_ETW A")
  case True
  let ?X = "tracelogging A"
  from True assms have r: "etw_ready ?X (log_context c) (memory w)" and wf: "well_formed_handle (log_context c) ts (memory w)"
    by (auto simp: context_kept_def buffers_ready_def)
  obtain xs where xs: "handle_items prints_anywhere (memory w) (log_context c) ts xs" "list_all readable xs"
    "log_context_get_property_value_pair_count (log_context c) < 65536"
    using wf by (auto simp: well_formed_handle_def)
  obtain out m' where o: "log_sink_etw_log ?X (log_level c) (log_context c) (file_name c) (func_name c) (line_no c)
      (call_format c) (format_args c) (memory w) = Some (out, m')"
    "unchanged (memory w) m' (metadata ?X) MAX_METADATA_SIZE" "keeps_accessible (memory w) m'"
    using etw_log_returns [OF r xs] by metis
  have "writes_buffers A (memory w) m'"
    using o(2,3) True by (auto simp: sink_buffers_def intro!: writes_buffers_unchanged)
  moreover have "etw_logged A c ts (memory w) out m'"
    using True o(1) wf writes_buffers_refl etw_log_levels [OF r xs]
    unfolding etw_logged_def one_event_def by (simp, metis)
  moreover have "context_kept A c ts m'"
    using r by (intro context_kept_unchanged [OF assms o(2) _ o(3)]) (simp add: etw_ready_def)
  ultimately show ?thesis
    using True o(1) log_quiet [OF o(1)] by (auto simp: call_sink_def log_sink_etw_def)
next
  case False
  then show ?thesis using assms(1)
    by (intro exI [of _ "[]"] exI [of _ "memory w"])
      (simp add: etw_effects_def etw_printed_def quiet_def etw_logged_def writes_buffers_refl)
qed


text \<open>A logger that is initialised with the configured sinks.\<close>

definition running :: "app_env \<Rightarrow> 'c app logger \<Rightarrow> bool" where
  "running A s \<longleftrightarrow> logger_state s = LOGGER_STATE_INITIALIZED \<and> log_sinks s = Some (all_sinks A) \<and>
     log_sink_count s = configured_sink_count A"

text \<open>
  \<open>logged A c ts msg w w'\<close>: what a log call has done to the world: one line on the console, one
  call of the callback if its level admits it, one call of the ETW sink, and no other change than in the
  bytes of the buffers.
\<close>

definition logged :: "app_env \<Rightarrow> log_call \<Rightarrow> ptree list \<Rightarrow> string \<Rightarrow> 'c app \<Rightarrow> 'c app \<Rightarrow> bool" where
  "logged A c ts msg w w' \<longleftrightarrow> (\<exists>out m'. quiet out \<and> etw_logged A c ts (memory w) out m' \<and>
     w' = w\<lparr>stdout := stdout w @ console_output A c ts msg @ etw_printed out,
            client := client_after A c ts msg (callback w) (client w),
            etw_trace := etw_trace w @ out, memory := m'\<rparr> \<and>
     writes_buffers A (memory w) m' \<and> well_formed_handle (log_context c) ts m')"

lemma log_in_all_sinks:
  assumes "running A s" "context_kept A c ts (memory (world s))" "call_prints A c ts msg"
  shows "\<exists>w'. logger_log c s = Inr (s\<lparr>world := w'\<rparr>) \<and> logged A c ts msg (world s) w'"
proof -
  let ?w = "world s"
  let ?w1 = "\<lambda>m. ?w\<lparr>stdout := stdout ?w @ console_output A c ts msg, memory := m\<rparr>"
  let ?w2 = "\<lambda>m. ?w\<lparr>stdout := stdout ?w @ console_output A c ts msg,
    client := client_after A c ts msg (callback ?w) (client ?w), memory := m\<rparr>"
  obtain m1 where 1: "log_run c (if USE_LOG_SINK_CONSOLE A then [log_sink_console (console_env A)] else []) ?w = Some (?w1 m1)"
    "context_kept A c ts m1" "writes_buffers A (memory ?w) m1" using console_part [OF assms(2,3)] by blast
  obtain m2 where 2: "log_run c (if USE_LOG_SINK_CALLBACK A then [log_sink_callback (callback_env A)] else []) (?w1 m1) = Some (?w2 m2)"
    "context_kept A c ts m2" "writes_buffers A m1 m2" using callback_part [of A c ts "?w1 m1" msg] 1(2) assms(3) by auto
  have b: "writes_buffers A (memory ?w) m2" using 1(3) 2(3) by (rule writes_buffers_trans)
  obtain out m3 where
    3: "log_run c (if USE_LOG_SINK_ETW A then [log_sink_etw (tracelogging A)] else []) (?w2 m2) = Some (etw_effects out (?w2 m3))"
      "quiet out" "etw_logged A c ts m2 out m3" "context_kept A c ts m3" "writes_buffers A m2 m3"
    using etw_part [of A c ts "?w2 m2"] 2(2) by auto
  have "log_run c (all_sinks A) ?w = Some (etw_effects out (?w2 m3))"
    unfolding all_sinks_def log_run_append 1(1) Option.bind.bind_lunit 2(1) 3(1) ..
  then have "log_to_sinks c (Some (all_sinks A)) (length (all_sinks A :: 'a app LOG_SINK_IF list)) 0 ?w =
      Some (etw_effects out (?w2 m3))"
    by (subst log_to_sinks_run) simp_all
  then have "logger_log c s = Inr (s\<lparr>world := etw_effects out (?w2 m3)\<rparr>)"
    using assms(1) by (simp add: logger_log_def running_def length_all_sinks)
  moreover have "logged A c ts msg ?w (etw_effects out (?w2 m3))"
    unfolding logged_def using 3 etw_logged_before [OF b 3(3)] writes_buffers_trans [OF b 3(5)]
    by (intro exI [of _ out] exI [of _ m3]) (simp add: etw_effects_def context_kept_def)
  ultimately show ?thesis by blast
qed


text \<open>
  C18: A log call on an initialised logger reaches every configured sink once: with a
  well-formed context (or none) and a message that formats, the console gets one line with
  the level, time, place, rendering of the context and message, and the callback is called once
  with the same rendering and message when its maximum level admits it.  The effects of ETW
  are those of exactly one call of its sink for this call and context: one event with the level
  of the call when the provider is enabled for it and its library formats the message, and no
  event otherwise.  Nothing else of the program changes but the bytes of the buffers of the
  configured sinks; the context stays well formed.
\<close>
theorem log_reaches_sinks:
  assumes "running A s" "log_level c \<in> set LOG_LEVEL_VALUES" "well_formed_handle (log_context c) ts (memory (world s))"
    and "buffers_ready A (log_context c) (memory (world s))" "call_prints A c ts msg"
  shows "\<exists>w'. logger_log c s = Inr (s\<lparr>world := w'\<rparr>) \<and> logged A c ts msg (world s) w'"
  using log_in_all_sinks [of A s c ts msg] assms by (simp add: context_kept_def)

section \<open>From the macro to the sinks\<close>

text \<open>Values that print and that the ETW sink can read, at the size of their type.\<close>

definition sink_law :: print_law where
  "sink_law T bs s \<longleftrightarrow> prints_anywhere T bs s \<and> readable ('''', T, bs)"

lemma shape_mono: "shape P ts xs \<Longrightarrow> (\<And>T bs s. P T bs s \<Longrightarrow> Q T bs s) \<Longrightarrow> shape Q ts xs"
  by (induction rule: shape.induct) (auto intro: shape.intros)

lemma shape_readable: "shape sink_law ts xs \<Longrightarrow> list_all readable xs"
  by (induction rule: shape.induct) (auto simp: sink_law_def readable_def)

lemma readable_shape: "shape prints_anywhere ts xs \<Longrightarrow> list_all readable xs \<Longrightarrow> shape sink_law ts xs"
  by (induction rule: shape.induct) (auto simp: sink_law_def readable_def intro!: shape.intros)

lemma context_well_formed:
  assumes "context_inv sink_law m C t" "property_value_pair_count C < 65536"
  shows "well_formed_handle (Some C) [t] m"
proof -
  obtain xs where xs: "shape sink_law [t] xs" "handle_items sink_law m (Some C) [t] xs"
    using assms(1) by (auto simp: context_inv_def handle_items_def)
  have p: "shape prints_anywhere [t] xs" by (rule shape_mono [OF xs(1)]) (simp add: sink_law_def)
  then have "context_inv prints_anywhere m C t" "handle_items prints_anywhere m (Some C) [t] xs"
    using assms(1) xs(2) by (auto simp: context_inv_def handle_items_def)
  with shape_readable [OF xs(1)] assms(2) show ?thesis
    by (auto simp: well_formed_handle_def handle_inv_def log_context_get_property_value_pair_count_def)
qed

text \<open>\<open>describes_as E fds n us\<close>: the arguments are stored in \<open>n\<close> bytes and print as the trees \<open>us\<close>.\<close>

definition describes_as :: "c_env \<Rightarrow> field_desc list \<Rightarrow> nat \<Rightarrow> ptree list \<Rightarrow> bool" where
  "describes_as E fds n us \<longleftrightarrow> (\<exists>xs. arguments E fds n xs \<and> shape sink_law us xs \<and> length us = length xs)"

lemma plain_readable: "argument E fd n xs \<Longrightarrow> plain_argument E fd \<Longrightarrow> list_all readable xs"
proof (induction rule: argument.induct)
  case (basic t z nm)
  show ?case by (cases t) (simp_all add: readable_def basic_log_context_property_type_def
      basic_log_context_property_type_get_type_def)
qed (auto simp: readable_def ascii_char_ptr_log_context_property_type_def ascii_char_ptr_log_context_property_type_get_type_def
    bool_log_context_property_type_def bool_log_context_property_type_get_type_def)

lemma plain_arguments_readable: "arguments E fds n xs \<Longrightarrow> list_all (plain_argument E) fds \<Longrightarrow> list_all readable xs"
  by (induction rule: arguments.induct) (auto dest: plain_readable)

lemma plain_describes:
  assumes "c_library E" "list_all (plain_argument E) fds"
  shows "\<exists>n. describes_as E fds n (field_trees E fds)"
proof -
  obtain n xs where "arguments E fds n xs" "shape prints_anywhere (field_trees E fds) xs" "length (field_trees E fds) = length xs"
    using c_library.plain_all [OF assms] by blast
  with plain_arguments_readable [OF _ assms(2)] show ?thesis
    unfolding describes_as_def by (blast intro: readable_shape)
qed

lemma no_name: "expand_messages fds \<noteq> None \<Longrightarrow> rename_context nm fds = nm"
proof (induction fds arbitrary: nm)
  case (Cons fd fds)
  then show ?case by (cases fd) (auto split: Option.bind_splits)
qed simp

lemma any_properties:
  "list_all (plain_argument E) fds \<Longrightarrow> expand_messages fds \<noteq> None \<Longrightarrow>
   list_ex HAS_ANY_PROPERTIES fds \<longleftrightarrow> field_trees E fds \<noteq> []"
proof (induction fds)
  case (Cons fd fds)
  then have "HAS_ANY_PROPERTIES fd \<longleftrightarrow> field_tree E fd \<noteq> []"
    by (cases "(E, fd)" rule: field_tree.cases) (auto split: Option.bind_splits)
  with Cons show ?case by (auto simp: field_trees_def split: Option.bind_splits)
qed (simp add: field_trees_def)

lemma the_message_expands: "the_message fds = Some x \<Longrightarrow> expand_messages fds \<noteq> None"
  by (auto simp: the_message_def split: option.splits)


text \<open>The frame of the context does not overlap a buffer of a sink.\<close>

definition frame_apart :: "app_env \<Rightarrow> addr \<Rightarrow> bool" where
  "frame_apart A frame \<longleftrightarrow>
     (USE_LOG_SINK_CONSOLE A \<longrightarrow> frame + 4096 \<le> temp (console_env A) \<or> temp (console_env A) + LOG_MAX_MESSAGE_LENGTH \<le> frame) \<and>
     (USE_LOG_SINK_CALLBACK A \<longrightarrow> frame + 4096 \<le> temp (callback_env A) \<or> temp (callback_env A) + LOG_MAX_MESSAGE_LENGTH \<le> frame) \<and>
     (USE_LOG_SINK_ETW A \<longrightarrow> frame + 4096 \<le> metadata (tracelogging A) \<or> metadata (tracelogging A) + MAX_METADATA_SIZE \<le> frame)"

lemma buffers_ready_frame:
  assumes "buffers_ready A None m" "frame_apart A frame" "values_data C = frame" "values_data_length C \<le> 4096"
  shows "buffers_ready A (Some C) m"
  using assms by (auto simp: buffers_ready_def frame_apart_def sink_ready_def etw_ready_def apart_def)

lemma outputs_at [simp]:
  "console_output A (call_at site l (Some C) f args) = console_output A (call_at site l None f args)"
  "client_after A (call_at site l (Some C) f args) = client_after A (call_at site l None f args)"
  by (auto simp: fun_eq_iff console_output_def client_after_def console_text_def callback_text_def call_at_def)

text \<open>
  \<open>logs_line A frame c ts msg w w'\<close>: the output and the client are as after the call \<open>c\<close>, whose
  context prints as \<open>ts\<close>, the ETW sink has been called once, with the context \<open>h\<close> built in the
  frame, and otherwise only bytes of the frame (none when there is no property) and of the buffers of the sinks have changed.
\<close>

definition logs_line :: "app_env \<Rightarrow> addr \<Rightarrow> log_call \<Rightarrow> ptree list \<Rightarrow> string \<Rightarrow> 'c app \<Rightarrow> 'c app \<Rightarrow> bool" where
  "logs_line A frame c ts msg w w' \<longleftrightarrow> (\<exists>h m1 out m'. quiet out \<and>
     unchanged (memory w) m1 frame 4096 \<and> keeps_accessible (memory w) m1 \<and> (ts = [] \<longrightarrow> h = None \<and> m1 = memory w) \<and>
     etw_logged A (c\<lparr>log_context := h\<rparr>) ts m1 out m' \<and> writes_buffers A m1 m' \<and>
     w' = w\<lparr>stdout := stdout w @ console_output A c ts msg @ etw_printed out,
            client := client_after A c ts msg (callback w) (client w), etw_trace := etw_trace w @ out, memory := m'\<rparr>)"

lemma call_at_context: "(call_at site l h' f args)\<lparr>log_context := h\<rparr> = call_at site l h f args"
  by (simp add: call_at_def)

lemma logs_lineI:
  assumes "logged A (call_at site l h f args) ts msg (w\<lparr>memory := m1\<rparr>) w'"
    and "unchanged (memory w) m1 frame 4096" "keeps_accessible (memory w) m1" "ts = [] \<Longrightarrow> h = None \<and> m1 = memory w"
  shows "logs_line A frame (call_at site l None f args) ts msg w w'"
  unfolding logs_line_def call_at_context
  using assms unfolding logged_def by (cases h) fastforce+

lemma log_ex_logs:
  assumes "running A (s :: 'c app logger)" "l \<in> set LOG_LEVEL_VALUES" "the_message fds = Some (f, args)" "LOG_CONTEXT_CHECK_VARIABLE_ARGS fds"
    and "describes_as E fds n us" "length us < 64" "n < 4096"
    and "0 < frame" "accessible (memory (world s)) frame 4096" "buffers_ready A None (memory (world s))" "frame_apart A frame"
    and "ts = (if list_ex HAS_ANY_PROPERTIES fds then [Struct '''' us] else [])"
    and "\<And>h. call_prints A (call_at site l h f args) ts msg"
  shows "\<exists>w'. LOGGER_LOG_EX E ab frame site l fds s = Some (Inr (s\<lparr>world := w'\<rparr>)) \<and>
     logs_line A frame (call_at site l None f args) ts msg (world s) w'"
proof (cases "list_ex HAS_ANY_PROPERTIES fds")
  case False
  let ?c = "call_at site l None f args"
  have "well_formed_handle None [] (memory (world s))"
    by (simp add: well_formed_handle_def handle_inv_def handle_items_def log_context_get_property_value_pair_count_def)
  with False assms(2,10,12) have "context_kept A ?c ts (memory (world s))" by (simp add: context_kept_def call_at_def)
  from log_in_all_sinks [OF assms(1) this assms(13)] obtain w' where
    "logger_log ?c s = Inr (s\<lparr>world := w'\<rparr>)" "logged A ?c ts msg (world s) w'" by blast
  with False assms(3) show ?thesis
    using logs_lineI [of A site l None f args ts msg "memory (world s)" "world s" w' frame]
    by (auto simp: LOGGER_LOG_EX_def unchanged_def)
next
  case True
  let ?m = "memory (world s)"
  obtain xs where xs: "arguments E fds n xs" "shape sink_law us xs" "length us = length xs"
    using assms(5) by (auto simp: describes_as_def)
  have nm: "rename_context '''' fds = ''''" using no_name the_message_expands [OF assms(3)] by blast
  obtain C m' where C: "LOG_CONTEXT_LOCAL_DEFINE E ab frame None fds ?m = Inr (C, [], m')"
    "context_inv sink_law m' C (Struct '''' ([] @ us))" "values_data C = frame" "unchanged ?m m' frame 4096"
    "keeps_accessible ?m m'" "property_value_pair_count C \<le> 64" "values_data_length C \<le> 4096"
    using local_define_builds [of sink_law ?m None "[]" E fds n xs us frame ab] xs assms(6-9) nm
    by (auto simp: handle_inv_def log_context_get_property_value_pair_count_def apart_def INT_MAX_def
        internal_log_context_get_values_data_length_or_zero_def)
  let ?c = "call_at site l (Some C) f args"
  let ?s = "s\<lparr>world := (world s)\<lparr>stdout := stdout (world s) @ [], memory := m'\<rparr>\<rparr>"
  have ts: "ts = [Struct '''' us]" using True assms(12) by simp
  have "well_formed_handle (Some C) ts m'"
    unfolding ts by (rule context_well_formed) (use C(2,6) in auto)
  moreover have "buffers_ready A (Some C) m'"
    by (rule buffers_ready_frame [OF buffers_ready_unchanged [OF assms(10) C(5)] assms(11) C(3,7)])
  ultimately have "context_kept A ?c ts (memory (world ?s))" using assms(2) by (simp add: context_kept_def call_at_def)
  moreover have "running A ?s" using assms(1) by (simp add: running_def)
  ultimately obtain w' where w': "logger_log ?c ?s = Inr (?s\<lparr>world := w'\<rparr>)" "logged A ?c ts msg (world ?s) w'"
    using log_in_all_sinks [OF _ _ assms(13), of ?s "Some C"] by blast
  have "LOGGER_LOG_EX E ab frame site l fds s = Some (Inr (s\<lparr>world := w'\<rparr>))"
    using True assms(3,4) C(1) w'(1) by (simp add: LOGGER_LOG_EX_def)
  moreover have "logs_line A frame (call_at site l None f args) ts msg (world s) w'"
    by (rule logs_lineI [OF _ C(4,5)]) (use w'(2) ts in auto)
  ultimately show ?thesis by blast
qed


text \<open>
  C4: \<open>LOGGER_LOG_EX\<close> from the macro to the sinks: for arguments that are stored in the frame
  and print as the trees \<open>us\<close>, and at most one message, the expansion compiles and the call
  returns; the console prints one line with the place of the call, the properties as one
  unnamed struct, and the message, or without the struct when the arguments have no property;
  the callback receives the same; the ETW sink is called once, with the context; and nothing else
  of the program changes but bytes of the frame and of the buffers.
\<close>
theorem log_ex_line:
  assumes "running A s" "l \<in> set LOG_LEVEL_VALUES" "the_message fds = Some (f, args)" "LOG_CONTEXT_CHECK_VARIABLE_ARGS fds"
    and "c_library E" "list_all (plain_argument E) fds" "count_data_bytes E fds (memory (world s)) = Some (n, memory (world s))"
    and "count_properties fds < 64" "n < 4096"
    and "0 < frame" "accessible (memory (world s)) frame 4096" "buffers_ready A None (memory (world s))" "frame_apart A frame"
    and "ts = (if field_trees E fds = [] then [] else [Struct '''' (field_trees E fds)])"
    and "\<And>h. call_prints A (call_at site l h f args) ts msg"
  shows "\<exists>w'. LOGGER_LOG_EX E ab frame site l fds s = Some (Inr (s\<lparr>world := w'\<rparr>)) \<and>
     logs_line A frame (call_at site l None f args) ts msg (world s) w'"
proof -
  have ts: "ts = (if list_ex HAS_ANY_PROPERTIES fds then [Struct '''' (field_trees E fds)] else [])"
    using any_properties [OF assms(6) the_message_expands [OF assms(3)]] assms(14) by simp
  obtain k where k: "describes_as E fds k (field_trees E fds)" using plain_describes [OF assms(5,6)] by blast
  then obtain xs where xs: "arguments E fds k xs" "length (field_trees E fds) = length xs" by (auto simp: describes_as_def)
  have "int k = n" using data_bytes_all [OF xs(1), of "memory (world s)"] assms(7) by simp
  with assms(9) have "k < 4096" by simp
  moreover have "length (field_trees E fds) < 64" using count_all [OF xs(1)] xs(2) assms(8) by simp
  ultimately show ?thesis
    by (intro log_ex_logs [OF assms(1-4) k _ _ assms(10-13) ts assms(15)]) auto
qed


section \<open>Witnesses\<close>

text \<open>All three sinks, with their buffers behind the frame of the context.\<close>

definition demo_app :: app_env where
  "demo_app = \<lparr>console_env = demo_sink\<lparr>temp := 5096\<rparr>, callback_env = demo_sink\<lparr>temp := 9192\<rparr>,
     tracelogging = demo_etw\<lparr>metadata := 13288\<rparr>, windows = demo_stack_env, logger_state_value = (\<lambda>s. 0),
     USE_LOG_SINK_CONSOLE = True, USE_LOG_SINK_CALLBACK = True, USE_LOG_SINK_ETW = True\<rparr>"

definition demo_program :: "unit app logger" where
  "demo_program = \<lparr>logger_init_count = 1, logger_state = LOGGER_STATE_INITIALIZED, log_sink_count = 3,
     log_sinks = Some (all_sinks demo_app), world = app_initial demo_stack ()\<rparr>"

definition demo_site :: call_site where
  "demo_site = \<lparr>site_file = ''f.c'', site_func = ''main'', site_line = 42\<rparr>"

lemma demo_memory_app: "memory (world demo_program) = demo_stack"
  by (simp add: demo_program_def app_initial_def)

lemma demo_running: "running demo_app demo_program"
  by (simp add: running_def demo_program_def configured_sink_count_def all_sinks_def demo_app_def)

lemma demo_buffers: "buffers_ready demo_app None demo_stack" "frame_apart demo_app 1000"
  by (simp_all add: buffers_ready_def frame_apart_def demo_app_def sink_ready_def etw_ready_def demo_sink_def
      conforming_std_env LOG_MAX_MESSAGE_LENGTH_def MAX_METADATA_SIZE_def demo_stack_accessible apart_def)

lemma demo_headers:
  "console_header (console_env demo_app) LOG_LEVEL_INFO (Some ''f.c'') (Some ''main'') 42 =
     ESC # ''[37mLOG_LEVEL_INFO Time:Thu Jan  1 00:00:00 1970 File:f.c:42 Func:main''"
  "callback_header (callback_env demo_app) (Some ''f.c'') (Some ''main'') 42 =
     ''Time:Thu Jan  1 00:00:00 1970 File:f.c:42 Func:main''"
proof -
  have "console_header (demo_sink\<lparr>temp := p\<rparr>) = console_header demo_sink"
    "callback_header (demo_sink\<lparr>temp := p\<rparr>) = callback_header demo_sink" for p
    by (simp_all add: fun_eq_iff console_header_def callback_header_def ctime_result_def)
  moreover have "callback_header demo_sink (Some ''f.c'') (Some ''main'') 42 =
     ''Time:Thu Jan  1 00:00:00 1970 File:f.c:42 Func:main''" by code_simp
  ultimately show
    "console_header (console_env demo_app) LOG_LEVEL_INFO (Some ''f.c'') (Some ''main'') 42 =
       ESC # ''[37mLOG_LEVEL_INFO Time:Thu Jan  1 00:00:00 1970 File:f.c:42 Func:main''"
    "callback_header (callback_env demo_app) (Some ''f.c'') (Some ''main'') 42 =
       ''Time:Thu Jan  1 00:00:00 1970 File:f.c:42 Func:main''"
    by (simp_all add: demo_app_def demo_header)
qed

lemma demo_call_prints:
  assumes "NUL \<notin> set (render ts)"
  shows "call_prints demo_app (call_at demo_site LOG_LEVEL_INFO h ''n=%d'' [AInt 7]) ts ''n=7''"
proof -
  have f: "fmt std_env ''n=%d'' [AInt 7] = Some ''n=7''" by code_simp
  have l: "lib (console_env demo_app) = std_env" "lib (callback_env demo_app) = std_env"
    by (simp_all add: demo_app_def demo_sink_def)
  show ?thesis using assms f
    by (simp add: call_prints_def call_at_def demo_site_def line_prints_def demo_headers l)
      (simp add: INT_MAX_def LOG_MAX_MESSAGE_LENGTH_def ESC_def)
qed

theorem program_defined_witness:
  "(\<exists>r s'. logger_init (app_logger_env demo_app) (app_logger demo_app demo_stack ()) = Inr (r, s')) \<and>
   (\<exists>s'. logger_deinit (app_logger_env demo_app) (app_logger demo_app demo_stack ()) = Inr s') \<and>
   etw_state (world (app_logger demo_app demo_stack ())) \<noteq> LOG_SINK_ETW_STATE_INITIALIZED"
proof -
  have "app_run demo_app (app_logger demo_app demo_stack ())"
    by (rule app_run.start) (simp add: etw_usable_def demo_app_def demo_etw_def MAX_METADATA_SIZE_def
        demo_stack_accessible conforming_std_env)
  from program_defined [OF this] show ?thesis
    by (simp add: demo_app_def app_logger_def logger_initial_def)
qed

theorem log_reaches_sinks_witness:
  "\<exists>w'. logger_log (call_at demo_site LOG_LEVEL_INFO None ''n=%d'' [AInt 7]) demo_program = Inr (demo_program\<lparr>world := w'\<rparr>) \<and>
     logged demo_app (call_at demo_site LOG_LEVEL_INFO None ''n=%d'' [AInt 7]) [] ''n=7'' (world demo_program) w'"
  by (rule log_reaches_sinks [OF demo_running _ _ _ demo_call_prints])
    (simp_all add: call_at_def LOG_LEVEL_VALUES_def demo_memory_app demo_buffers well_formed_handle_def handle_inv_def
      handle_items_def log_context_get_property_value_pair_count_def)

definition demo_fields :: "field_desc list" where
  "demo_fields = [LOG_CONTEXT_PROPERTY (Basic int32_t (- 5)) ''a'', LOG_MESSAGE ''n=%d'' [AInt 7]]"

theorem log_ex_line_witness:
  "\<exists>w'. LOGGER_LOG_EX std_env False 1000 demo_site LOG_LEVEL_INFO demo_fields demo_program =
       Some (Inr (demo_program\<lparr>world := w'\<rparr>)) \<and>
     logs_line demo_app 1000 (call_at demo_site LOG_LEVEL_INFO None ''n=%d'' [AInt 7]) [Struct '''' [Field ''a'' ''-5'']] ''n=7''
       (world demo_program) w'"
proof (rule log_ex_line [OF demo_running _ _ _ std.c_library_axioms, where n = 4])
  have "show_int (- 5) = ''-5''" by code_simp
  then show "[Struct '''' [Field ''a'' ''-5'']] = (if field_trees std_env demo_fields = [] then []
      else [Struct '''' (field_trees std_env demo_fields)])"
    by (simp add: demo_fields_def field_trees_def)
  show "call_prints demo_app (call_at demo_site LOG_LEVEL_INFO h ''n=%d'' [AInt 7]) [Struct '''' [Field ''a'' ''-5'']] ''n=7''" for h
    by (rule demo_call_prints) simp
qed (simp_all add: demo_fields_def LOG_LEVEL_VALUES_def the_message_def LOG_CONTEXT_CHECK_VARIABLE_ARGS_def short_name_def
    INT_MAX_def in_basic_def basic_log_context_property_type_get_init_data_size_def c_arith count_properties_def
    demo_memory_app demo_stack_accessible demo_buffers)

end
