(* ===== verification/Error_Properties.thy ===== *)
theory Error_Properties
  imports Log_Context
begin

text \<open>
  \<open>format_message_no_newline.c\<close>, \<open>log_errno_linux.c\<close>, \<open>log_errno_win32.c\<close>,
  \<open>log_lasterror.c\<close> and \<open>log_hresult.c\<close>: the value functions that store the text of an error
  in a buffer of 512 bytes, for the properties \<open>LOG_ERRNO\<close>, \<open>LOG_LASTERROR\<close> and
  \<open>LOG_HRESULT\<close>.  The functions of the platform are parameters; the locale
  \<open>value_function\<close> is the contract of a value function, and the four of them are shown to
  keep it.
\<close>

section \<open>The platform\<close>

text \<open>
  \<open>strerror\<close> stands for \<open>strerror_r\<close> and \<open>strerror_s\<close>: the error number, the buffer and its
  size.  \<open>FormatMessageA\<close> takes the module (\<^term>\<open>None\<close> for the system), the message
  identifier, the buffer and its size; the flags, the language and the inserts, which the
  sources only pass through, are not arguments.  \<open>last_error\<close> is what \<open>GetLastError\<close> returns
  throughout a call.
\<close>

record error_env =
  errlib :: c_env
  errno :: int
  strerror :: "int \<Rightarrow> addr \<Rightarrow> nat \<Rightarrow> mem \<Rightarrow> (int \<times> mem) option"
  FormatMessageA :: "addr option \<Rightarrow> nat \<Rightarrow> addr \<Rightarrow> nat \<Rightarrow> mem \<Rightarrow> (nat \<times> mem) option"
  last_error :: nat
  EnumProcessModules :: "(addr list \<times> nat) option" \<comment> \<open>the handles it stores and the bytes needed for all\<close>

definition MESSAGE_BUFFER_SIZE :: nat where
  "MESSAGE_BUFFER_SIZE = 512"

definition N_MAX_MODULES :: nat where
  "N_MAX_MODULES = 100"

definition sizeof_HMODULE :: nat where
  "sizeof_HMODULE = 8"

definition strerror_r_failure_message :: string where
  "strerror_r_failure_message = ''failure in strerror_r''"

definition strerror_s_failure_message :: string where
  "strerror_s_failure_message = ''failure in strerror_s''"

definition FormatMessageA_failure_message :: string where
  "FormatMessageA_failure_message = ''failure in FormatMessageA''"

definition snprintf_failure_message :: string where
  "snprintf_failure_message = ''snprintf failed''"

section \<open>Messages without a newline\<close>

definition CR :: char where "CR = CHR 0x0D"
definition LF :: char where "LF = CHR 0x0A"

text \<open>The loop over the characters from the end: how many are left.\<close>

fun no_newline_loop :: "mem \<Rightarrow> addr \<Rightarrow> nat \<Rightarrow> nat option" where
  "no_newline_loop m lpBuffer 0 = Some 0"
| "no_newline_loop m lpBuffer (Suc k) = do {
     c \<leftarrow> m (lpBuffer + k);
     if c \<noteq> CR \<and> c \<noteq> LF then Some (Suc k) else no_newline_loop m lpBuffer k }"

definition FormatMessageA_no_newline ::
    "error_env \<Rightarrow> addr option \<Rightarrow> nat \<Rightarrow> addr \<Rightarrow> nat \<Rightarrow> mem \<Rightarrow> (nat \<times> mem) option" where
  "FormatMessageA_no_newline R lpSource dwMessageId lpBuffer nSize m = do {
     (result, m1) \<leftarrow> FormatMessageA R lpSource dwMessageId lpBuffer nSize m;
     if result = 0 then Some (result, m1)
     else do {
       k \<leftarrow> no_newline_loop m1 lpBuffer result;
       m2 \<leftarrow> store_bytes m1 (lpBuffer + k) [NUL];
       Some (k, m2) } }"

section \<open>The value functions\<close>

definition log_errno_fill_property_linux :: "error_env \<Rightarrow> addr \<Rightarrow> mem \<Rightarrow> (int \<times> mem) option" where
  "log_errno_fill_property_linux R buffer m =
     (if buffer = NULL then Some (int MESSAGE_BUFFER_SIZE, m)
      else do {
        (r, m1) \<leftarrow> strerror R (errno R) buffer MESSAGE_BUFFER_SIZE m;
        m2 \<leftarrow> (if r \<noteq> 0 then store_bytes m1 buffer (strerror_r_failure_message @ [NUL]) else Some m1);
        Some (int MESSAGE_BUFFER_SIZE, m2) })"

definition log_errno_fill_property_win32 :: "error_env \<Rightarrow> addr \<Rightarrow> mem \<Rightarrow> (int \<times> mem) option" where
  "log_errno_fill_property_win32 R buffer m =
     (if buffer = NULL then Some (int MESSAGE_BUFFER_SIZE, m)
      else do {
        (r, m1) \<leftarrow> strerror R (errno R) buffer MESSAGE_BUFFER_SIZE m;
        m2 \<leftarrow> (if r \<noteq> 0 then store_bytes m1 buffer (strerror_s_failure_message @ [NUL]) else Some m1);
        Some (int MESSAGE_BUFFER_SIZE, m2) })"

definition log_lasterror_fill_property :: "error_env \<Rightarrow> addr \<Rightarrow> mem \<Rightarrow> (int \<times> mem) option" where
  "log_lasterror_fill_property R buffer m =
     (if buffer = NULL then Some (int MESSAGE_BUFFER_SIZE, m)
      else do {
        (chars_written, m1) \<leftarrow> FormatMessageA_no_newline R None (last_error R) buffer MESSAGE_BUFFER_SIZE m;
        m2 \<leftarrow> (if chars_written = 0 then store_bytes m1 buffer (FormatMessageA_failure_message @ [NUL]) else Some m1);
        Some (int MESSAGE_BUFFER_SIZE, m2) })"

text \<open>The loop over the modules: the index at which it ended, and the memory.\<close>

function module_loop :: "error_env \<Rightarrow> int \<Rightarrow> addr list \<Rightarrow> nat \<Rightarrow> nat \<Rightarrow> addr \<Rightarrow> mem \<Rightarrow> (nat \<times> mem) option" where
  "module_loop R hresult module_handles n iModule buffer m =
     (if iModule < n then
        if iModule < length module_handles then do {
          (r, m1) \<leftarrow> FormatMessageA_no_newline R (Some (module_handles ! iModule)) (to_uint32 hresult) buffer MESSAGE_BUFFER_SIZE m;
          if r \<noteq> 0 then Some (iModule, m1)
          else module_loop R hresult module_handles n (iModule + 1) buffer m1 }
        else None
      else Some (iModule, m))"
  by pat_completeness auto
termination by (relation "measure (\<lambda>(R, hresult, hs, n, i, buffer, m). n - i)") auto

declare module_loop.simps [simp del]

definition print_or_fallback :: "error_env \<Rightarrow> string \<Rightarrow> carg list \<Rightarrow> addr \<Rightarrow> mem \<Rightarrow> mem option" where
  "print_or_fallback R f args buffer m = do {
     (r, m1) \<leftarrow> snprintf (errlib R) buffer MESSAGE_BUFFER_SIZE f args m;
     if r < 0 then store_bytes m1 buffer (snprintf_failure_message @ [NUL]) else Some m1 }"

definition log_hresult_fill_property :: "error_env \<Rightarrow> int \<Rightarrow> addr \<Rightarrow> mem \<Rightarrow> (int \<times> mem) option" where
  "log_hresult_fill_property R hresult buffer m =
     (if buffer = NULL then Some (int MESSAGE_BUFFER_SIZE, m)
      else do {
        (r, m1) \<leftarrow> FormatMessageA_no_newline R None (to_uint32 hresult) buffer MESSAGE_BUFFER_SIZE m;
        m2 \<leftarrow>
          (if r \<noteq> 0 then Some m1
           else (case EnumProcessModules R of
                   None \<Rightarrow> print_or_fallback R ''failure in EnumProcessModules, LE=%lu, unknown HRESULT 0x%x''
                             [AInt (int (last_error R)), AInt (int (to_uint32 hresult))] buffer m1
                 | Some (module_handles, enumModulesUsedBytes) \<Rightarrow> do {
                     (iModule, m3) \<leftarrow> module_loop R hresult (take N_MAX_MODULES module_handles)
                        (enumModulesUsedBytes div sizeof_HMODULE) 0 buffer m1;
                     if iModule = enumModulesUsedBytes div sizeof_HMODULE
                     then print_or_fallback R ''unknown HRESULT 0x%x'' [AInt (int (to_uint32 hresult))] buffer m3
                     else Some m3 }));
        Some (int MESSAGE_BUFFER_SIZE, m2) })"

section \<open>The properties\<close>

definition LOG_ERRNO_linux :: "error_env \<Rightarrow> field_desc" where
  "LOG_ERRNO_linux R = LOG_CONTEXT_PROPERTY_CUSTOM_FUNCTION (ascii_char_ptr_log_context_property_type (errlib R)) ''errno_value''
     (log_errno_fill_property_linux R)"

definition LOG_ERRNO_win32 :: "error_env \<Rightarrow> field_desc" where
  "LOG_ERRNO_win32 R = LOG_CONTEXT_PROPERTY_CUSTOM_FUNCTION (ascii_char_ptr_log_context_property_type (errlib R)) ''errno_value''
     (log_errno_fill_property_win32 R)"

definition LOG_LASTERROR :: "error_env \<Rightarrow> field_desc" where
  "LOG_LASTERROR R = LOG_CONTEXT_PROPERTY_CUSTOM_FUNCTION (ascii_char_ptr_log_context_property_type (errlib R)) ''LastError''
     (log_lasterror_fill_property R)"

definition LOG_HRESULT :: "error_env \<Rightarrow> int \<Rightarrow> field_desc" where
  "LOG_HRESULT R the_hresult = LOG_CONTEXT_PROPERTY_CUSTOM_FUNCTION (ascii_char_ptr_log_context_property_type (errlib R)) ''hresult''
     (log_hresult_fill_property R the_hresult)"


section \<open>What the platform promises\<close>

text \<open>
  \<open>touches m b n m'\<close>: only the \<open>n\<close> bytes at \<open>b\<close> have changed; \<open>holds_text\<close>: and they begin with
  a terminated text.
\<close>

definition touches :: "mem \<Rightarrow> addr \<Rightarrow> nat \<Rightarrow> mem \<Rightarrow> bool" where
  "touches m b n m' \<longleftrightarrow> unchanged m m' b n \<and> keeps_accessible m m'"

definition holds_text :: "mem \<Rightarrow> addr \<Rightarrow> nat \<Rightarrow> string \<Rightarrow> mem \<Rightarrow> bool" where
  "holds_text m b n content m' \<longleftrightarrow> bytes_at m' b (content @ [NUL]) \<and> touches m b n m'"

lemma touches_trans: "touches m b n m' \<Longrightarrow> touches m' b n m'' \<Longrightarrow> touches m b n m''"
  by (auto simp: touches_def intro: unchanged_trans keeps_accessible_trans)

lemma touches_put: "b \<le> q \<Longrightarrow> q + length bs \<le> b + n \<Longrightarrow> touches m b n (put_bytes m q bs)"
  by (simp add: touches_def unchanged_put)

lemma touches_accessible: "touches m b n m' \<Longrightarrow> accessible m p k \<Longrightarrow> accessible m' p k"
  by (auto simp: touches_def intro: keeps_accessibleD)

lemma touches_refl [simp]: "touches m b n m"
  by (simp add: touches_def)

lemma holds_text_trans: "touches m b n m' \<Longrightarrow> holds_text m' b n content m'' \<Longrightarrow> holds_text m b n content m''"
  by (auto simp: holds_text_def intro: touches_trans)

lemma holds_text_touches: "holds_text m b n content m' \<Longrightarrow> touches m b n m'"
  by (simp add: holds_text_def)

lemma store_text:
  "accessible m b n \<Longrightarrow> length content < n \<Longrightarrow> \<exists>m'. store_bytes m b (content @ [NUL]) = Some m' \<and> holds_text m b n content m'"
  using accessible_sub [of m b n b "length (content @ [NUL])"] touches_put [of b b "content @ [NUL]" n m]
  by (auto simp: store_bytes_def holds_text_def bytes_at_put_same simp del: bytes_at_append)

text \<open>
  \<open>message src i n\<close> is the text \<open>FormatMessageA\<close> stores for the message \<open>i\<close> of the system
  (\<^term>\<open>None\<close>) or of a module in a buffer of \<open>n\<close> characters, and \<open>error_text\<close> the text of an
  error number, where they succeed.
\<close>

locale error_library =
  fixes R :: error_env
    and message :: "addr option \<Rightarrow> nat \<Rightarrow> nat \<Rightarrow> string option"
    and error_text :: "int \<Rightarrow> nat \<Rightarrow> string option"
  assumes conforms: "conforming (errlib R)"
    and last_error_range: "last_error R < 2 ^ 32"
    and FormatMessageA_stores: "message src i n = Some t \<Longrightarrow> accessible m b n \<Longrightarrow>
      \<exists>m'. FormatMessageA R src i b n m = Some (length t, m') \<and> holds_text m b n t m'"
    and FormatMessageA_fails: "message src i n = None \<Longrightarrow> accessible m b n \<Longrightarrow>
      \<exists>m'. FormatMessageA R src i b n m = Some (0, m') \<and> touches m b n m'"
    and message_text: "message src i n = Some t \<Longrightarrow> t \<noteq> [] \<and> length t < n \<and> NUL \<notin> set t"
    and strerror_stores: "error_text e n = Some t \<Longrightarrow> accessible m b n \<Longrightarrow>
      \<exists>m'. strerror R e b n m = Some (0, m') \<and> holds_text m b n t m'"
    and strerror_fails: "error_text e n = None \<Longrightarrow> accessible m b n \<Longrightarrow>
      \<exists>r m'. strerror R e b n m = Some (r, m') \<and> r \<noteq> 0 \<and> touches m b n m'"
    and error_text: "error_text e n = Some t \<Longrightarrow> length t < n \<and> NUL \<notin> set t"

section \<open>Messages without a newline: what they are\<close>

definition strip_newlines :: "string \<Rightarrow> string" where
  "strip_newlines t = rev (dropWhile (\<lambda>c. c = CR \<or> c = LF) (rev t))"

definition plain_message :: "string option \<Rightarrow> string option" where
  "plain_message r = (case r of None \<Rightarrow> None | Some t \<Rightarrow> if strip_newlines t = [] then None else Some (strip_newlines t))"

lemma strip_newlines_split: "\<exists>nl. t = strip_newlines t @ nl \<and> set nl \<subseteq> {CR, LF}"
proof -
  let ?p = "\<lambda>c. c = CR \<or> c = LF"
  have "t = strip_newlines t @ rev (takeWhile ?p (rev t))"
    by (simp add: strip_newlines_def rev_append [symmetric])
  moreover have "set (rev (takeWhile ?p (rev t))) \<subseteq> {CR, LF}" by (auto dest: set_takeWhileD)
  ultimately show ?thesis by blast
qed

lemma plain_message_text: "plain_message r = Some s \<Longrightarrow> \<exists>t. r = Some t \<and> set s \<subseteq> set t \<and> length s \<le> length t \<and> s \<noteq> []"
proof -
  assume "plain_message r = Some s"
  then obtain t where t: "r = Some t" "s = strip_newlines t" "s \<noteq> []"
    by (auto simp: plain_message_def split: option.splits if_splits)
  obtain nl where "t = s @ nl" using strip_newlines_split [of t] t(2) by blast
  then have "set s \<subseteq> set t" "length s \<le> length t" by simp_all
  with t(1,3) show ?thesis by blast
qed

lemma no_newline_loop_strips:
  "bytes_at m b t \<Longrightarrow> no_newline_loop m b (length t) = Some (length (strip_newlines t))"
  by (induction t rule: rev_induct) (auto simp: strip_newlines_def)

context error_library
begin

lemma no_newline_strips:
  assumes "accessible m b n"
  shows "\<exists>k m'. FormatMessageA_no_newline R src i b n m = Some (k, m') \<and> touches m b n m' \<and>
     (case message src i n of None \<Rightarrow> k = 0
      | Some t \<Rightarrow> k = length (strip_newlines t) \<and> holds_text m b n (strip_newlines t) m')"
proof (cases "message src i n")
  case None
  with FormatMessageA_fails [OF None assms] show ?thesis
    by (auto simp: FormatMessageA_no_newline_def)
next
  case (Some t)
  let ?s = "strip_newlines t"
  from message_text [OF Some] have t: "t \<noteq> []" "length t < n" by auto
  obtain m1 where m1: "FormatMessageA R src i b n m = Some (length t, m1)" "holds_text m b n t m1"
    using FormatMessageA_stores [OF Some assms] by blast
  obtain nl where nl: "t = ?s @ nl" using strip_newlines_split by blast
  have len: "length t = length ?s + length nl" by (subst nl) simp
  have b: "bytes_at m1 b ?s" using m1(2) bytes_at_append [of m1 b ?s nl] by (simp add: holds_text_def nl [symmetric])
  have "no_newline_loop m1 b (length t) = Some (length ?s)"
    using m1(2) by (intro no_newline_loop_strips) (simp add: holds_text_def)
  moreover have "accessible m1 (b + length ?s) 1"
    by (rule accessible_sub [OF touches_accessible [OF holds_text_touches [OF m1(2)] assms]]) (use len t in auto)
  then have "store_bytes m1 (b + length ?s) [NUL] = Some (put_bytes m1 (b + length ?s) [NUL])"
    by (simp add: store_bytes_def)
  moreover have "bytes_at (put_bytes m1 (b + length ?s) [NUL]) b (?s @ [NUL])"
    using b by (simp add: bytes_at_put_other disjoint_ranges_def) (simp add: put_bytes_def)
  moreover have "touches m1 b n (put_bytes m1 (b + length ?s) [NUL])" by (rule touches_put) (use len t in auto)
  ultimately show ?thesis using m1 t touches_trans [OF holds_text_touches [OF m1(2)]]
    by (auto simp: FormatMessageA_no_newline_def Some holds_text_def)
qed

lemma no_newline:
  assumes "accessible m b n"
  shows "\<exists>k m'. FormatMessageA_no_newline R src i b n m = Some (k, m') \<and> touches m b n m' \<and>
     (case plain_message (message src i n) of None \<Rightarrow> k = 0 | Some s \<Rightarrow> k = length s \<and> holds_text m b n s m')"
  using no_newline_strips [OF assms, of src i] by (auto simp: plain_message_def split: option.splits)

end


section \<open>The contract of a value function\<close>

text \<open>
  The texts the properties have: what the platform says, or what the function stores when
  it fails.
\<close>

definition stored_text :: "string option \<Rightarrow> string \<Rightarrow> string" where
  "stored_text r fallback_text = (case r of None \<Rightarrow> fallback_text | Some t \<Rightarrow> t)"

fun first_message :: "(addr option \<Rightarrow> nat \<Rightarrow> nat \<Rightarrow> string option) \<Rightarrow> nat \<Rightarrow> addr list \<Rightarrow> string option" where
  "first_message msg i [] = None"
| "first_message msg i (h # hs) =
     (case plain_message (msg (Some h) i MESSAGE_BUFFER_SIZE) of None \<Rightarrow> first_message msg i hs | Some s \<Rightarrow> Some s)"

definition module_count :: "error_env \<Rightarrow> nat" where
  "module_count R = (case EnumProcessModules R of None \<Rightarrow> 0 | Some (hs, used) \<Rightarrow> used div sizeof_HMODULE)"

text \<open>All the modules of the process fit into the array the function passes.\<close>

definition modules_fit :: "error_env \<Rightarrow> bool" where
  "modules_fit R = (case EnumProcessModules R of None \<Rightarrow> True
     | Some (hs, used) \<Rightarrow> length hs = used div sizeof_HMODULE \<and> length hs \<le> N_MAX_MODULES)"

definition hresult_text :: "error_env \<Rightarrow> (addr option \<Rightarrow> nat \<Rightarrow> nat \<Rightarrow> string option) \<Rightarrow> int \<Rightarrow> string" where
  "hresult_text R msg hresult =
     (let code = to_uint32 hresult; unknown = ''unknown HRESULT 0x'' @ show_hex code in
      case plain_message (msg None code MESSAGE_BUFFER_SIZE) of
        Some s \<Rightarrow> s
      | None \<Rightarrow> (case EnumProcessModules R of
                  None \<Rightarrow> ''failure in EnumProcessModules, LE='' @ show_nat (last_error R) @ '', '' @ unknown
                | Some (hs, used) \<Rightarrow> stored_text (first_message msg code hs) unknown))"

locale value_function =
  fixes vf :: "addr \<Rightarrow> mem \<Rightarrow> (int \<times> mem) option"
    and size :: nat
    and content :: string
  assumes query: "vf NULL m = Some (int size, m)"
    and fill: "p \<noteq> NULL \<Longrightarrow> accessible m p size \<Longrightarrow> \<exists>m'. vf p m = Some (int size, m') \<and> holds_text m p size content m'"
    and fits: "length content < size"
    and no_terminator: "NUL \<notin> set content"
begin

lemma writes: "value_writes vf size (content @ [NUL])"
  unfolding value_writes_def using query fill fits by (simp add: holds_text_def touches_def)

lemma is_argument:
  "argument E (LOG_CONTEXT_PROPERTY_CUSTOM_FUNCTION (ascii_char_ptr_log_context_property_type E) nm vf) size
     [(nm, ascii_char_ptr_log_context_property_type E, content @ [NUL])]"
  by (rule argument.custom [OF writes])

lemma has_shape:
  assumes "c_library E" "short_name nm" "int size \<le> INT_MAX"
  shows "shape prints_anywhere [Field nm content] [(nm, ascii_char_ptr_log_context_property_type E, content @ [NUL])]"
  using assms fits no_terminator
  by (intro shape_one c_library.ascii_prints field_copies) (auto simp: valid_string_def)

end

context error_library
begin

lemma module_loop_finds:
  assumes "accessible m b MESSAGE_BUFFER_SIZE" "n \<le> length hs" "i \<le> n"
  shows "\<exists>k m'. module_loop R h hs n i b m = Some (k, m') \<and> touches m b MESSAGE_BUFFER_SIZE m' \<and>
     (case first_message message (to_uint32 h) (drop i (take n hs)) of
        None \<Rightarrow> k = n | Some s \<Rightarrow> k < n \<and> holds_text m b MESSAGE_BUFFER_SIZE s m')"
  using assms
proof (induction "n - i" arbitrary: i m)
  case 0
  then show ?case by (subst module_loop.simps) simp
next
  case (Suc d)
  then have i: "i < n" "i < length hs" by simp_all
  let ?msg = "message (Some (hs ! i)) (to_uint32 h) MESSAGE_BUFFER_SIZE"
  have hd: "drop i (take n hs) = hs ! i # drop (Suc i) (take n hs)"
    using i by (subst Cons_nth_drop_Suc [symmetric]) auto
  obtain r m1 where r: "FormatMessageA_no_newline R (Some (hs ! i)) (to_uint32 h) b MESSAGE_BUFFER_SIZE m = Some (r, m1)"
    "touches m b MESSAGE_BUFFER_SIZE m1"
    "case plain_message ?msg of None \<Rightarrow> r = 0 | Some s \<Rightarrow> r = length s \<and> holds_text m b MESSAGE_BUFFER_SIZE s m1"
    using no_newline [OF Suc.prems(1)] by blast
  show ?case
  proof (cases "plain_message ?msg")
    case None
    have a: "accessible m1 b MESSAGE_BUFFER_SIZE" by (rule touches_accessible [OF r(2) Suc.prems(1)])
    obtain k m2 where "module_loop R h hs n (Suc i) b m1 = Some (k, m2)" "touches m1 b MESSAGE_BUFFER_SIZE m2"
      "case first_message message (to_uint32 h) (drop (Suc i) (take n hs)) of
        None \<Rightarrow> k = n | Some s \<Rightarrow> k < n \<and> holds_text m1 b MESSAGE_BUFFER_SIZE s m2"
      using Suc.hyps(1) [of "Suc i" m1, OF _ a Suc.prems(2)] Suc.hyps(2) i(1) by fastforce
    with None r i hd show ?thesis
      by (subst module_loop.simps)
        (auto intro: touches_trans [OF r(2)] holds_text_trans [OF r(2)] split: option.splits)
  next
    case (Some s)
    moreover from plain_message_text [OF this] have "s \<noteq> []" by blast
    ultimately show ?thesis using r i hd by (subst module_loop.simps) auto
  qed
qed

lemma print_or_fallback_prints:
  assumes "c_printf f args = Some s" "length s < MESSAGE_BUFFER_SIZE" "accessible m b MESSAGE_BUFFER_SIZE"
  shows "\<exists>m'. print_or_fallback R f args b m = Some m' \<and> holds_text m b MESSAGE_BUFFER_SIZE s m'"
  using store_text [OF assms(3,2)] conforming_fmt [OF conforms assms(1)] assms(2)
  by (auto simp: print_or_fallback_def vsnprintf_def MESSAGE_BUFFER_SIZE_def INT_MAX_def)

end


lemma to_uint32_less: "to_uint32 z < 2 ^ 32"
  by (simp add: to_uint32_def)

lemma hresult_formats:
  assumes "code < 2 ^ 32" "le < 2 ^ 32"
  shows "c_printf ''unknown HRESULT 0x%x'' [AInt (int code)] = Some (''unknown HRESULT 0x'' @ show_hex code)"
    and "c_printf ''failure in EnumProcessModules, LE=%lu, unknown HRESULT 0x%x'' [AInt (int le), AInt (int code)] =
      Some (''failure in EnumProcessModules, LE='' @ show_nat le @ '', '' @ ''unknown HRESULT 0x'' @ show_hex code)"
  by (simp_all add: c_printf_def c_conv_def is_digit_def)

lemma hresult_formats_short:
  assumes "code < 2 ^ 32" "le < 2 ^ 32"
  shows "length (show_hex code) \<le> 8" "length (show_nat le) \<le> 20"
  using length_show_base [of 16 code 7] length_show_nat [of le] assms by (simp_all add: show_hex_def)

lemma first_message_text:
  assumes "\<And>src i n t. msg src i n = Some t \<Longrightarrow> t \<noteq> [] \<and> length t < n \<and> NUL \<notin> set t"
    and "first_message msg i hs = Some s"
  shows "length s < MESSAGE_BUFFER_SIZE \<and> NUL \<notin> set s"
  using assms(2)
proof (induction hs)
  case (Cons h hs)
  then show ?case
    using plain_message_text [of "msg (Some h) i MESSAGE_BUFFER_SIZE" s] assms(1) [of "Some h" i MESSAGE_BUFFER_SIZE]
    by (fastforce split: option.splits)
qed simp

context error_library
begin

lemma plain_text:
  assumes "plain_message (message src i n) = Some s"
  shows "length s < n \<and> NUL \<notin> set s"
  using plain_message_text [OF assms] message_text [of src i n] by fastforce

lemma hresult_text_ok: "length (hresult_text R message h) < MESSAGE_BUFFER_SIZE \<and> NUL \<notin> set (hresult_text R message h)"
proof -
  let ?c = "to_uint32 h"
  note short = hresult_formats_short [OF to_uint32_less [of h] last_error_range]
  have n: "NUL \<notin> set (show_hex ?c)" "NUL \<notin> set (show_nat (last_error R))"
    by (simp_all add: show_hex_def show_nat_def show_base_no_NUL)
  show ?thesis
  proof (cases "plain_message (message None ?c MESSAGE_BUFFER_SIZE)")
    case None
    have "length s < 512 \<and> NUL \<notin> set s" if "first_message message ?c hs = Some s" for hs s
      using first_message_text [OF message_text that] by (simp add: MESSAGE_BUFFER_SIZE_def)
    with None short n show ?thesis
      by (auto simp: hresult_text_def Let_def stored_text_def MESSAGE_BUFFER_SIZE_def split: option.splits)
  qed (use plain_text in \<open>auto simp: hresult_text_def Let_def\<close>)
qed

lemma strerror_or_failure:
  assumes "accessible m b MESSAGE_BUFFER_SIZE" "length failure_text < MESSAGE_BUFFER_SIZE"
  shows "\<exists>m'. (do { (r, m1) \<leftarrow> strerror R e b MESSAGE_BUFFER_SIZE m;
        m2 \<leftarrow> (if r \<noteq> 0 then store_bytes m1 b (failure_text @ [NUL]) else Some m1);
        Some (int MESSAGE_BUFFER_SIZE, m2) }) = Some (int MESSAGE_BUFFER_SIZE, m') \<and>
     holds_text m b MESSAGE_BUFFER_SIZE (stored_text (error_text e MESSAGE_BUFFER_SIZE) failure_text) m'"
proof (cases "error_text e MESSAGE_BUFFER_SIZE")
  case None
  obtain r m1 where m1: "strerror R e b MESSAGE_BUFFER_SIZE m = Some (r, m1)" "r \<noteq> 0" "touches m b MESSAGE_BUFFER_SIZE m1"
    using strerror_fails [OF None assms(1)] by blast
  from store_text [OF touches_accessible [OF m1(3) assms(1)] assms(2)] None m1 show ?thesis
    by (auto simp: stored_text_def intro: holds_text_trans)
next
  case (Some t)
  with strerror_stores [OF Some assms(1)] show ?thesis by (auto simp: stored_text_def)
qed

end

lemmas failure_messages = strerror_r_failure_message_def strerror_s_failure_message_def FormatMessageA_failure_message_def
  MESSAGE_BUFFER_SIZE_def

sublocale error_library \<subseteq> errno_linux: value_function "log_errno_fill_property_linux R" MESSAGE_BUFFER_SIZE
  "stored_text (error_text (errno R) MESSAGE_BUFFER_SIZE) strerror_r_failure_message"
proof unfold_locales
  fix p m assume "p \<noteq> NULL" "accessible m p MESSAGE_BUFFER_SIZE"
  then show "\<exists>m'. log_errno_fill_property_linux R p m = Some (int MESSAGE_BUFFER_SIZE, m') \<and>
      holds_text m p MESSAGE_BUFFER_SIZE (stored_text (error_text (errno R) MESSAGE_BUFFER_SIZE) strerror_r_failure_message) m'"
    using strerror_or_failure [of m p strerror_r_failure_message "errno R"]
    by (simp add: log_errno_fill_property_linux_def failure_messages)
qed (auto simp: log_errno_fill_property_linux_def stored_text_def failure_messages dest: error_text split: option.splits)

sublocale error_library \<subseteq> errno_win32: value_function "log_errno_fill_property_win32 R" MESSAGE_BUFFER_SIZE
  "stored_text (error_text (errno R) MESSAGE_BUFFER_SIZE) strerror_s_failure_message"
proof unfold_locales
  fix p m assume "p \<noteq> NULL" "accessible m p MESSAGE_BUFFER_SIZE"
  then show "\<exists>m'. log_errno_fill_property_win32 R p m = Some (int MESSAGE_BUFFER_SIZE, m') \<and>
      holds_text m p MESSAGE_BUFFER_SIZE (stored_text (error_text (errno R) MESSAGE_BUFFER_SIZE) strerror_s_failure_message) m'"
    using strerror_or_failure [of m p strerror_s_failure_message "errno R"]
    by (simp add: log_errno_fill_property_win32_def failure_messages)
qed (auto simp: log_errno_fill_property_win32_def stored_text_def failure_messages dest: error_text split: option.splits)

sublocale error_library \<subseteq> lasterror: value_function "log_lasterror_fill_property R" MESSAGE_BUFFER_SIZE
  "stored_text (plain_message (message None (last_error R) MESSAGE_BUFFER_SIZE)) FormatMessageA_failure_message"
proof unfold_locales
  fix p m assume p: "p \<noteq> NULL" and a: "accessible m p MESSAGE_BUFFER_SIZE"
  let ?r = "plain_message (message None (last_error R) MESSAGE_BUFFER_SIZE)"
  obtain k m1 where k: "FormatMessageA_no_newline R None (last_error R) p MESSAGE_BUFFER_SIZE m = Some (k, m1)"
    "touches m p MESSAGE_BUFFER_SIZE m1"
    "case ?r of None \<Rightarrow> k = 0 | Some s \<Rightarrow> k = length s \<and> holds_text m p MESSAGE_BUFFER_SIZE s m1"
    using no_newline [OF a] by blast
  show "\<exists>m'. log_lasterror_fill_property R p m = Some (int MESSAGE_BUFFER_SIZE, m') \<and>
      holds_text m p MESSAGE_BUFFER_SIZE (stored_text ?r FormatMessageA_failure_message) m'"
  proof (cases ?r)
    case None
    have "length FormatMessageA_failure_message < MESSAGE_BUFFER_SIZE" by (simp add: failure_messages)
    from store_text [OF touches_accessible [OF k(2) a] this] None k p show ?thesis
      by (auto simp: log_lasterror_fill_property_def stored_text_def intro: holds_text_trans)
  next
    case (Some s)
    with plain_message_text [OF this] k p show ?thesis
      by (auto simp: log_lasterror_fill_property_def stored_text_def)
  qed
qed (auto simp: log_lasterror_fill_property_def stored_text_def failure_messages dest: plain_text split: option.splits)


context error_library
begin

lemmas contracts = errno_linux.writes errno_win32.writes lasterror.writes

end

text \<open>The value of \<open>LOG_HRESULT\<close> relies on the modules of the process fitting into the array.\<close>

locale error_library_modules = error_library +
  assumes modules: "modules_fit R"
begin

lemma hresult_fills:
  assumes "p \<noteq> NULL" and a: "accessible m p MESSAGE_BUFFER_SIZE"
  shows "\<exists>m'. log_hresult_fill_property R h p m = Some (int MESSAGE_BUFFER_SIZE, m') \<and>
     holds_text m p MESSAGE_BUFFER_SIZE (hresult_text R message h) m'"
proof -
  let ?c = "to_uint32 h" and ?M = MESSAGE_BUFFER_SIZE
  let ?unknown = "''unknown HRESULT 0x'' @ show_hex ?c"
  note unf = log_hresult_fill_property_def hresult_text_def Let_def stored_text_def
  note f = hresult_formats [OF to_uint32_less [of h] last_error_range]
  note short = hresult_formats_short [OF to_uint32_less [of h] last_error_range]
  obtain k m1 where k: "FormatMessageA_no_newline R None ?c p ?M m = Some (k, m1)" "touches m p ?M m1"
    "case plain_message (message None ?c ?M) of None \<Rightarrow> k = 0 | Some s \<Rightarrow> k = length s \<and> holds_text m p ?M s m1"
    using no_newline [OF a] by blast
  have a1: "accessible m1 p ?M" by (rule touches_accessible [OF k(2) a])
  show ?thesis
  proof (cases "plain_message (message None ?c ?M)")
    case (Some s)
    with plain_message_text [OF this] k assms(1) show ?thesis by (auto simp: unf)
  next
    case None
    with k(3) have k0: "k = 0" by simp
    show ?thesis
    proof (cases "EnumProcessModules R")
      case e: None
      have "\<exists>m'. print_or_fallback R ''failure in EnumProcessModules, LE=%lu, unknown HRESULT 0x%x''
          [AInt (int (last_error R)), AInt (int ?c)] p m1 = Some m' \<and> holds_text m1 p ?M
          (''failure in EnumProcessModules, LE='' @ show_nat (last_error R) @ '', '' @ ?unknown) m'"
        by (rule print_or_fallback_prints [OF f(2) _ a1]) (use short in \<open>simp add: MESSAGE_BUFFER_SIZE_def\<close>)
      with None e k k0 assms(1) show ?thesis
        by (auto simp: unf intro: holds_text_trans [OF k(2)])
    next
      case (Some r)
      then obtain hs used where e: "EnumProcessModules R = Some (hs, used)" by (cases r) auto
      with modules have n: "length hs = used div sizeof_HMODULE" "length hs \<le> N_MAX_MODULES"
        by (auto simp: modules_fit_def)
      obtain i m2 where i: "module_loop R h hs (length hs) 0 p m1 = Some (i, m2)" "touches m1 p ?M m2"
        "case first_message message ?c hs of None \<Rightarrow> i = length hs | Some s \<Rightarrow> i < length hs \<and> holds_text m1 p ?M s m2"
        using module_loop_finds [OF a1 order_refl, of 0 hs h] by auto
      note t2 = touches_trans [OF k(2) i(2)]
      have "\<exists>m'. print_or_fallback R ''unknown HRESULT 0x%x'' [AInt (int ?c)] p m2 = Some m' \<and> holds_text m2 p ?M ?unknown m'"
        by (rule print_or_fallback_prints [OF f(1) _ touches_accessible [OF i(2) a1]])
          (use short in \<open>simp add: MESSAGE_BUFFER_SIZE_def\<close>)
      with None e k k0 i n assms(1) show ?thesis
        by (auto simp: unf split: option.splits intro: holds_text_trans [OF k(2)] holds_text_trans [OF t2])
    qed
  qed
qed

end

sublocale error_library_modules \<subseteq> hresult: value_function "log_hresult_fill_property R h" MESSAGE_BUFFER_SIZE
  "hresult_text R message h" for h
  by unfold_locales (use hresult_text_ok hresult_fills in \<open>auto simp: log_hresult_fill_property_def\<close>)

context error_library_modules
begin

lemmas all_values = contracts hresult.writes

end


section \<open>Properties\<close>

text \<open>
  C26: \<open>FormatMessageA_no_newline\<close> stores the message without the carriage returns and line
  feeds at its end, terminated, and returns the number of characters that are left; it
  returns 0 when there is no message, and never writes outside the buffer.
\<close>
theorem no_newline_message:
  assumes "error_library R message error_text" "accessible m b n"
  shows "\<exists>k m'. FormatMessageA_no_newline R src i b n m = Some (k, m') \<and> unchanged m m' b n \<and>
     (case message src i n of None \<Rightarrow> k = 0
      | Some t \<Rightarrow> k = length (strip_newlines t) \<and> c_str m' b = Some (strip_newlines t))"
proof -
  have free: "NUL \<notin> set (strip_newlines t)" if "message src i n = Some t" for t
  proof -
    obtain nl where "t = strip_newlines t @ nl" using strip_newlines_split by blast
    then have "set (strip_newlines t) \<subseteq> set t" by (metis Un_upper1 set_append)
    with error_library.message_text [OF assms(1) that] show ?thesis by blast
  qed
  obtain k m' where k: "FormatMessageA_no_newline R src i b n m = Some (k, m')" "touches m b n m'"
    "case message src i n of None \<Rightarrow> k = 0
      | Some t \<Rightarrow> k = length (strip_newlines t) \<and> holds_text m b n (strip_newlines t) m'"
    using error_library.no_newline_strips [OF assms, of src i] by blast
  then have "case message src i n of None \<Rightarrow> k = 0
      | Some t \<Rightarrow> k = length (strip_newlines t) \<and> c_str m' b = Some (strip_newlines t)"
    by (auto simp: holds_text_def split: option.splits intro!: c_str_at free)
  with k show ?thesis by (auto simp: touches_def)
qed

text \<open>
  C16: The four value functions keep the contract of a custom property: asked without a buffer
  they want 512 bytes, and they fill a buffer of 512 bytes with a terminated text and write
  nowhere else.  The text is what the platform says about the error number, the last error or
  the HRESULT, without a newline at its end, and otherwise the text for the failure.  An
  HRESULT is looked up in the system and then in the modules in order; the function for it
  keeps the contract when the process has at most the 100 modules its array has room for (or
  they cannot be enumerated), and a query without a buffer in every case.
\<close>
theorem error_values:
  assumes "error_library R message error_text"
  shows "value_writes (log_errno_fill_property_linux R) 512
        (stored_text (error_text (errno R) 512) strerror_r_failure_message @ [NUL]) \<and>
     value_writes (log_errno_fill_property_win32 R) 512
        (stored_text (error_text (errno R) 512) strerror_s_failure_message @ [NUL]) \<and>
     value_writes (log_lasterror_fill_property R) 512
        (stored_text (plain_message (message None (last_error R) 512)) FormatMessageA_failure_message @ [NUL]) \<and>
     (modules_fit R \<longrightarrow> value_writes (log_hresult_fill_property R h) 512 (hresult_text R message h @ [NUL])) \<and>
     log_hresult_fill_property R h NULL m = Some (512, m)"
proof -
  have M: "MESSAGE_BUFFER_SIZE = 512" by (simp add: MESSAGE_BUFFER_SIZE_def)
  have "value_writes (log_hresult_fill_property R h) 512 (hresult_text R message h @ [NUL])" if "modules_fit R"
    using error_library_modules.all_values(4) [OF error_library_modules.intro [OF assms
        error_library_modules_axioms.intro [OF that]]] unfolding M .
  with error_library.contracts [OF assms] show ?thesis unfolding M
    by (auto simp: log_hresult_fill_property_def M)
qed

lemma module_loop_overruns:
  assumes "error_library R message error_text" "accessible m b MESSAGE_BUFFER_SIZE" "length hs < n" "i \<le> length hs"
    and "first_message message (to_uint32 h) (drop i hs) = None"
  shows "module_loop R h hs n i b m = None"
  using assms(2-)
proof (induction "length hs - i" arbitrary: i m)
  case 0
  then show ?case by (subst module_loop.simps) simp
next
  case (Suc d)
  then have i: "i < length hs" "i < n" by simp_all
  have hd: "drop i hs = hs ! i # drop (Suc i) hs" using i(1) by (rule Cons_nth_drop_Suc [symmetric])
  with Suc.prems have none: "plain_message (message (Some (hs ! i)) (to_uint32 h) MESSAGE_BUFFER_SIZE) = None"
    "first_message message (to_uint32 h) (drop (Suc i) hs) = None" by (auto split: option.splits)
  obtain m1 where m1: "FormatMessageA_no_newline R (Some (hs ! i)) (to_uint32 h) b MESSAGE_BUFFER_SIZE m = Some (0, m1)"
    "touches m b MESSAGE_BUFFER_SIZE m1"
    using error_library.no_newline [OF assms(1) Suc.prems(1), of "Some (hs ! i)" "to_uint32 h"] none(1) by auto
  have "module_loop R h hs n (Suc i) b m1 = None"
    by (rule Suc.hyps(1)) (use Suc i none touches_accessible [OF m1(2)] in auto)
  with m1(1) i show ?case by (subst module_loop.simps) simp
qed

text \<open>
  C39: In a process with more than 100 modules the loop over the modules reads behind the
  array of handles when neither the system nor the first 100 modules know the HRESULT: the
  bound of the loop is the number of modules of the process, not of the handles stored.
\<close>
theorem hresult_modules_overrun:
  assumes "error_library R message error_text" "EnumProcessModules R = Some (hs, used)" "N_MAX_MODULES < used div sizeof_HMODULE"
    and "plain_message (message None (to_uint32 h) MESSAGE_BUFFER_SIZE) = None"
      "first_message message (to_uint32 h) (take N_MAX_MODULES hs) = None"
    and "b \<noteq> NULL" "accessible m b MESSAGE_BUFFER_SIZE"
  shows "log_hresult_fill_property R h b m = None"
proof -
  obtain m1 where m1: "FormatMessageA_no_newline R None (to_uint32 h) b MESSAGE_BUFFER_SIZE m = Some (0, m1)"
    "touches m b MESSAGE_BUFFER_SIZE m1"
    using error_library.no_newline [OF assms(1,7), of None "to_uint32 h"] assms(4) by auto
  have "module_loop R h (take N_MAX_MODULES hs) (used div sizeof_HMODULE) 0 b m1 = None"
    by (rule module_loop_overruns [OF assms(1) touches_accessible [OF m1(2) assms(7)]]) (use assms(3,5) in auto)
  with m1(1) assms(2,6) show ?thesis by (simp add: log_hresult_fill_property_def)
qed


section \<open>Witnesses\<close>

text \<open>A platform with one message of the system, one of a module, and one error number.\<close>

definition demo_message :: "addr option \<Rightarrow> nat \<Rightarrow> nat \<Rightarrow> string option" where
  "demo_message src i n =
     (if 19 < n \<and> src = None \<and> i = 5 then Some (''Access is denied.'' @ [CR, LF])
      else if 17 < n \<and> src = Some 77 \<and> i = 2147500037 then Some ''Unspecified error''
      else None)"

definition demo_error_text :: "int \<Rightarrow> nat \<Rightarrow> string option" where
  "demo_error_text e n = (if e = 2 \<and> 25 < n then Some ''No such file or directory'' else None)"

definition demo_error_env :: "addr list \<Rightarrow> nat \<Rightarrow> error_env" where
  "demo_error_env hs used = \<lparr>errlib = std_env, errno = 2,
     strerror = (\<lambda>e b n m. case demo_error_text e n of None \<Rightarrow> Some (22, m)
        | Some t \<Rightarrow> map_option (Pair 0) (store_bytes m b (t @ [NUL]))),
     FormatMessageA = (\<lambda>src i b n m. case demo_message src i n of None \<Rightarrow> Some (0, m)
        | Some t \<Rightarrow> map_option (Pair (length t)) (store_bytes m b (t @ [NUL]))),
     last_error = 5, EnumProcessModules = Some (hs, used)\<rparr>"

lemma demo_message_text: "demo_message src i n = Some t \<Longrightarrow> t \<noteq> [] \<and> length t < n \<and> NUL \<notin> set t"
  by (auto simp: demo_message_def CR_def LF_def split: if_splits)

lemma demo_error_library: "error_library (demo_error_env hs used) demo_message demo_error_text"
proof
  fix src i n t m b
  assume t: "demo_message src i n = Some t" and a: "accessible m b n"
  then show "\<exists>m'. FormatMessageA (demo_error_env hs used) src i b n m = Some (length t, m') \<and> holds_text m b n t m'"
    using store_text [OF a] demo_message_text [OF t] by (auto simp: demo_error_env_def)
next
  fix e n t m b
  assume t: "demo_error_text e n = Some t" and a: "accessible m b n"
  then have "length t < n" by (auto simp: demo_error_text_def split: if_splits)
  with t store_text [OF a this]
  show "\<exists>m'. strerror (demo_error_env hs used) e b n m = Some (0, m') \<and> holds_text m b n t m'"
    by (auto simp: demo_error_env_def)
next
  fix src i n t
  assume "demo_message src i n = Some t"
  then show "t \<noteq> [] \<and> length t < n \<and> NUL \<notin> set t" by (rule demo_message_text)
qed (auto simp: demo_error_env_def demo_error_text_def conforming_std_env split: if_splits)

interpretation demo_errors: error_library_modules "demo_error_env [11, 77] 16" demo_message demo_error_text
  by (intro error_library_modules.intro demo_error_library error_library_modules_axioms.intro)
    (simp add: modules_fit_def demo_error_env_def sizeof_HMODULE_def N_MAX_MODULES_def)

lemma demo_access_denied: "strip_newlines (''Access is denied.'' @ [CR, LF]) = ''Access is denied.''"
  by (simp add: strip_newlines_def CR_def LF_def)

theorem no_newline_message_witness:
  "\<exists>k m'. FormatMessageA_no_newline (demo_error_env [] 0) None 5 1000 512 demo_stack = Some (k, m') \<and>
     unchanged demo_stack m' 1000 512 \<and> k = length ''Access is denied.'' \<and> c_str m' 1000 = Some ''Access is denied.''"
proof -
  have m: "demo_message None 5 512 = Some (''Access is denied.'' @ [CR, LF])" by (simp add: demo_message_def)
  have "accessible demo_stack 1000 512" by (rule demo_stack_accessible) simp_all
  from no_newline_message [OF demo_error_library this, of "[]" 0 None 5] show ?thesis
    unfolding m option.case demo_access_denied by simp
qed

lemma demo_hresult_text: "hresult_text (demo_error_env [11, 77] 16) demo_message (- 2147467259) = ''Unspecified error''"
proof -
  have "to_uint32 (- 2147467259) = 2147500037" by (simp add: to_uint32_def)
  moreover have "strip_newlines ''Unspecified error'' = ''Unspecified error''" by (simp add: strip_newlines_def CR_def LF_def)
  ultimately show ?thesis
    by (simp add: hresult_text_def Let_def demo_error_env_def demo_message_def plain_message_def stored_text_def
        MESSAGE_BUFFER_SIZE_def)
qed

theorem error_values_witness:
  "value_writes (log_errno_fill_property_linux (demo_error_env [11, 77] 16)) 512 (''No such file or directory'' @ [NUL]) \<and>
   value_writes (log_lasterror_fill_property (demo_error_env [11, 77] 16)) 512 (''Access is denied.'' @ [NUL]) \<and>
   value_writes (log_hresult_fill_property (demo_error_env [11, 77] 16) (- 2147467259)) 512 (''Unspecified error'' @ [NUL])"
proof -
  have "plain_message (demo_message None 5 512) = Some ''Access is denied.''"
    using demo_access_denied by (simp add: demo_message_def plain_message_def)
  moreover have "errno (demo_error_env [11, 77] 16) = 2" "last_error (demo_error_env [11, 77] 16) = 5"
    by (simp_all add: demo_error_env_def)
  ultimately show ?thesis
    using error_values [OF demo_error_library, of "[11, 77]" 16 "- 2147467259"] demo_errors.modules
    by (simp add: stored_text_def demo_error_text_def demo_hresult_text)
qed

lemma demo_unknown: "first_message demo_message 2 hs = None" "plain_message (demo_message src 2 n) = None"
  by (induction hs) (auto simp: demo_message_def plain_message_def)

theorem hresult_modules_overrun_witness:
  "log_hresult_fill_property (demo_error_env (replicate 100 77) 808) 2 1000 demo_stack = None"
proof -
  have a: "accessible demo_stack 1000 MESSAGE_BUFFER_SIZE"
    by (rule demo_stack_accessible) (simp_all add: MESSAGE_BUFFER_SIZE_def)
  show ?thesis
    by (rule hresult_modules_overrun [OF demo_error_library _ _ _ _ _ a, where hs = "replicate 100 77" and used = 808])
      (simp_all add: demo_error_env_def sizeof_HMODULE_def N_MAX_MODULES_def demo_unknown to_uint32_def)
qed

end
