(* ===== verification/Logger_V1_V2.thy ===== *)
theory Logger_V1_V2
  imports Logger_Sinks Error_Properties
begin

text \<open>
  \<open>logger_v1_v2.h\<close>: the log macros of the first version of the library on top of the logger.
  \<open>LogLastError\<close> and \<open>LogErrorNo\<close> add the text of an error to the message; that this text
  reaches the sinks rests on the contract of the value functions.
\<close>

section \<open>The macros\<close>

definition LogCritical :: "call_site \<Rightarrow> string \<Rightarrow> carg list \<Rightarrow> 'w logger \<Rightarrow> failure + 'w logger" where
  "LogCritical site f args = LOGGER_LOG site LOG_LEVEL_CRITICAL None f args"

definition LogError :: "call_site \<Rightarrow> string \<Rightarrow> carg list \<Rightarrow> 'w logger \<Rightarrow> failure + 'w logger" where
  "LogError site f args = LOGGER_LOG site LOG_LEVEL_ERROR None f args"

definition LogWarning :: "call_site \<Rightarrow> string \<Rightarrow> carg list \<Rightarrow> 'w logger \<Rightarrow> failure + 'w logger" where
  "LogWarning site f args = LOGGER_LOG site LOG_LEVEL_WARNING None f args"

definition LogInfo :: "call_site \<Rightarrow> string \<Rightarrow> carg list \<Rightarrow> 'w logger \<Rightarrow> failure + 'w logger" where
  "LogInfo site f args = LOGGER_LOG site LOG_LEVEL_INFO None f args"

definition LogVerbose :: "call_site \<Rightarrow> string \<Rightarrow> carg list \<Rightarrow> 'w logger \<Rightarrow> failure + 'w logger" where
  "LogVerbose site f args = LOGGER_LOG site LOG_LEVEL_VERBOSE None f args"

definition LogLastError ::
    "error_env \<Rightarrow> bool \<Rightarrow> addr \<Rightarrow> call_site \<Rightarrow> string \<Rightarrow> carg list \<Rightarrow> 'c app logger \<Rightarrow> (failure + 'c app logger) option" where
  "LogLastError R ab frame site f args =
     LOGGER_LOG_EX (errlib R) ab frame site LOG_LEVEL_ERROR [LOG_LASTERROR R, LOG_MESSAGE f args]"

text \<open>\<open>LOG_ERRNO\<close> is the one of the platform.\<close>

definition LogErrorNo ::
    "(error_env \<Rightarrow> field_desc) \<Rightarrow> error_env \<Rightarrow> bool \<Rightarrow> addr \<Rightarrow> call_site \<Rightarrow> string \<Rightarrow> carg list \<Rightarrow> 'c app logger \<Rightarrow>
     (failure + 'c app logger) option" where
  "LogErrorNo LOG_ERRNO R ab frame site f args =
     LOGGER_LOG_EX (errlib R) ab frame site LOG_LEVEL_ERROR [LOG_ERRNO R, LOG_MESSAGE f args]"

section \<open>The error in the line\<close>

text \<open>
  What a log call at the level \<open>l\<close> relies on apart from the error: the logger runs with the
  configured sinks, and there is room for the context and the line.
\<close>

definition can_log :: "app_env \<Rightarrow> LOG_LEVEL \<Rightarrow> addr \<Rightarrow> call_site \<Rightarrow> string \<Rightarrow> carg list \<Rightarrow> ptree list \<Rightarrow> string \<Rightarrow> 'c app logger \<Rightarrow> bool" where
  "can_log A l frame site f args ts msg s \<longleftrightarrow> l \<in> set LOG_LEVEL_VALUES \<and> running A s \<and> 0 < frame \<and>
     accessible (memory (world s)) frame 4096 \<and> buffers_ready A None (memory (world s)) \<and> frame_apart A frame \<and>
     (\<forall>h. call_prints A (call_at site l h f args) ts msg)"

definition can_log_error :: "app_env \<Rightarrow> addr \<Rightarrow> call_site \<Rightarrow> string \<Rightarrow> carg list \<Rightarrow> ptree list \<Rightarrow> string \<Rightarrow> 'c app logger \<Rightarrow> bool" where
  "can_log_error A = can_log A LOG_LEVEL_ERROR"

context value_function
begin

lemma describes_error:
  assumes "c_library E" "short_name nm" "int size \<le> INT_MAX"
  shows "describes_as E [LOG_CONTEXT_PROPERTY_CUSTOM_FUNCTION (ascii_char_ptr_log_context_property_type E) nm vf, LOG_MESSAGE f args]
     size [Field nm content]"
proof -
  have "readable x" if "x = (nm, ascii_char_ptr_log_context_property_type E, content @ [NUL])" for x
    using that by (simp add: readable_def ascii_char_ptr_log_context_property_type_def
        ascii_char_ptr_log_context_property_type_get_type_def)
  then have "shape sink_law [Field nm content] [(nm, ascii_char_ptr_log_context_property_type E, content @ [NUL])]"
    by (intro readable_shape has_shape assms) simp
  moreover have "arguments E [LOG_CONTEXT_PROPERTY_CUSTOM_FUNCTION (ascii_char_ptr_log_context_property_type E) nm vf,
      LOG_MESSAGE f args] (size + (0 + 0)) ([(nm, ascii_char_ptr_log_context_property_type E, content @ [NUL])] @ [] @ [])"
    by (intro arguments.intros is_argument argument.message)
  ultimately show ?thesis unfolding describes_as_def by auto
qed

lemma error_line:
  assumes "c_library E" "short_name nm" "size < 4096" "can_log A l frame site f args [Struct '''' [Field nm content]] msg (s :: 'c app logger)"
  shows "\<exists>w'. LOGGER_LOG_EX E ab frame site l
       [LOG_CONTEXT_PROPERTY_CUSTOM_FUNCTION (ascii_char_ptr_log_context_property_type E) nm vf, LOG_MESSAGE f args] s =
       Some (Inr (s\<lparr>world := w'\<rparr>)) \<and>
     logs_line A frame (call_at site l None f args) [Struct '''' [Field nm content]] msg (world s) w'"
  by (rule log_ex_logs [OF _ _ _ _ describes_error _ assms(3)])
    (use assms in \<open>auto simp: can_log_def the_message_def LOG_CONTEXT_CHECK_VARIABLE_ARGS_def INT_MAX_def\<close>)

end

lemma error_names: "short_name ''LastError''" "short_name ''errno_value''" "short_name ''hresult''"
  by (simp_all add: short_name_def INT_MAX_def)

lemma message_buffer_small: "MESSAGE_BUFFER_SIZE < 4096"
  by (simp add: MESSAGE_BUFFER_SIZE_def)

context error_library
begin

lemma last_error_logs:
  assumes "c_library (errlib R)" "can_log_error A frame site f args ts msg (s :: 'c app logger)"
    and "ts = [Struct '''' [Field ''LastError''
       (stored_text (plain_message (message None (last_error R) MESSAGE_BUFFER_SIZE)) FormatMessageA_failure_message)]]"
  shows "\<exists>w'. LogLastError R ab frame site f args s = Some (Inr (s\<lparr>world := w'\<rparr>)) \<and>
     logs_line A frame (call_at site LOG_LEVEL_ERROR None f args) ts msg (world s) w'"
  unfolding LogLastError_def LOG_LASTERROR_def assms(3)
  by (rule lasterror.error_line [OF assms(1) error_names(1) message_buffer_small])
    (use assms(2,3) in \<open>simp add: can_log_error_def\<close>)

lemma errno_logs:
  assumes "c_library (errlib R)" "can_log_error A frame site f args ts msg (s :: 'c app logger)"
    and "LOG_ERRNO = LOG_ERRNO_linux \<and> failed = strerror_r_failure_message \<or> LOG_ERRNO = LOG_ERRNO_win32 \<and> failed = strerror_s_failure_message"
    and "ts = [Struct '''' [Field ''errno_value'' (stored_text (error_text (errno R) MESSAGE_BUFFER_SIZE) failed)]]"
  shows "\<exists>w'. LogErrorNo LOG_ERRNO R ab frame site f args s = Some (Inr (s\<lparr>world := w'\<rparr>)) \<and>
     logs_line A frame (call_at site LOG_LEVEL_ERROR None f args) ts msg (world s) w'"
  using assms(3)
proof (elim disjE conjE)
  assume p: "LOG_ERRNO = LOG_ERRNO_linux" "failed = strerror_r_failure_message"
  show ?thesis unfolding LogErrorNo_def p LOG_ERRNO_linux_def assms(4)
    by (rule errno_linux.error_line [OF assms(1) error_names(2) message_buffer_small])
      (use assms(2,4) p in \<open>simp add: can_log_error_def\<close>)
next
  assume p: "LOG_ERRNO = LOG_ERRNO_win32" "failed = strerror_s_failure_message"
  show ?thesis unfolding LogErrorNo_def p LOG_ERRNO_win32_def assms(4)
    by (rule errno_win32.error_line [OF assms(1) error_names(2) message_buffer_small])
      (use assms(2,4) p in \<open>simp add: can_log_error_def\<close>)
qed

end

context error_library_modules
begin

lemma hresult_logs:
  assumes "c_library (errlib R)" "can_log A l frame site f args ts msg (s :: 'c app logger)"
    and "ts = [Struct '''' [Field ''hresult'' (hresult_text R message h)]]"
  shows "\<exists>w'. LOGGER_LOG_EX (errlib R) ab frame site l [LOG_HRESULT R h, LOG_MESSAGE f args] s =
       Some (Inr (s\<lparr>world := w'\<rparr>)) \<and>
     logs_line A frame (call_at site l None f args) ts msg (world s) w'"
  unfolding LOG_HRESULT_def assms(3)
  by (rule hresult.error_line [OF assms(1) error_names(3) message_buffer_small])
    (use assms(2,3) in simp)

end

text \<open>
  C11: \<open>LogLastError\<close> prints the last error: the line on the console (and what the callback
  receives) is at the level error and holds, as the only property, \<open>LastError\<close> with the text of
  the system's message without its newline, or the text that says that there is none, and
  then the message.
\<close>
theorem last_error_line:
  assumes "error_library R message error_text" "c_library (errlib R)"
    and "can_log_error A frame site f args [Struct '''' [Field ''LastError'' t]] msg s"
    and "t = stored_text (plain_message (message None (last_error R) 512)) ''failure in FormatMessageA''"
  shows "\<exists>w'. LogLastError R ab frame site f args s = Some (Inr (s\<lparr>world := w'\<rparr>)) \<and>
     logs_line A frame (call_at site LOG_LEVEL_ERROR None f args) [Struct '''' [Field ''LastError'' t]] msg (world s) w'"
  by (rule error_library.last_error_logs [OF assms(1-3)])
    (simp add: assms(4) MESSAGE_BUFFER_SIZE_def FormatMessageA_failure_message_def)

text \<open>
  C37: \<open>LogErrorNo\<close> prints the error number's text in the same way, as the property
  \<open>errno_value\<close>, on Linux and on Windows; only the text for an error number without one differs.
\<close>
theorem error_no_line:
  assumes "error_library R message error_text" "c_library (errlib R)"
    and "LOG_ERRNO = LOG_ERRNO_linux \<and> failed = ''failure in strerror_r'' \<or> LOG_ERRNO = LOG_ERRNO_win32 \<and> failed = ''failure in strerror_s''"
    and "can_log_error A frame site f args [Struct '''' [Field ''errno_value'' t]] msg s"
    and "t = stored_text (error_text (errno R) 512) failed"
  shows "\<exists>w'. LogErrorNo LOG_ERRNO R ab frame site f args s = Some (Inr (s\<lparr>world := w'\<rparr>)) \<and>
     logs_line A frame (call_at site LOG_LEVEL_ERROR None f args) [Struct '''' [Field ''errno_value'' t]] msg (world s) w'"
  by (rule error_library.errno_logs [OF assms(1,2,4), where failed = failed])
    (use assms(3,5) in \<open>auto simp: MESSAGE_BUFFER_SIZE_def strerror_r_failure_message_def strerror_s_failure_message_def\<close>)

text \<open>
  C38: A line with \<open>LOG_HRESULT\<close>, at any level of the enumeration, holds, as the only property,
  \<open>hresult\<close> with the text for the value: the system's message without its newline, or else the one
  of the first module that has one, or else a text with the value in hexadecimal, and before it the
  error when the modules cannot be enumerated.  This holds in processes of at most 100
  modules, the handles the array of the value function has room for.
\<close>
theorem hresult_line:
  assumes "error_library R message error_text" "modules_fit R" "c_library (errlib R)"
    and "can_log A l frame site f args [Struct '''' [Field ''hresult'' (hresult_text R message h)]] msg s"
  shows "\<exists>w'. LOGGER_LOG_EX (errlib R) ab frame site l [LOG_HRESULT R h, LOG_MESSAGE f args] s =
       Some (Inr (s\<lparr>world := w'\<rparr>)) \<and>
     logs_line A frame (call_at site l None f args) [Struct '''' [Field ''hresult'' (hresult_text R message h)]] msg (world s) w'"
proof -
  have "error_library_modules R message error_text"
    using assms(1,2) by (intro error_library_modules.intro error_library_modules_axioms.intro)
  from error_library_modules.hresult_logs [OF this assms(3,4) refl] show ?thesis .
qed


section \<open>Witnesses\<close>

lemma demo_error_prints:
  assumes "NUL \<notin> set (render ts)"
  shows "call_prints demo_app (call_at demo_site LOG_LEVEL_ERROR h ''failed'' []) ts ''failed''"
proof -
  let ?H = "console_header demo_sink LOG_LEVEL_ERROR (Some ''f.c'') (Some ''main'') 42"
  have f: "fmt std_env ''failed'' [] = Some ''failed''" by code_simp
  have l: "lib (console_env demo_app) = std_env" "lib (callback_env demo_app) = std_env"
    by (simp_all add: demo_app_def demo_sink_def)
  have "console_header (console_env demo_app) LOG_LEVEL_ERROR (Some ''f.c'') (Some ''main'') 42 = ?H"
    by (simp add: demo_app_def console_header_def ctime_result_def)
  moreover have "length ?H < 100" "NUL \<notin> set ?H" by code_simp+
  ultimately show ?thesis using assms f
    by (simp add: call_prints_def call_at_def demo_site_def line_prints_def demo_headers l)
      (simp add: INT_MAX_def LOG_MAX_MESSAGE_LENGTH_def)
qed

lemma demo_can_log_error:
  assumes "NUL \<notin> set (render ts)"
  shows "can_log_error demo_app 1000 demo_site ''failed'' [] ts ''failed'' demo_program"
  using demo_error_prints [OF assms]
  by (simp add: can_log_error_def can_log_def LOG_LEVEL_VALUES_def demo_running demo_memory_app demo_buffers demo_stack_accessible)

lemma demo_errlib: "errlib (demo_error_env [] 0) = std_env" "errno (demo_error_env [] 0) = 2" "last_error (demo_error_env [] 0) = 5"
  by (simp_all add: demo_error_env_def)

theorem last_error_line_witness:
  "\<exists>w'. LogLastError (demo_error_env [] 0) False 1000 demo_site ''failed'' [] demo_program = Some (Inr (demo_program\<lparr>world := w'\<rparr>)) \<and>
     logs_line demo_app 1000 (call_at demo_site LOG_LEVEL_ERROR None ''failed'' [])
       [Struct '''' [Field ''LastError'' ''Access is denied.'']] ''failed'' (world demo_program) w'"
proof (rule last_error_line [OF demo_error_library _ demo_can_log_error])
  show "''Access is denied.'' = stored_text (plain_message (demo_message None (last_error (demo_error_env [] 0)) 512))
      ''failure in FormatMessageA''"
    using demo_access_denied by (simp add: demo_errlib demo_message_def plain_message_def stored_text_def)
qed (simp_all add: demo_errlib std.c_library_axioms)

theorem error_no_line_witness:
  "\<exists>w'. LogErrorNo LOG_ERRNO_win32 (demo_error_env [] 0) False 1000 demo_site ''failed'' [] demo_program =
       Some (Inr (demo_program\<lparr>world := w'\<rparr>)) \<and>
     logs_line demo_app 1000 (call_at demo_site LOG_LEVEL_ERROR None ''failed'' [])
       [Struct '''' [Field ''errno_value'' ''No such file or directory'']] ''failed'' (world demo_program) w'"
proof (rule error_no_line [OF demo_error_library _ _ demo_can_log_error, where failed = "''failure in strerror_s''"])
  show "''No such file or directory'' = stored_text (demo_error_text (errno (demo_error_env [] 0)) 512) ''failure in strerror_s''"
    by (simp add: demo_errlib demo_error_text_def stored_text_def)
qed (simp_all add: demo_errlib std.c_library_axioms)

theorem hresult_line_witness:
  "\<exists>w'. LOGGER_LOG_EX std_env False 1000 demo_site LOG_LEVEL_ERROR
       [LOG_HRESULT (demo_error_env [11, 77] 16) (- 2147467259), LOG_MESSAGE ''failed'' []] demo_program =
       Some (Inr (demo_program\<lparr>world := w'\<rparr>)) \<and>
     logs_line demo_app 1000 (call_at demo_site LOG_LEVEL_ERROR None ''failed'' [])
       [Struct '''' [Field ''hresult'' ''Unspecified error'']] ''failed'' (world demo_program) w'"
proof -
  have l: "errlib (demo_error_env [11, 77] 16) = std_env" by (simp add: demo_error_env_def)
  have c: "can_log demo_app LOG_LEVEL_ERROR 1000 demo_site ''failed'' []
     [Struct '''' [Field ''hresult'' (hresult_text (demo_error_env [11, 77] 16) demo_message (- 2147467259))]] ''failed'' demo_program"
    unfolding demo_hresult_text using demo_can_log_error by (simp add: can_log_error_def)
  from hresult_line [OF demo_error_library demo_errors.modules _ c] show ?thesis
    unfolding l demo_hresult_text by (simp add: std.c_library_axioms)
qed

end
