(* ===== verification/Context_Programs.thy ===== *)
theory Context_Programs
  imports Logger_Sinks
begin

text \<open>
  Programs that build contexts and log with them: \<open>LOG_CONTEXT_LOCAL_DEFINE\<close>,
  \<open>LOG_CONTEXT_CREATE\<close>, \<open>LOG_CONTEXT_DESTROY\<close>, \<open>LOGGER_LOG\<close> and \<open>LOGGER_LOG_EX\<close> in any order, with
  contexts on top of contexts to any depth.  A type of a context is an upper bound of its entries
  and bytes and where it lives; \<open>type_check\<close> follows the bounds through a program, and a program
  that checks does not run into undefined behaviour and does not abort, whether or not the
  allocations succeed.
\<close>

section \<open>Programs\<close>

text \<open>
  The contexts of a program, in the order in which they are made: on the stack, on the heap (with
  the address of the block, or \<open>NULL\<close>), or destroyed.
\<close>

datatype context_object = Local LOG_CONTEXT | Heap "(addr \<times> LOG_CONTEXT) option" | Destroyed

fun object_handle :: "context_object \<Rightarrow> LOG_CONTEXT_HANDLE" where
  "object_handle (Local C) = Some C"
| "object_handle (Heap h) = map_option snd h"
| "object_handle Destroyed = None"

definition handle_at :: "context_object list \<Rightarrow> nat option \<Rightarrow> LOG_CONTEXT_HANDLE" where
  "handle_at cs i = (case i of None \<Rightarrow> None | Some i \<Rightarrow> object_handle (cs ! i))"

text \<open>An operation names a context by its number; no number stands for \<open>NULL\<close>.\<close>

datatype operation =
    Define addr "nat option" "field_desc list" \<comment> \<open>in the frame at an address, on top of a parent\<close>
  | Create "nat option" "field_desc list"
  | Destroy nat
  | Log call_site LOG_LEVEL "nat option" string "carg list"
  | Log_ex addr call_site LOG_LEVEL "field_desc list"

record allocator =
  heap_malloc :: "nat \<Rightarrow> mem \<Rightarrow> addr \<times> mem"
  heap_free :: "addr \<Rightarrow> mem \<Rightarrow> mem"

type_synonym 'c program_state = "'c app logger \<times> context_object list"

definition after_call :: "stdout_call list \<Rightarrow> mem \<Rightarrow> 'c app logger \<Rightarrow> 'c app logger" where
  "after_call out m' s = s\<lparr>world := (world s)\<lparr>stdout := stdout (world s) @ out, memory := m'\<rparr>\<rparr>"

fun execute :: "c_env \<Rightarrow> bool \<Rightarrow> allocator \<Rightarrow> operation \<Rightarrow> 'c program_state \<Rightarrow> failure + 'c program_state" where
  "execute E ab M (Define frame i fds) (s, cs) =
     (case LOG_CONTEXT_LOCAL_DEFINE E ab frame (handle_at cs i) fds (memory (world s)) of
        Inl e \<Rightarrow> Inl e
      | Inr (C, out, m') \<Rightarrow> Inr (after_call out m' s, cs @ [Local C]))"
| "execute E ab M (Create i fds) (s, cs) =
     (case LOG_CONTEXT_CREATE E (heap_malloc M) (handle_at cs i) fds (memory (world s)) of
        None \<Rightarrow> Inl Undefined
      | Some (h, out, m') \<Rightarrow> Inr (after_call out m' s, cs @ [Heap h]))"
| "execute E ab M (Destroy i) (s, cs) =
     (case cs ! i of
        Heap h \<Rightarrow> Inr (after_call [] (LOG_CONTEXT_DESTROY (heap_free M) h (memory (world s))) s, cs[i := Destroyed])
      | _ \<Rightarrow> Inl Undefined)"
| "execute E ab M (Log site l i f args) (s, cs) =
     (case LOGGER_LOG site l (handle_at cs i) f args s of Inl e \<Rightarrow> Inl e | Inr s' \<Rightarrow> Inr (s', cs))"
| "execute E ab M (Log_ex frame site l fds) (s, cs) =
     (case LOGGER_LOG_EX E ab frame site l fds s of
        None \<Rightarrow> Inl Undefined
      | Some (Inl e) \<Rightarrow> Inl e
      | Some (Inr s') \<Rightarrow> Inr (s', cs))"

fun run_program :: "c_env \<Rightarrow> bool \<Rightarrow> (operation \<times> allocator) list \<Rightarrow> 'c program_state \<Rightarrow> failure + 'c program_state" where
  "run_program E ab [] st = Inr st"
| "run_program E ab ((x, M) # xs) st =
     (case execute E ab M x st of Inl e \<Rightarrow> Inl e | Inr st' \<Rightarrow> run_program E ab xs st')"

section \<open>The types of contexts\<close>

datatype context_type = On_stack addr nat nat | On_heap nat nat | Gone

fun bounds :: "context_type \<Rightarrow> (nat \<times> nat) option" where
  "bounds (On_stack frame k n) = Some (k, n)"
| "bounds (On_heap k n) = Some (k, n)"
| "bounds Gone = None"

definition parent_bounds :: "context_type list \<Rightarrow> nat option \<Rightarrow> (nat \<times> nat) option" where
  "parent_bounds G i = (case i of None \<Rightarrow> Some (0, 0) | Some i \<Rightarrow> if i < length G then bounds (G ! i) else None)"

text \<open>The bytes of arguments whose values and texts are known to be well formed.\<close>

definition argument_bytes :: "c_env \<Rightarrow> field_desc list \<Rightarrow> nat option" where
  "argument_bytes E fds =
     (if list_all (plain_argument E) fds \<and> LOG_CONTEXT_CHECK_VARIABLE_ARGS fds
      then map_option (nat \<circ> fst) (count_data_bytes E fds (\<lambda>_. None)) else None)"

definition unused_frame :: "context_type list \<Rightarrow> addr \<Rightarrow> bool" where
  "unused_frame G frame = list_all (\<lambda>t. case t of
       On_stack f k n \<Rightarrow> frame + LOG_MAX_STACK_DATA_SIZE \<le> f \<or> f + LOG_MAX_STACK_DATA_SIZE \<le> frame
     | _ \<Rightarrow> True) G"

text \<open>\<open>F\<close> are the frames of the program.\<close>

definition check_define :: "c_env \<Rightarrow> addr list \<Rightarrow> addr \<Rightarrow> nat option \<Rightarrow> field_desc list \<Rightarrow> context_type list \<Rightarrow> context_type option" where
  "check_define E F frame i fds G = do {
     (k, n) \<leftarrow> parent_bounds G i;
     w \<leftarrow> argument_bytes E fds;
     if frame \<in> set F \<and> unused_frame G frame \<and> k + 1 + count_properties fds \<le> LOG_MAX_STACK_PROPERTY_VALUE_PAIR_COUNT \<and>
        n + 1 + w \<le> LOG_MAX_STACK_DATA_SIZE
     then Some (On_stack frame (k + 1 + count_properties fds) (n + 1 + w)) else None }"

fun type_check :: "c_env \<Rightarrow> addr list \<Rightarrow> operation \<Rightarrow> context_type list \<Rightarrow> context_type list option" where
  "type_check E F (Define frame i fds) G = map_option (\<lambda>t. G @ [t]) (check_define E F frame i fds G)"
| "type_check E F (Create i fds) G = do {
     (k, n) \<leftarrow> parent_bounds G i;
     w \<leftarrow> argument_bytes E fds;
     if k + 1 + count_properties fds < 65536 \<and> n + 1 + w < 4294967296 \<and> count_properties fds < 255
     then Some (G @ [On_heap (k + 1 + count_properties fds) (n + 1 + w)]) else None }"
| "type_check E F (Destroy i) G =
     (if i < length G \<and> (case G ! i of On_heap k n \<Rightarrow> True | _ \<Rightarrow> False) then Some (G[i := Gone]) else None)"
| "type_check E F (Log site l i f args) G =
     (if l \<in> set LOG_LEVEL_VALUES \<and> parent_bounds G i \<noteq> None then Some G else None)"
| "type_check E F (Log_ex frame site l fds) G =
     (if l \<in> set LOG_LEVEL_VALUES \<and> the_message fds \<noteq> None \<and> check_define E F frame None fds G \<noteq> None
      then Some G else None)"

fun type_check_all :: "c_env \<Rightarrow> addr list \<Rightarrow> operation list \<Rightarrow> context_type list \<Rightarrow> context_type list option" where
  "type_check_all E F [] G = Some G"
| "type_check_all E F (x # xs) G = Option.bind (type_check E F x G) (type_check_all E F xs)"

section \<open>Well-typed states\<close>

text \<open>The bytes that belong to a context, with the header and the entries of a block of the heap.\<close>

fun region :: "context_object \<Rightarrow> addr set" where
  "region (Local C) = {values_data C..<values_data C + LOG_MAX_STACK_DATA_SIZE}"
| "region (Heap (Some (p, C))) = {p..<p + context_block_size (property_value_pair_count C) (values_data_length C)}"
| "region _ = {}"

definition reserved :: "app_env \<Rightarrow> addr list \<Rightarrow> addr set" where
  "reserved A F = (\<Union>f\<in>set F. {f..<f + LOG_MAX_STACK_DATA_SIZE}) \<union> sink_buffers A"

definition within :: "mem \<Rightarrow> LOG_CONTEXT \<Rightarrow> nat \<Rightarrow> nat \<Rightarrow> bool" where
  "within m C k n \<longleftrightarrow> (\<exists>t. context_inv sink_law m C t) \<and> property_value_pair_count C \<le> k \<and> values_data_length C \<le> n \<and>
     property_value_pair_count C < 65536"

fun object_typed :: "app_env \<Rightarrow> addr list \<Rightarrow> mem \<Rightarrow> context_type \<Rightarrow> context_object \<Rightarrow> bool" where
  "object_typed A F m (On_stack f k n) (Local C) \<longleftrightarrow> f \<in> set F \<and> values_data C = f \<and> n \<le> LOG_MAX_STACK_DATA_SIZE \<and> within m C k n"
| "object_typed A F m (On_heap k n) (Heap None) \<longleftrightarrow> True"
| "object_typed A F m (On_heap k n) (Heap (Some (p, C))) \<longleftrightarrow>
     values_data C = p + context_block_size (property_value_pair_count C) 0 \<and>
     (\<forall>a\<in>region (Heap (Some (p, C))). m a \<noteq> None) \<and> region (Heap (Some (p, C))) \<inter> reserved A F = {} \<and> within m C k n"
| "object_typed A F m Gone Destroyed \<longleftrightarrow> True"
| "object_typed A F m _ _ \<longleftrightarrow> False"

fun_cases object_typedE: "object_typed A F m t x"

text \<open>
  The memory has the frames and the buffers, which do not overlap, and the logger runs with the
  configured sinks.
\<close>

definition ready :: "app_env \<Rightarrow> addr list \<Rightarrow> 'c app logger \<Rightarrow> bool" where
  "ready A F s \<longleftrightarrow> running A s \<and> app_phase A 0 (configured_sink_count A) (world s) \<and> buffers_ready A None (memory (world s)) \<and>
     (\<forall>f\<in>set F. 0 < f \<and> accessible (memory (world s)) f LOG_MAX_STACK_DATA_SIZE \<and> frame_apart A f)"

fun typed_state :: "app_env \<Rightarrow> addr list \<Rightarrow> context_type list \<Rightarrow> 'c program_state \<Rightarrow> bool" where
  "typed_state A F G (s, cs) \<longleftrightarrow> ready A F s \<and> list_all2 (object_typed A F (memory (world s))) G cs \<and>
     (\<forall>i j. i < j \<and> j < length cs \<longrightarrow> region (cs ! i) \<inter> region (cs ! j) = {})"

text \<open>
  What a program relies on of the allocator at a step: \<open>malloc\<close> as before, and freeing a block
  of the program changes only this block.
\<close>

definition honest :: "context_object list \<Rightarrow> allocator \<Rightarrow> bool" where
  "honest cs M \<longleftrightarrow> allocates (heap_malloc M) \<and> (\<forall>m. heap_free M NULL m = m) \<and>
     (\<forall>p C m. Heap (Some (p, C)) \<in> set cs \<longrightarrow>
        unchanged m (heap_free M p m) p (context_block_size (property_value_pair_count C) (values_data_length C)))"

fun honest_run :: "c_env \<Rightarrow> bool \<Rightarrow> (operation \<times> allocator) list \<Rightarrow> 'c program_state \<Rightarrow> bool" where
  "honest_run E ab [] st \<longleftrightarrow> True"
| "honest_run E ab ((x, M) # xs) st \<longleftrightarrow> honest (snd st) M \<and>
     (case execute E ab M x st of Inl e \<Rightarrow> True | Inr st' \<Rightarrow> honest_run E ab xs st')"

section \<open>Memory\<close>

lemma context_block_size_add: "context_block_size k n = context_block_size k 0 + n"
  by (simp add: context_block_size_def)

lemma data_in_region:
  "object_typed A F m t x \<Longrightarrow> object_handle x = Some C \<Longrightarrow> {values_data C..<values_data C + values_data_length C} \<subseteq> region x"
  by (auto simp: within_def context_block_size_add [of _ "values_data_length _"] elim!: object_typedE)

lemma within_cong:
  "within m C k n \<Longrightarrow> \<forall>a\<in>{values_data C..<values_data C + values_data_length C}. m' a = m a \<Longrightarrow> within m' C k n"
  unfolding within_def by (blast intro: context_inv_cong)

lemma object_typed_cong:
  assumes "object_typed A F m t x" "\<forall>a\<in>region x. m' a = m a"
  shows "object_typed A F m' t x"
proof (cases "object_handle x")
  case None
  with assms(1) show ?thesis by (auto elim: object_typedE)
next
  case (Some C)
  have "\<forall>a\<in>{values_data C..<values_data C + values_data_length C}. m' a = m a"
    using data_in_region [OF assms(1) Some] assms(2) by blast
  then have "within m' C k n" if "within m C k n" for k n using within_cong that by blast
  with assms Some show ?thesis by (auto elim!: object_typedE)
qed

lemma ready_memory:
  assumes "ready A F s" "\<forall>a\<in>reserved A F. memory (world s) a \<noteq> None \<longrightarrow> m' a \<noteq> None"
  shows "ready A F (after_call out m' s)"
proof -
  have k: "accessible m' p n" if "accessible (memory (world s)) p n" "{p..<p + n} \<subseteq> reserved A F" for p n
    using that assms(2) by (auto simp: accessible_iff subset_eq)
  have f: "{f..<f + LOG_MAX_STACK_DATA_SIZE} \<subseteq> reserved A F" if "f \<in> set F" for f using that by (auto simp: reserved_def)
  have b: "USE_LOG_SINK_CONSOLE A \<Longrightarrow> {temp (console_env A)..<temp (console_env A) + LOG_MAX_MESSAGE_LENGTH} \<subseteq> reserved A F"
    "USE_LOG_SINK_CALLBACK A \<Longrightarrow> {temp (callback_env A)..<temp (callback_env A) + LOG_MAX_MESSAGE_LENGTH} \<subseteq> reserved A F"
    "USE_LOG_SINK_ETW A \<Longrightarrow> {metadata (tracelogging A)..<metadata (tracelogging A) + MAX_METADATA_SIZE} \<subseteq> reserved A F"
    by (auto simp: reserved_def sink_buffers_def)
  from assms(1) show ?thesis
    by (auto simp: ready_def after_call_def running_def app_phase_def etw_usable_def buffers_ready_def sink_ready_def etw_ready_def
        apart_def intro!: k f b)
qed

lemma typed_memory:
  assumes "typed_state A F G (s, cs)" "\<forall>x\<in>set cs. \<forall>a\<in>region x. m' a = memory (world s) a"
    and "\<forall>a\<in>reserved A F. memory (world s) a \<noteq> None \<longrightarrow> m' a \<noteq> None"
  shows "typed_state A F G (after_call out m' s, cs)"
proof -
  have "list_all2 (object_typed A F m') G cs"
    by (rule list.rel_mono_strong [of "object_typed A F (memory (world s))"])
      (use assms(1,2) in \<open>auto intro: object_typed_cong\<close>)
  then show ?thesis using assms ready_memory [of A F s m' out] by (simp add: after_call_def)
qed

lemma typed_add:
  assumes "typed_state A F G (s, cs)" "object_typed A F (memory (world s)) t x" "\<forall>y\<in>set cs. region y \<inter> region x = {}"
  shows "typed_state A F (G @ [t]) (s, cs @ [x])"
  using assms by (auto simp: less_Suc_eq nth_append intro!: list_all2_appendI)

lemma typed_drop:
  assumes "typed_state A F (G @ [t]) (s, cs @ [x])"
  shows "typed_state A F G (s, cs)"
proof -
  have "region (cs ! i) \<inter> region (cs ! j) = {}" if "i < j" "j < length cs" for i j
  proof -
    have "region ((cs @ [x]) ! i) \<inter> region ((cs @ [x]) ! j) = {}" using assms that by simp
    with that show ?thesis by (simp add: nth_append)
  qed
  moreover have "list_all2 (object_typed A F (memory (world s))) G cs" using assms by (auto simp: list_all2_append1 append_eq_append_conv)
  ultimately show ?thesis using assms by simp
qed


section \<open>The operations keep the types\<close>

lemma typed_handle:
  assumes "typed_state A F G (s, cs)" "parent_bounds G i = Some (k, n)"
  shows "\<exists>ts. handle_inv sink_law (memory (world s)) (handle_at cs i) ts \<and> length ts \<le> 1 \<and>
      log_context_get_property_value_pair_count (handle_at cs i) \<le> k \<and> log_context_get_property_value_pair_count (handle_at cs i) < 65536 \<and>
      internal_log_context_get_values_data_length_or_zero (handle_at cs i) \<le> n"
    (is "\<exists>ts. ?P ts")
proof (cases "handle_at cs i")
  case None
  then have "?P []" by (simp add: handle_inv_def log_context_get_property_value_pair_count_def
        internal_log_context_get_values_data_length_or_zero_def)
  then show ?thesis ..
next
  case (Some C)
  then obtain j where j: "i = Some j" "object_handle (cs ! j) = Some C" by (auto simp: handle_at_def split: option.splits)
  with assms have t: "object_typed A F (memory (world s)) (G ! j) (cs ! j)" "bounds (G ! j) = Some (k, n)"
    by (auto simp: parent_bounds_def list_all2_conv_all_nth split: if_splits)
  have "within (memory (world s)) C k n"
    using t j(2) by (auto elim: object_typedE)
  then show ?thesis unfolding Some by (auto simp: within_def handle_inv_def log_context_get_property_value_pair_count_def
        internal_log_context_get_values_data_length_or_zero_def)
qed

lemma ranges_apart:
  assumes "{lo..<lo + n} \<inter> {p..<p + k} = {}" "0 < n" "0 < (k :: nat)"
  shows "lo + n \<le> p \<or> p + k \<le> (lo :: nat)"
proof (rule ccontr)
  assume "\<not> ?thesis"
  then have "max lo p \<in> {lo..<lo + n} \<inter> {p..<p + k}" using assms(2,3) by auto
  with assms(1) show False by blast
qed

lemma typed_apart:
  assumes "typed_state A F G (s, cs)" "parent_bounds G i = Some b" "\<forall>x\<in>set cs. region x \<inter> {p..<p + k} = {}" "0 < k"
  shows "apart (handle_at cs i) p k"
proof (cases "handle_at cs i")
  case (Some C)
  then obtain j where j: "i = Some j" "object_handle (cs ! j) = Some C" by (auto simp: handle_at_def split: option.splits)
  with assms(1,2) have t: "object_typed A F (memory (world s)) (G ! j) (cs ! j)" "j < length cs"
    by (auto simp: parent_bounds_def list_all2_conv_all_nth split: if_splits)
  obtain ts where "handle_inv sink_law (memory (world s)) (handle_at cs i) ts"
    using typed_handle [OF assms(1), of i] assms(2) by (cases b) blast
  then have "0 < values_data_length C" by (auto simp: Some handle_inv_def context_inv_def)
  moreover have "{values_data C..<values_data C + values_data_length C} \<inter> {p..<p + k} = {}"
    using data_in_region [OF t(1) j(2)] assms(3) t(2) by (meson disjoint_iff nth_mem subsetD)
  ultimately show ?thesis using ranges_apart assms(4) Some by (simp add: apart_def)
qed (simp add: apart_def)

lemma argument_items:
  assumes "c_library E" "argument_bytes E fds = Some w"
  shows "\<exists>xs. arguments E fds w xs \<and> shape sink_law (field_trees E fds) xs \<and> length (field_trees E fds) = length xs \<and>
     length xs = count_properties fds"
proof -
  from assms(2) have p: "list_all (plain_argument E) fds" "count_data_bytes E fds (\<lambda>_. None) \<noteq> None"
    "w = nat (fst (the (count_data_bytes E fds (\<lambda>_. None))))"
    by (auto simp: argument_bytes_def split: if_splits)
  obtain n xs where xs: "arguments E fds n xs" "shape sink_law (field_trees E fds) xs" "length (field_trees E fds) = length xs"
    using plain_describes [OF assms(1) p(1)] by (auto simp: describes_as_def)
  have "w = n" using p(3) data_bytes_all [OF xs(1)] by simp
  with xs count_all [OF xs(1)] show ?thesis by auto
qed

lemma plain_name: "list_all (plain_argument E) fds \<Longrightarrow> short_name nm \<Longrightarrow> short_name (rename_context nm fds)"
proof (induction fds arbitrary: nm)
  case (Cons fd fds)
  then show ?case by (cases fd) auto
qed simp

lemma argument_name:
  "argument_bytes E fds = Some w \<Longrightarrow> int (length (rename_context '''' fds)) + 3 \<le> INT_MAX"
  using plain_name [of E fds "''''"] by (auto simp: argument_bytes_def short_name_def INT_MAX_def split: if_splits)

lemma frame_unused:
  assumes "typed_state A F G (s, cs)" "unused_frame G frame" "frame \<in> set F" "x \<in> set cs"
  shows "region x \<inter> {frame..<frame + LOG_MAX_STACK_DATA_SIZE} = {}"
proof -
  from assms(1,4) obtain j where j: "j < length cs" "x = cs ! j" "j < length G" "object_typed A F (memory (world s)) (G ! j) x"
    by (auto simp: in_set_conv_nth list_all2_conv_all_nth)
  have "case G ! j of On_stack f k n \<Rightarrow> frame + LOG_MAX_STACK_DATA_SIZE \<le> f \<or> f + LOG_MAX_STACK_DATA_SIZE \<le> frame | _ \<Rightarrow> True"
    using assms(2) j(3) by (simp add: unused_frame_def list_all_length)
  with j(4) assms(3) show ?thesis
    by (auto simp: reserved_def disjoint_iff elim!: object_typedE)
qed

lemma unchanged_region:
  assumes "unchanged m m' p n" "R \<inter> {p..<p + n} = {}" "a \<in> R"
  shows "m' a = m a"
proof -
  have "a \<notin> {p..<p + n}" using assms(2,3) by blast
  then have "a < p \<or> p + n \<le> a" by auto
  with assms(1) show ?thesis unfolding unchanged_def by blast
qed

lemma define_typed:
  assumes "c_library E" "typed_state A F G (s, cs)" "check_define E F frame i fds G = Some t"
  shows "\<exists>C out m'. LOG_CONTEXT_LOCAL_DEFINE E ab frame (handle_at cs i) fds (memory (world s)) = Inr (C, out, m') \<and>
     typed_state A F (G @ [t]) (after_call out m' s, cs @ [Local C])"
proof -
  let ?m = "memory (world s)" and ?h = "handle_at cs i"
  from assms(3) obtain k n w where c: "parent_bounds G i = Some (k, n)" "argument_bytes E fds = Some w" "frame \<in> set F"
      "unused_frame G frame" "k + 1 + count_properties fds \<le> 64" "n + 1 + w \<le> 4096"
      "t = On_stack frame (k + 1 + count_properties fds) (n + 1 + w)"
    by (auto simp: check_define_def Option.bind_eq_Some_conv LOG_MAX_STACK_PROPERTY_VALUE_PAIR_COUNT_def LOG_MAX_STACK_DATA_SIZE_def
        split: if_splits)
  note un = frame_unused [OF assms(2) c(4,3), unfolded LOG_MAX_STACK_DATA_SIZE_def]
  obtain ts where ts: "handle_inv sink_law ?m ?h ts" "log_context_get_property_value_pair_count ?h \<le> k"
      "internal_log_context_get_values_data_length_or_zero ?h \<le> n"
    using typed_handle [OF assms(2) c(1)] by blast
  obtain xs where xs: "arguments E fds w xs" "shape sink_law (field_trees E fds) xs" "length (field_trees E fds) = length xs"
      "length xs = count_properties fds" using argument_items [OF assms(1) c(2)] by blast
  have f: "0 < frame" "accessible ?m frame 4096" using assms(2) c(3) by (auto simp: ready_def LOG_MAX_STACK_DATA_SIZE_def)
  have ap: "apart ?h frame 4096" using typed_apart [OF assms(2) c(1)] un by simp
  obtain C m' where C: "LOG_CONTEXT_LOCAL_DEFINE E ab frame ?h fds ?m = Inr (C, [], m')"
      "context_inv sink_law m' C (Struct (rename_context '''' fds) (ts @ field_trees E fds))" "values_data C = frame"
      "unchanged ?m m' frame 4096" "keeps_accessible ?m m'"
      "property_value_pair_count C = log_context_get_property_value_pair_count ?h + 1 + length xs"
      "values_data_length C = internal_log_context_get_values_data_length_or_zero ?h + 1 + w"
    using local_define_builds [OF ts(1) xs(1-3) _ _ f ap argument_name [OF c(2)], of ab] ts(2,3) xs(4) c(5,6) by auto
  have "typed_state A F G (after_call [] m' s, cs)"
  proof (rule typed_memory [OF assms(2)])
    show "\<forall>x\<in>set cs. \<forall>a\<in>region x. m' a = ?m a" using unchanged_region [OF C(4)] un by blast
  qed (use C(5) in \<open>simp add: keeps_accessible_def\<close>)
  moreover have "object_typed A F m' t (Local C)"
    using C(2,3,6,7) ts(2,3) xs(4) c by (auto simp: within_def LOG_MAX_STACK_DATA_SIZE_def)
  ultimately show ?thesis using C(1) un C(3)
    by (intro exI [of _ C] exI [of _ "[]"] exI [of _ m'] conjI typed_add) (auto simp: after_call_def LOG_MAX_STACK_DATA_SIZE_def)
qed


lemma new_block_fresh:
  assumes "new_block m m' p n" "\<forall>a\<in>R. m a \<noteq> None"
  shows "R \<inter> {p..<p + n} = {}" "\<forall>a\<in>R. m' a = m a"
  using assms(1,2) new_block_keeps [OF assms(1)] by (auto simp: new_block_def)

lemma region_accessible:
  assumes "typed_state A F G (s, cs)" "x \<in> set cs" "a \<in> region x"
  shows "memory (world s) a \<noteq> None"
proof -
  from assms(1,2) obtain t where "object_typed A F (memory (world s)) t x"
    by (auto simp: in_set_conv_nth list_all2_conv_all_nth)
  moreover have "\<forall>f\<in>set F. accessible (memory (world s)) f LOG_MAX_STACK_DATA_SIZE" using assms(1) by (simp add: ready_def)
  ultimately show ?thesis using assms(3) accessible_addr by (elim object_typedE) (fastforce+)
qed

lemma reserved_accessible:
  assumes "ready A F s" "a \<in> reserved A F"
  shows "memory (world s) a \<noteq> None"
  using assms by (auto simp: ready_def reserved_def sink_buffers_def buffers_ready_def sink_ready_def etw_ready_def
      dest: accessible_addr split: if_splits)

lemma block_typed:
  assumes "typed_state A F G (s, cs)" "context_inv sink_law m' C t" "in_new_block (memory (world s)) m' p C k' n'"
    and "k' \<le> k" "n' \<le> n" "k < 65536"
  shows "typed_state A F (G @ [On_heap k n]) (after_call out m' s, cs @ [Heap (Some (p, C))])"
proof (rule typed_add)
  let ?m = "memory (world s)" and ?x = "Heap (Some (p, C))"
  have new: "new_block ?m m' p (context_block_size (property_value_pair_count C) (values_data_length C))"
    using assms(3) by (auto simp: in_new_block_def)
  have r: "\<forall>a\<in>reserved A F. ?m a \<noteq> None" using reserved_accessible assms(1) by auto
  have x: "\<forall>a\<in>region y. ?m a \<noteq> None" if "y \<in> set cs" for y using region_accessible [OF assms(1) that] by blast
  show "typed_state A F G (after_call out m' s, cs)"
  proof (rule typed_memory [OF assms(1)])
    show "\<forall>y\<in>set cs. \<forall>a\<in>region y. m' a = ?m a" using new_block_fresh(2) [OF new x] by blast
    show "\<forall>a\<in>reserved A F. ?m a \<noteq> None \<longrightarrow> m' a \<noteq> None" using new_block_fresh(2) [OF new r] by simp
  qed
  have "\<forall>a\<in>region ?x. m' a \<noteq> None" using new accessible_addr by (auto simp: new_block_def)
  moreover have "region ?x \<inter> reserved A F = {}" using new_block_fresh(1) [OF new r] by (simp add: Int_commute)
  moreover have "within m' C k n" using assms(2-6) by (auto simp: within_def in_new_block_def)
  ultimately show "object_typed A F (memory (world (after_call out m' s))) (On_heap k n) ?x"
    using assms(3) by (simp add: after_call_def in_new_block_def)
  show "\<forall>y\<in>set cs. region y \<inter> region ?x = {}" using new_block_fresh(1) [OF new x] by simp
qed

lemma create_typed:
  assumes "c_library E" "typed_state A F G (s, cs)" "type_check E F (Create i fds) G = Some G'" "allocates (heap_malloc M)"
  shows "\<exists>h out m'. LOG_CONTEXT_CREATE E (heap_malloc M) (handle_at cs i) fds (memory (world s)) = Some (h, out, m') \<and>
     typed_state A F G' (after_call out m' s, cs @ [Heap h])"
proof -
  let ?m = "memory (world s)" and ?h = "handle_at cs i"
  from assms(3) obtain k n w where c: "parent_bounds G i = Some (k, n)" "argument_bytes E fds = Some w"
      "k + 1 + count_properties fds < 65536" "n + 1 + w < 2 ^ 32" "count_properties fds < 255"
      "G' = G @ [On_heap (k + 1 + count_properties fds) (n + 1 + w)]"
    by (auto simp: Option.bind_eq_Some_conv split: if_splits)
  obtain ts where ts: "handle_inv sink_law ?m ?h ts" "length ts \<le> 1" "log_context_get_property_value_pair_count ?h \<le> k"
      "internal_log_context_get_values_data_length_or_zero ?h \<le> n"
    using typed_handle [OF assms(2) c(1)] by blast
  obtain xs where xs: "arguments E fds w xs" "shape sink_law (field_trees E fds) xs" "length (field_trees E fds) = length xs"
      "length xs = count_properties fds" using argument_items [OF assms(1) c(2)] by blast
  have lim: "log_context_get_property_value_pair_count ?h + 1 + length xs < 2 ^ 32"
    "internal_log_context_get_values_data_length_or_zero ?h + 1 + w < 2 ^ 32" "length ts + length (field_trees E fds) < 256"
    using ts xs c by auto
  let ?cnt = "log_context_get_property_value_pair_count ?h + 1 + length xs"
    and ?len = "internal_log_context_get_values_data_length_or_zero ?h + 1 + w"
  obtain p m1 where mal: "heap_malloc M (context_block_size ?cnt ?len) ?m = (p, m1)" by (meson surj_pair)
  note b = create_builds [OF assms(4) ts(1) xs(1-3) refl refl lim argument_name [OF c(2)] mal]
  show ?thesis
  proof (cases "p = NULL")
    case True
    with b have r: "LOG_CONTEXT_CREATE E (heap_malloc M) ?h fds ?m = Some (None, [create_failed ?cnt ?len], ?m)" by simp
    have "typed_state A F G (after_call [create_failed ?cnt ?len] ?m s, cs)" by (intro typed_memory [OF assms(2)]) auto
    then have "typed_state A F G' (after_call [create_failed ?cnt ?len] ?m s, cs @ [Heap None])"
      unfolding c(6) by (rule typed_add) simp_all
    with r show ?thesis by blast
  next
    case False
    with b obtain C m' where C: "LOG_CONTEXT_CREATE E (heap_malloc M) ?h fds ?m = Some (Some (p, C), [], m')"
      "context_inv sink_law m' C (Struct (rename_context '''' fds) (ts @ field_trees E fds))" "in_new_block ?m m' p C ?cnt ?len"
      by auto
    have "typed_state A F G' (after_call [] m' s, cs @ [Heap (Some (p, C))])"
      unfolding c(6) by (rule block_typed [OF assms(2) C(2,3)]) (use ts(3,4) xs(4) c(3) in auto)
    with C(1) show ?thesis by blast
  qed
qed


lemma destroy_typed:
  assumes "typed_state A F G (s, cs)" "type_check E F (Destroy i) G = Some G'" "honest cs M"
  shows "\<exists>h. cs ! i = Heap h \<and>
     typed_state A F G' (after_call [] (LOG_CONTEXT_DESTROY (heap_free M) h (memory (world s))) s, cs[i := Destroyed])"
proof -
  let ?m = "memory (world s)"
  from assms(2) obtain k n where i: "i < length G" "G ! i = On_heap k n" "G' = G[i := Gone]"
    by (auto split: if_splits context_type.splits)
  with assms(1) have t: "i < length cs" "object_typed A F ?m (On_heap k n) (cs ! i)"
    by (auto simp: list_all2_conv_all_nth)
  then obtain h where h: "cs ! i = Heap h" by (auto elim: object_typedE)
  let ?m' = "LOG_CONTEXT_DESTROY (heap_free M) h ?m"
  have m': "?m' a = ?m a" if "a \<notin> region (Heap h)" for a
  proof (cases h)
    case None
    with assms(3) show ?thesis by (simp add: LOG_CONTEXT_DESTROY_def log_context_destroy_def honest_def)
  next
    case (Some pC)
    obtain p C where pC: "pC = (p, C)" by (cases pC)
    have "Heap (Some (p, C)) \<in> set cs" using t(1) h by (auto simp: Some pC in_set_conv_nth)
    with assms(3) have "unchanged ?m ?m' p (context_block_size (property_value_pair_count C) (values_data_length C))"
      by (simp add: LOG_CONTEXT_DESTROY_def log_context_destroy_def honest_def Some pC)
    with that show ?thesis by (auto simp: Some pC unchanged_def)
  qed
  have "region (Heap h) \<inter> reserved A F = {}" using t(2) unfolding h by (cases h) (simp, fastforce)
  with m' have res: "\<forall>a\<in>reserved A F. ?m' a = ?m a" by blast
  have other: "\<forall>a\<in>region (cs ! j). ?m' a = ?m a" if "j < length cs" "j \<noteq> i" for j
  proof -
    have "region (cs ! j) \<inter> region (cs ! i) = {}"
      using assms(1) that t(1) by (cases i j rule: linorder_cases) (auto simp: Int_commute)
    with m' h show ?thesis by (auto simp: disjoint_iff)
  qed
  have g: "length G = length cs" "\<forall>j<length cs. object_typed A F ?m (G ! j) (cs ! j)"
    using assms(1) by (auto simp: list_all2_conv_all_nth)
  have "object_typed A F ?m' (G[i := Gone] ! j) (cs[i := Destroyed] ! j)" if "j < length cs" for j
    using that g object_typed_cong [OF _ other [OF that]] by (cases "j = i") auto
  with g(1) have "list_all2 (object_typed A F ?m') (G[i := Gone]) (cs[i := Destroyed])"
    by (simp add: list_all2_conv_all_nth)
  moreover have "ready A F (after_call [] ?m' s)" by (rule ready_memory) (use assms(1) res in auto)
  moreover have "region (cs[i := Destroyed] ! j) \<inter> region (cs[i := Destroyed] ! l) = {}" if "j < l" "l < length cs" for j l
    using assms(1) that t(1) by (auto simp: nth_list_update)
  ultimately show ?thesis using h i(3) by (auto simp: after_call_def)
qed

lemma framed_log:
  assumes "running A (s :: 'c app logger)" "app_phase A 0 (configured_sink_count A) (world s)" "app_ok A c (world s)"
  shows "\<exists>s'. logger_log c s = Inr s' \<and> running A s' \<and> app_phase A 0 (configured_sink_count A) (world s') \<and>
     writes_buffers A (memory (world s)) (memory (world s'))"
proof -
  have "writes_buffers A (memory (world s)) (memory (world s))" by (simp add: writes_buffers_def keeps_accessible_def)
  with assms framed.log_loop [of 0 A "world s" c "memory (world s)"] show ?thesis
    by (auto simp: running_def logger_log_def length_all_sinks)
qed


lemma handle_well_formed:
  assumes "handle_inv sink_law m h ts" "log_context_get_property_value_pair_count h < 65536"
  shows "well_formed_handle h ts m"
proof (cases h)
  case None
  with assms show ?thesis by (simp add: well_formed_handle_def handle_inv_def handle_items_def)
next
  case (Some C)
  with assms context_well_formed [of m C] show ?thesis
    by (auto simp: handle_inv_def log_context_get_property_value_pair_count_def)
qed

lemma region_buffers:
  assumes "typed_state A F G (s, cs)" "x \<in> set cs"
  shows "region x \<inter> sink_buffers A = {}"
proof -
  from assms obtain t where t: "object_typed A F (memory (world s)) t x"
    by (auto simp: in_set_conv_nth list_all2_conv_all_nth)
  have "\<forall>f\<in>set F. frame_apart A f" using assms(1) by (simp add: ready_def)
  then have "\<forall>f\<in>set F. {f..<f + LOG_MAX_STACK_DATA_SIZE} \<inter> sink_buffers A = {}"
    by (auto simp: frame_apart_def sink_buffers_def LOG_MAX_STACK_DATA_SIZE_def)
  with t show ?thesis by (elim object_typedE) (auto simp: reserved_def)
qed

lemma typed_buffers:
  assumes "typed_state A F G (s, cs)" "parent_bounds G i = Some b"
  shows "buffers_ready A (handle_at cs i) (memory (world s))"
proof -
  have ap: "apart (handle_at cs i) p k" if "{p..<p + k} \<subseteq> sink_buffers A" "0 < k" for p k
    by (rule typed_apart [OF assms]) (use region_buffers [OF assms(1)] that in blast)+
  have k: "0 < LOG_MAX_MESSAGE_LENGTH" "0 < MAX_METADATA_SIZE" by (simp_all add: LOG_MAX_MESSAGE_LENGTH_def MAX_METADATA_SIZE_def)
  have "buffers_ready A None (memory (world s))" using assms(1) by (simp add: ready_def)
  then show ?thesis using k by (auto simp: buffers_ready_def sink_ready_def etw_ready_def sink_buffers_def intro!: ap)
qed

lemma log_typed:
  assumes "typed_state A F G (s, cs)" "l \<in> set LOG_LEVEL_VALUES" "parent_bounds G i \<noteq> None"
  shows "\<exists>s'. logger_log (call_at site l (handle_at cs i) f args) s = Inr s' \<and> typed_state A F G (s', cs)"
proof -
  let ?m = "memory (world s)" and ?h = "handle_at cs i"
  obtain k n where b: "parent_bounds G i = Some (k, n)" using assms(3) by auto
  have "\<exists>ts. well_formed_handle ?h ts ?m" using typed_handle [OF assms(1) b] handle_well_formed by blast
  with assms(2) typed_buffers [OF assms(1) b] have "app_ok A (call_at site l ?h f args) (world s)"
    by (simp add: app_ok_def call_at_def)
  moreover have rd: "ready A F s" "running A s" "app_phase A 0 (configured_sink_count A) (world s)"
    using assms(1) by (simp_all add: ready_def)
  ultimately obtain s' where s': "logger_log (call_at site l ?h f args) s = Inr s'" "running A s'"
      "app_phase A 0 (configured_sink_count A) (world s')" "writes_buffers A ?m (memory (world s'))"
    using framed_log [of A s] by blast
  let ?m' = "memory (world s')"
  have eq: "\<forall>x\<in>set cs. \<forall>a\<in>region x. ?m' a = ?m a" using s'(4) region_buffers [OF assms(1)] by (auto simp: writes_buffers_def)
  have "keeps_accessible ?m ?m'" using s'(4) by (simp add: writes_buffers_def)
  with rd(1) s'(2,3) have "ready A F s'" by (auto simp: ready_def intro: buffers_ready_unchanged keeps_accessibleD)
  moreover have "list_all2 (object_typed A F ?m') G cs"
    using typed_memory [OF assms(1) eq, of "[]"] \<open>keeps_accessible ?m ?m'\<close> by (simp add: keeps_accessible_def after_call_def)
  ultimately show ?thesis using s'(1) assms(1) by auto
qed

lemma log_ex_typed:
  assumes "c_library E" "typed_state A F G (s, cs)" "type_check E F (Log_ex frame site l fds) G = Some G'"
  shows "\<exists>s'. LOGGER_LOG_EX E ab frame site l fds s = Some (Inr s') \<and> G' = G \<and> typed_state A F G (s', cs)"
proof -
  from assms(3) obtain t f args where c: "l \<in> set LOG_LEVEL_VALUES" "the_message fds = Some (f, args)"
      "check_define E F frame None fds G = Some t" "G' = G" by (auto split: if_splits)
  then have v: "LOG_CONTEXT_CHECK_VARIABLE_ARGS fds"
    by (auto simp: check_define_def argument_bytes_def Option.bind_eq_Some_conv split: if_splits)
  show ?thesis
  proof (cases "list_ex HAS_ANY_PROPERTIES fds")
    case False
    with c log_typed [OF assms(2) c(1), of None site f args] show ?thesis
      by (auto simp: LOGGER_LOG_EX_def handle_at_def parent_bounds_def)
  next
    case True
    obtain C out m' where C: "LOG_CONTEXT_LOCAL_DEFINE E ab frame None fds (memory (world s)) = Inr (C, out, m')"
        "typed_state A F (G @ [t]) (after_call out m' s, cs @ [Local C])"
      using define_typed [OF assms(1,2) c(3), of ab] by (auto simp: handle_at_def)
    have len: "length G = length cs" using assms(2) by (auto dest: list_all2_lengthD)
    have "parent_bounds (G @ [t]) (Some (length cs)) \<noteq> None"
      using c(3) len by (auto simp: parent_bounds_def nth_append check_define_def Option.bind_eq_Some_conv split: if_splits)
    from log_typed [OF C(2) c(1) this, of site f args] obtain s' where
        "logger_log (call_at site l (Some C) f args) (after_call out m' s) = Inr s'" "typed_state A F (G @ [t]) (s', cs @ [Local C])"
      by (auto simp: handle_at_def nth_append)
    moreover from this(2) have "typed_state A F G (s', cs)" by (rule typed_drop)
    ultimately show ?thesis using True c v C(1) by (auto simp: LOGGER_LOG_EX_def after_call_def)
  qed
qed


section \<open>Soundness\<close>

lemma execute_typed:
  assumes "c_library E" "typed_state A F G st" "type_check E F x G = Some G'" "honest (snd st) M"
  shows "\<exists>st'. execute E ab M x st = Inr st' \<and> typed_state A F G' st'"
proof -
  obtain s cs where st: "st = (s, cs)" by (cases st)
  note t = assms(2) [unfolded st]
  show ?thesis
  proof (cases x)
    case (Define frame i fds)
    with assms(3) obtain t' where "check_define E F frame i fds G = Some t'" "G' = G @ [t']" by auto
    with define_typed [OF assms(1) t, of frame i fds t' ab] show ?thesis by (auto simp: st Define simp del: typed_state.simps)
  next
    case (Create i fds)
    have "allocates (heap_malloc M)" using assms(4) by (simp add: honest_def)
    from create_typed [OF assms(1) t assms(3) [unfolded Create] this] show ?thesis
      by (auto simp: st Create simp del: typed_state.simps)
  next
    case (Destroy i)
    have "honest cs M" using assms(4) by (simp add: st)
    from destroy_typed [OF t assms(3) [unfolded Destroy] this] show ?thesis
      by (auto simp: st Destroy simp del: typed_state.simps)
  next
    case (Log site l i f args)
    with assms(3) have "l \<in> set LOG_LEVEL_VALUES" "parent_bounds G i \<noteq> None" "G' = G" by (auto split: if_splits)
    with log_typed [OF t, of l i site f args] show ?thesis
      by (auto simp: st Log LOGGER_LOG_def simp del: typed_state.simps)
  next
    case (Log_ex frame site l fds)
    from log_ex_typed [OF assms(1) t assms(3) [unfolded Log_ex], of ab] show ?thesis
      by (auto simp: st Log_ex simp del: typed_state.simps)
  qed
qed

text \<open>
  C2: A program of context and log operations that type checks runs to its end, from any state that
  has the types it is checked in, whichever allocations fail: no operation has undefined behaviour
  (no access outside the frames, the heap blocks and the buffers, no use of an entry that was not
  written) and none aborts, and at the end every context that is left is again well formed, within
  the bounds of its type and in its own part of the memory.
\<close>

theorem context_program_sound:
  assumes "c_library E" "typed_state A F G st" "type_check_all E F (map fst xs) G = Some G'" "honest_run E ab xs st"
  shows "\<exists>st'. run_program E ab xs st = Inr st' \<and> typed_state A F G' st'"
  using assms(2-4)
proof (induction xs arbitrary: st G)
  case Nil
  then show ?case by (simp del: typed_state.simps)
next
  case (Cons xM xs)
  obtain x M where xM: "xM = (x, M)" by (cases xM)
  from Cons.prems(2) obtain G1 where G1: "type_check E F x G = Some G1" "type_check_all E F (map fst xs) G1 = Some G'"
    by (auto simp: xM Option.bind_eq_Some_conv)
  have "honest (snd st) M" using Cons.prems(3) by (simp add: xM)
  with execute_typed [OF assms(1) Cons.prems(1) G1(1)] obtain st1 where
    st1: "execute E ab M x st = Inr st1" "typed_state A F G1 st1" by blast
  with Cons.IH [OF st1(2) G1(2)] Cons.prems(3) show ?case by (simp add: xM del: typed_state.simps)
qed


section \<open>Witnesses\<close>

text \<open>
  A context on the stack, one on the heap on top of it, a line with it, and the end of it.
\<close>

definition demo_operations :: "operation list" where
  "demo_operations = [Define 1000 None demo_args, Create (Some 0) demo_args, Log demo_site LOG_LEVEL_INFO (Some 1) ''x'' [], Destroy 1]"

definition demo_allocator :: allocator where
  "demo_allocator = \<lparr>heap_malloc = demo_malloc, heap_free = (\<lambda>p m. m)\<rparr>"

definition demo_started :: "unit app logger" where
  "demo_started = demo_program\<lparr>world := (world demo_program)\<lparr>etw_state := LOG_SINK_ETW_STATE_INITIALIZED\<rparr>\<rparr>"

lemma demo_honest: "honest_run E ab (map (\<lambda>x. (x, demo_allocator)) xs) st"
proof (induction xs arbitrary: st)
  case (Cons x xs)
  then show ?case
    by (auto simp: honest_def demo_allocator_def demo_malloc_allocates unchanged_def split: sum.splits)
qed simp

lemma demo_typed: "typed_state demo_app [1000] [] (demo_started, [])"
proof -
  have "app_phase demo_app 0 (configured_sink_count demo_app) (world demo_started)"
    by (simp add: app_phase_def etw_usable_def etw_among_def etw_index_def configured_sink_count_def all_sinks_def demo_started_def
        demo_memory_app demo_app_def demo_etw_def MAX_METADATA_SIZE_def demo_stack_accessible conforming_std_env)
  moreover have "running demo_app demo_started" using demo_running by (simp add: running_def demo_started_def)
  ultimately show ?thesis
    by (simp add: ready_def demo_buffers LOG_MAX_STACK_DATA_SIZE_def) (simp add: demo_started_def demo_memory_app demo_buffers demo_stack_accessible)
qed

lemma demo_argument_bytes: "argument_bytes std_env demo_args = Some 7"
  by (simp add: argument_bytes_def demo_args_plain demo_args_bytes) (simp add: demo_args_def LOG_CONTEXT_CHECK_VARIABLE_ARGS_def)

theorem context_program_sound_witness:
  "\<exists>st'. run_program std_env True (map (\<lambda>x. (x, demo_allocator)) demo_operations) (demo_started, []) = Inr st' \<and>
     typed_state demo_app [1000] [On_stack 1000 3 8, Gone] st'"
proof (rule context_program_sound [OF std.c_library_axioms demo_typed _ demo_honest])
  show "type_check_all std_env [1000] (map fst (map (\<lambda>x. (x, demo_allocator)) demo_operations)) [] = Some [On_stack 1000 3 8, Gone]"
    by (simp add: demo_operations_def check_define_def parent_bounds_def demo_argument_bytes demo_args_count unused_frame_def
        LOG_MAX_STACK_PROPERTY_VALUE_PAIR_COUNT_def LOG_MAX_STACK_DATA_SIZE_def LOG_LEVEL_VALUES_def)
qed

end
