(* ===== verification/Symbol_Lock.thy ===== *)
theory Symbol_Lock
  imports Get_Thread_Stack
begin

text \<open>
  Several threads in \<open>get_thread_stack.c\<close> at once.  What a call does is the list of its effects;
  \<open>g\<close> is only written by initialisation and deinitialisation, which by contract do not run beside
  other calls, so that the effects of a call do not depend on the interleaving.  The threads
  take steps in any order: a step is one effect, acquiring the lock waits until it is free, and a
  thread that has been suspended takes no step.  The locale \<open>bracketed_program\<close> is what the
  threads promise of the lock, \<open>undisturbed_program\<close> adds that they do not suspend each other;
  both are shown for the calls of the module.
\<close>

section \<open>Threads and the lock\<close>

text \<open>The threads are numbered; \<open>thr\<close> gives the thread a handle belongs to.\<close>

record system =
  owner :: "nat option"
  suspended :: "nat \<Rightarrow> nat"
  remaining :: "stack_effect list list"

definition start :: "stack_effect list list \<Rightarrow> system" where
  "start trs = \<lparr>owner = None, suspended = (\<lambda>i. 0), remaining = trs\<rparr>"

definition finished :: "system \<Rightarrow> bool" where
  "finished s = list_all (\<lambda>tr. tr = []) (remaining s)"

text \<open>
  One effect of thread \<open>i\<close> on the lock and on the counts of suspensions; \<^term>\<open>None\<close> when the thread
  has to wait (or would release a lock it does not own).
\<close>

fun perform :: "(addr \<Rightarrow> nat) \<Rightarrow> nat \<Rightarrow> stack_effect \<Rightarrow> system \<Rightarrow> system option" where
  "perform thr i Acquire_lock s = (if owner s = None then Some (s\<lparr>owner := Some i\<rparr>) else None)"
| "perform thr i Release_lock s = (if owner s = Some i then Some (s\<lparr>owner := None\<rparr>) else None)"
| "perform thr i (Suspend_thread h ok) s =
     Some (if ok then s\<lparr>suspended := (suspended s)(thr h := suspended s (thr h) + 1)\<rparr> else s)"
| "perform thr i (Resume_thread h ok) s =
     Some (if ok then s\<lparr>suspended := (suspended s)(thr h := suspended s (thr h) - 1)\<rparr> else s)"
| "perform thr i _ s = Some s"

definition thread_step :: "(addr \<Rightarrow> nat) \<Rightarrow> nat \<Rightarrow> system \<Rightarrow> system option" where
  "thread_step thr i s =
     (if i < length (remaining s) \<and> suspended s i = 0 then
        (case remaining s ! i of
           [] \<Rightarrow> None
         | e # es \<Rightarrow> map_option (\<lambda>s'. s'\<lparr>remaining := (remaining s')[i := es]\<rparr>) (perform thr i e s))
      else None)"

inductive step :: "(addr \<Rightarrow> nat) \<Rightarrow> system \<Rightarrow> system \<Rightarrow> bool" for thr where
  thread: "step thr s s'" if "thread_step thr i s = Some s'"

inductive_cases stepE: "step thr s s'"

fun run_schedule :: "(addr \<Rightarrow> nat) \<Rightarrow> nat list \<Rightarrow> system \<Rightarrow> system option" where
  "run_schedule thr [] s = Some s"
| "run_schedule thr (i # is) s = Option.bind (thread_step thr i s) (run_schedule thr is)"

lemma run_schedule_steps: "run_schedule thr is s = Some s' \<Longrightarrow> (step thr)\<^sup>*\<^sup>* s s'"
proof (induction "is" arbitrary: s)
  case (Cons i "is")
  then obtain s1 where "thread_step thr i s = Some s1" "run_schedule thr is s1 = Some s'"
    by (auto simp: Option.bind_eq_Some_conv)
  with Cons.IH show ?case by (meson converse_rtranclp_into_rtranclp step.thread)
qed simp

section \<open>What the lock promises\<close>

text \<open>A call to the symbol handler, which is not thread safe.\<close>

fun sym_call :: "stack_effect \<Rightarrow> bool" where
  "sym_call (Sym_initialize h p ok) = True"
| "sym_call (Sym_cleanup h) = True"
| "sym_call (Sym_refresh h) = True"
| "sym_call (Sym_from_addr h pc) = True"
| "sym_call (Sym_get_line h pc) = True"
| "sym_call _ = False"

text \<open>
  \<open>bracketed held tr\<close>: the lock is acquired when it is not held and released when it is, at the end
  it is not held, and the symbol handler is only called with the lock.
\<close>

fun bracketed :: "bool \<Rightarrow> stack_effect list \<Rightarrow> bool" where
  "bracketed held [] = (\<not> held)"
| "bracketed held (e # es) =
     (if e = Acquire_lock then \<not> held \<and> bracketed True es
      else if e = Release_lock then held \<and> bracketed False es
      else (sym_call e \<longrightarrow> held) \<and> bracketed held es)"

lemma bracketed_append: "bracketed held xs \<Longrightarrow> bracketed False ys \<Longrightarrow> bracketed held (xs @ ys)"
  by (induction xs arbitrary: held) (auto split: if_splits)

lemma perform_cases:
  assumes "perform thr i e s = Some s'"
  shows "remaining s' = remaining s"
    "owner s' = (if e = Acquire_lock then Some i else if e = Release_lock then None else owner s)"
    "e = Acquire_lock \<Longrightarrow> owner s = None" "e = Release_lock \<Longrightarrow> owner s = Some i"
    "(\<And>h. e \<noteq> Suspend_thread h True) \<Longrightarrow> suspended s' j \<le> suspended s j"
    "suspended s' j \<noteq> suspended s j \<Longrightarrow> \<exists>h ok. j = thr h \<and> (e = Suspend_thread h ok \<or> e = Resume_thread h ok)"
  using assms by (cases e; auto split: if_splits)+

text \<open>The inverse: what a step of a thread is.\<close>

lemma thread_step_iff:
  "thread_step thr i s = Some s' \<longleftrightarrow>
   (\<exists>e es s1. i < length (remaining s) \<and> suspended s i = 0 \<and> remaining s ! i = e # es \<and> perform thr i e s = Some s1 \<and>
      s' = s1\<lparr>remaining := (remaining s)[i := es]\<rparr>)"
  by (auto simp: thread_step_def perform_cases(1) split: list.splits if_splits)

definition lock_inv :: "nat \<Rightarrow> system \<Rightarrow> bool" where
  "lock_inv n s \<longleftrightarrow> length (remaining s) = n \<and> (\<forall>i<n. bracketed (owner s = Some i) (remaining s ! i)) \<and>
     (\<forall>i. owner s = Some i \<longrightarrow> i < n)"

lemma lock_inv_step:
  assumes "lock_inv n s" "step thr s s'"
  shows "lock_inv n s'"
proof -
  from assms(2) obtain i e es s1 where st: "i < length (remaining s)" "remaining s ! i = e # es"
    "perform thr i e s = Some s1" "s' = s1\<lparr>remaining := (remaining s)[i := es]\<rparr>"
    by (auto simp: thread_step_iff elim!: stepE)
  note p = perform_cases [OF st(3)]
  have b: "bracketed (owner s = Some j) (remaining s ! j)" if "j < n" for j using assms(1) that by (simp add: lock_inv_def)
  have n: "length (remaining s) = n" "i < n" using assms(1) st(1) by (auto simp: lock_inv_def)
  have "bracketed (owner s' = Some j) (remaining s' ! j)" if j: "j < n" for j
  proof (cases "j = i")
    case True
    with b [OF n(2)] n p(2-4) show ?thesis by (auto simp: st(2,4) split: if_splits)
  next
    case False
    with b [OF j] p(2-4) show ?thesis by (auto simp: st(4) split: if_splits)
  qed
  moreover have "\<forall>j. owner s' = Some j \<longrightarrow> j < n"
    using assms(1) p(2) n(2) by (auto simp: lock_inv_def st(4) split: if_splits)
  ultimately show ?thesis using n(1) by (simp add: lock_inv_def st(4))
qed

locale bracketed_program =
  fixes program :: "nat \<Rightarrow> stack_effect list \<Rightarrow> bool"
  assumes program_bracketed: "program i tr \<Longrightarrow> bracketed False tr"
begin

lemma reachable_inv:
  assumes "\<forall>i<length trs. program i (trs ! i)" "(step thr)\<^sup>*\<^sup>* (start trs) s"
  shows "lock_inv (length trs) s"
  using assms(2)
proof (induction rule: rtranclp_induct)
  case base
  show ?case using assms(1) program_bracketed by (auto simp: lock_inv_def start_def)
next
  case (step s s')
  then show ?case by (blast intro: lock_inv_step)
qed

lemma exclusion:
  assumes "\<forall>i<length trs. program i (trs ! i)" "(step thr)\<^sup>*\<^sup>* (start trs) s"
    and "i < length trs" "remaining s ! i = e # es" "sym_call e"
  shows "owner s = Some i"
proof -
  have "bracketed (owner s = Some i) (e # es)"
    using reachable_inv [OF assms(1,2)] assms(3,4) by (metis lock_inv_def)
  with assms(5) show ?thesis by (cases e) auto
qed

end

section \<open>Progress\<close>

text \<open>
  The threads that take part are \<open>0, \<dots>, n - 1\<close>; when none of them is suspended by another, then a
  thread that waits for the lock waits for one that can go on.
\<close>

definition total :: "system \<Rightarrow> nat" where
  "total s = sum_list (map length (remaining s))"

lemma sum_list_update_less:
  "i < length (xs :: nat list) \<Longrightarrow> x < xs ! i \<Longrightarrow> sum_list (xs[i := x]) < sum_list xs"
proof (induction xs arbitrary: i)
  case (Cons y ys)
  then show ?case by (cases i) auto
qed simp

lemma total_step: "step thr s s' \<Longrightarrow> total s' < total s"
  by (auto simp: thread_step_iff total_def map_update intro!: sum_list_update_less elim!: stepE)

lemma total_steps: "(step thr ^^ k) s s' \<Longrightarrow> k + total s' \<le> total s"
proof (induction k arbitrary: s')
  case (Suc k)
  then obtain s1 where "(step thr ^^ k) s s1" "step thr s1 s'" by auto
  with Suc.IH total_step [of thr s1 s'] show ?case by fastforce
qed simp

lemma owner_can_step:
  assumes "lock_inv n s" "owner s = Some i" "suspended s i = 0"
  shows "\<exists>s'. thread_step thr i s = Some s'"
proof -
  have b: "i < n" "length (remaining s) = n" "bracketed True (remaining s ! i)"
    using assms(1,2) unfolding lock_inv_def by (blast, blast, metis (full_types))
  then obtain e es where e: "remaining s ! i = e # es" by (cases "remaining s ! i") simp_all
  with b(3) have "e \<noteq> Acquire_lock" by auto
  with assms(2) have "\<exists>s1. perform thr i e s = Some s1" by (cases e) auto
  with b e assms(3) show ?thesis by (auto simp: thread_step_iff)
qed

lemma free_can_step:
  assumes "lock_inv n s" "owner s = None" "i < n" "remaining s ! i \<noteq> []" "suspended s i = 0"
  shows "\<exists>s'. thread_step thr i s = Some s'"
proof -
  have b: "length (remaining s) = n" "bracketed False (remaining s ! i)"
    using assms(1-3) by (auto simp: lock_inv_def)
  from assms(4) obtain e es where e: "remaining s ! i = e # es" by (cases "remaining s ! i") simp_all
  with b(2) have "e \<noteq> Release_lock" by auto
  with assms(2) have "\<exists>s1. perform thr i e s = Some s1" by (cases e) auto
  with b e assms(3,5) show ?thesis by (auto simp: thread_step_iff)
qed

lemma can_step:
  assumes "lock_inv n s" "\<forall>i<n. suspended s i = 0" "\<not> finished s"
  shows "\<exists>s'. step thr s s'"
proof (cases "owner s")
  case None
  obtain i where "i < n" "remaining s ! i \<noteq> []"
    using assms(1,3) by (auto simp: finished_def lock_inv_def list_all_length)
  with free_can_step [OF assms(1) None this] assms(2) show ?thesis by (blast intro: step.thread)
next
  case (Some i)
  then have "i < n" using assms(1) by (simp add: lock_inv_def)
  with owner_can_step [OF assms(1) Some] assms(2) show ?thesis by (blast intro: step.thread)
qed

text \<open>The threads suspend at most threads from \<open>n\<close> on, which take no part.\<close>

definition undisturbed :: "(addr \<Rightarrow> nat) \<Rightarrow> nat \<Rightarrow> stack_effect list \<Rightarrow> bool" where
  "undisturbed thr n tr \<longleftrightarrow> (\<forall>h. Suspend_thread h True \<in> set tr \<longrightarrow> n \<le> thr h)"

definition awake :: "(addr \<Rightarrow> nat) \<Rightarrow> nat \<Rightarrow> system \<Rightarrow> bool" where
  "awake thr n s \<longleftrightarrow> (\<forall>i<n. suspended s i = 0) \<and> (\<forall>tr\<in>set (remaining s). undisturbed thr n tr)"

lemma perform_awake:
  assumes "perform thr i e s = Some s'" "undisturbed thr n (e # es)" "j < n" "suspended s j = 0"
  shows "suspended s' j = 0"
  using assms by (cases e) (auto simp: undisturbed_def split: if_splits)

lemma awake_step:
  assumes "awake thr n s" "step thr s s'"
  shows "awake thr n s'"
proof -
  from assms(2) obtain i e es s1 where st: "i < length (remaining s)" "remaining s ! i = e # es"
    "perform thr i e s = Some s1" "s' = s1\<lparr>remaining := (remaining s)[i := es]\<rparr>"
    by (auto simp: thread_step_iff elim!: stepE)
  have u: "undisturbed thr n (e # es)" using assms(1) st(1,2) by (metis awake_def nth_mem)
  have "\<forall>j<n. suspended s1 j = 0" using perform_awake [OF st(3) u] assms(1) by (simp add: awake_def)
  moreover have "undisturbed thr n tr" if "tr \<in> set ((remaining s)[i := es])" for tr
    using that set_update_subset_insert [of "remaining s" i es] assms(1) u by (auto simp: awake_def undisturbed_def)
  ultimately show ?thesis by (simp add: awake_def st(4))
qed

locale undisturbed_program = bracketed_program +
  fixes thr :: "addr \<Rightarrow> nat" and n :: nat
  assumes program_undisturbed: "program i tr \<Longrightarrow> undisturbed thr n tr"
begin

lemma reachable_awake:
  assumes "length trs = n" "\<forall>i<n. program i (trs ! i)" "(step thr)\<^sup>*\<^sup>* (start trs) s"
  shows "awake thr n s"
  using assms(3)
proof (induction rule: rtranclp_induct)
  case base
  have "\<forall>tr\<in>set trs. undisturbed thr n tr" using assms(1,2) program_undisturbed by (metis in_set_conv_nth)
  then show ?case by (simp add: awake_def start_def)
next
  case (step s s')
  then show ?case by (blast intro: awake_step)
qed

lemma progress:
  assumes "length trs = n" "\<forall>i<n. program i (trs ! i)" "(step thr)\<^sup>*\<^sup>* (start trs) s" "\<not> finished s"
  shows "\<exists>s'. step thr s s'"
  using can_step [OF _ _ assms(4)] reachable_inv [of trs thr s] reachable_awake [OF assms(1-3)] assms(1-3)
  by (simp add: awake_def)

lemma completes:
  assumes "length trs = n" "\<forall>i<n. program i (trs ! i)" "(step thr)\<^sup>*\<^sup>* (start trs) s"
  shows "\<exists>s'. (step thr)\<^sup>*\<^sup>* s s' \<and> finished s'"
  using assms(3)
proof (induction "total s" arbitrary: s rule: less_induct)
  case less
  show ?case
  proof (cases "finished s")
    case False
    then obtain s1 where s1: "step thr s s1" using progress [OF assms(1,2) less.prems] by blast
    then have "(step thr)\<^sup>*\<^sup>* (start trs) s1" using less.prems by (meson rtranclp.rtrancl_into_rtrancl)
    with less.hyps [OF total_step [OF s1]] s1 show ?thesis by (meson converse_rtranclp_into_rtranclp)
  qed auto
qed

end

section \<open>The calls of the module\<close>

lemma bracketed_prints: "only_prints msgs \<Longrightarrow> bracketed held msgs \<longleftrightarrow> \<not> held"
  by (induction msgs) auto

lemma bracketed_frames:
  "bracketed True (concat (map (frame_queries g) pcs) @ es) \<longleftrightarrow> bracketed True es"
  by (induction pcs) (auto simp: frame_queries_def)

lemma bracketed_locked:
  "bracketed False (locked_queries g frames @ es) \<longleftrightarrow> bracketed False es"
  by (cases frames) (simp_all add: locked_queries_def bracketed_frames)

lemma bracketed_refresh:
  "get_thread_stack_refresh_module_list W g m = Some (out, m') \<Longrightarrow> bracketed False out"
  by (auto simp: get_thread_stack_refresh_module_list_def Let_def split: option.splits Option.bind_splits if_splits)

lemma bracketed_stack:
  assumes "get_thread_stack W g fuel t d n m = Some (out, m')"
  shows "bracketed False out"
  using assms by (cases rule: get_thread_stack_effects) (simp_all add: bracketed_prints bracketed_locked)

text \<open>
  What thread \<open>me\<close> does: refreshes and inspections of threads of \<open>T\<close>, in any order and number, each
  with the answers of the system at that time.  \<open>OpenThread\<close> returns a handle of the thread.
\<close>

inductive thread_run :: "(addr \<Rightarrow> nat) \<Rightarrow> nat \<Rightarrow> nat set \<Rightarrow> thread_stack \<Rightarrow> stack_effect list \<Rightarrow> bool"
  for thr me T g where
  idle: "thread_run thr me T g []"
| refresh: "thread_run thr me T g (out @ tr)"
    if "get_thread_stack_refresh_module_list W g m = Some (out, m')" "thread_run thr me T g tr"
| stack: "thread_run thr me T g (out @ tr)"
    if "get_thread_stack W g fuel t d k m = Some (out, m')" "GetCurrentThreadId W = me" "t \<in> T"
      "\<forall>h. OpenThread W t = Some h \<longrightarrow> thr h = t" "thread_run thr me T g tr"

lemma thread_run_bracketed: "thread_run thr me T g tr \<Longrightarrow> bracketed False tr"
  by (induction rule: thread_run.induct) (auto intro: bracketed_append bracketed_refresh bracketed_stack)

lemma suspend_of_frames: "Suspend_thread h b \<notin> set (locked_queries g frames)"
  by (auto simp: locked_queries_def frame_queries_def split: option.splits)

lemma suspend_of_prints: "only_prints msgs \<Longrightarrow> Suspend_thread h b \<notin> set msgs"
  by (induction msgs) auto

lemma undisturbed_append: "undisturbed thr n xs \<Longrightarrow> undisturbed thr n ys \<Longrightarrow> undisturbed thr n (xs @ ys)"
  by (auto simp: undisturbed_def)

lemma undisturbed_refresh:
  "get_thread_stack_refresh_module_list W g m = Some (out, m') \<Longrightarrow> undisturbed thr n out"
  by (auto simp: undisturbed_def get_thread_stack_refresh_module_list_def Let_def
      split: option.splits Option.bind_splits if_splits)

lemma undisturbed_stack:
  assumes "get_thread_stack W g fuel t d k m = Some (out, m')" "GetCurrentThreadId W = me" "t \<in> insert me {n..}"
    and "\<forall>h. OpenThread W t = Some h \<longrightarrow> thr h = t"
  shows "undisturbed thr n out"
  using assms(1)
  by (cases rule: get_thread_stack_effects)
    (use assms(2-4) in \<open>auto simp: undisturbed_def dest: suspend_of_prints simp: suspend_of_frames\<close>)

lemma thread_run_undisturbed:
  "thread_run thr me (insert me {n..}) g tr \<Longrightarrow> undisturbed thr n tr"
proof (induction rule: thread_run.induct)
  case idle
  show ?case by (simp add: undisturbed_def)
next
  case (refresh W m out m' tr)
  then show ?case by (blast intro: undisturbed_append undisturbed_refresh)
next
  case (stack W fuel t d k m out m' tr)
  then show ?case by (blast intro: undisturbed_append undisturbed_stack)
qed

lemma suspends_then_waits:
  assumes "get_thread_stack W g fuel t d n m = Some (out, m')" "d \<noteq> NULL" "n \<noteq> 0"
    and "symbolsState g = SYM_INIT_INITIALIZED" "OpenThread W t = Some h"
    and "GetCurrentThreadId W \<noteq> t" "SuspendThread W h" "GetThreadContext W h = Some c"
  shows "\<exists>tr. out = [Open_thread h, Suspend_thread h True, Acquire_lock] @ tr"
  using assms(1) unfolding get_thread_stack_open [OF assms(2-5)]
  by (auto simp: acquire_context_def locked_walk_def assms(6-8) split: Option.bind_splits)

interpretation calls: bracketed_program "\<lambda>i. thread_run thr i T g" for thr T g
  by unfold_locales (rule thread_run_bracketed)

interpretation quiet: undisturbed_program "\<lambda>i. thread_run thr i (insert i {n..}) g" thr n for thr n g
  by unfold_locales (erule thread_run_bracketed, erule thread_run_undisturbed)

text \<open>
  C21: whatever the threads that use the module do and in whatever order their steps come, at most
  one of them is about to call the symbol handler, which is not thread safe, and this one owns
  \<open>lockOverSymCalls\<close>.
\<close>

theorem sym_calls_exclusive:
  assumes "\<forall>i<length trs. thread_run thr i UNIV g (trs ! i)" "(step thr)\<^sup>*\<^sup>* (start trs) s"
    and "i < length trs" "remaining s ! i = e # es" "sym_call e"
    and "j < length trs" "remaining s ! j = e' # es'" "sym_call e'"
  shows "owner s = Some i \<and> i = j"
  using calls.exclusion [OF assms(1-5)] calls.exclusion [OF assms(1,2,6-8)] by simp

text \<open>
  C22: threads that inspect themselves or threads that do not use the module, and refresh the module
  list, in calls whose own walks end, so that their effects are a finite list, never block each other for good: in every state they reach one of them can go on until all
  of them have returned, every run is at most as long as all their effects, and every run can be
  continued to one in which all have returned.
\<close>

theorem calls_complete:
  assumes "length trs = n" "\<forall>i<n. thread_run thr i (insert i {n..}) g (trs ! i)" "(step thr ^^ k) (start trs) s"
  shows "k \<le> sum_list (map length trs) \<and> (finished s \<or> (\<exists>s'. step thr s s')) \<and> (\<exists>s'. (step thr)\<^sup>*\<^sup>* s s' \<and> finished s')"
proof -
  have r: "(step thr)\<^sup>*\<^sup>* (start trs) s" using assms(3) by (rule relpowp_imp_rtranclp)
  have "k \<le> sum_list (map length trs)" using total_steps [OF assms(3)] by (simp add: total_def start_def)
  with quiet.progress [OF assms(1,2) r] quiet.completes [OF assms(1,2) r] show ?thesis by blast
qed

text \<open>
  C40: a thread that inspects another one suspends it before it waits for the lock.  When the other
  thread owns the lock at that moment, because it refreshes the module list, both threads are
  blocked for good: neither can take a step and neither call returns.
\<close>

theorem suspend_deadlock:
  assumes "get_thread_stack W g fuel 1 d k m = Some (out0, m0)" "d \<noteq> NULL" "k \<noteq> 0"
    and "get_thread_stack_refresh_module_list W' g m' = Some (out1, m1)" "symbolsState g = SYM_INIT_INITIALIZED"
    and "GetCurrentThreadId W = 0" "OpenThread W 1 = Some h" "thr h = 1" "SuspendThread W h" "GetThreadContext W h = Some c"
  shows "\<exists>s. (step thr)\<^sup>*\<^sup>* (start [out0, out1]) s \<and> \<not> finished s \<and> (\<forall>s'. \<not> step thr s s')"
proof -
  obtain tr0 where tr0: "out0 = [Open_thread h, Suspend_thread h True, Acquire_lock] @ tr0"
    using suspends_then_waits [OF assms(1-3,5,7) _ assms(9,10)] assms(6) by auto
  obtain tr1 where tr1: "out1 = Acquire_lock # tr1"
    using assms(4,5) by (auto simp: get_thread_stack_refresh_module_list_def Let_def
        split: option.splits Option.bind_splits if_splits)
  let ?s = "\<lparr>owner = Some 1, suspended = (\<lambda>i. 0)(1 := 1), remaining = [Acquire_lock # tr0, tr1]\<rparr>"
  have "run_schedule thr [1, 0, 0] (start [out0, out1]) = Some ?s"
    by (simp add: tr0 tr1 start_def thread_step_def assms(8))
  then have "(step thr)\<^sup>*\<^sup>* (start [out0, out1]) ?s" by (rule run_schedule_steps)
  moreover have "thread_step thr i ?s = None" for i by (cases i) (simp_all add: thread_step_def)
  then have "\<not> step thr ?s s'" for s' by (auto elim!: stepE)
  ultimately show ?thesis by (auto simp: finished_def)
qed

section \<open>Witnesses\<close>

text \<open>Two threads that refresh the module list.\<close>

definition refresh_env :: stack_env where
  "refresh_env = demo_stack_env\<lparr>CreateToolhelp32Snapshot := None\<rparr>"

lemma demo_refresh:
  "get_thread_stack_refresh_module_list refresh_env demo_state m = Some ([Acquire_lock, Sym_refresh 77, Release_lock], m)"
  by (simp add: get_thread_stack_refresh_module_list_def refresh_env_def demo_stack_env_def demo_state_def)

lemma demo_thread_run: "thread_run thr i T demo_state [Acquire_lock, Sym_refresh 77, Release_lock]"
  using thread_run.refresh [OF demo_refresh thread_run.idle] by simp

lemma demo_two_threads:
  "\<forall>i<length [tr, tr]. P i tr \<Longrightarrow> \<forall>i<length [tr, tr]. P i ([tr, tr] ! i)"
  by (auto simp: less_Suc_eq)

theorem sym_calls_exclusive_witness:
  "\<exists>s. (step (\<lambda>h. 2))\<^sup>*\<^sup>* (start [[Acquire_lock, Sym_refresh 77, Release_lock], [Acquire_lock, Sym_refresh 77, Release_lock]]) s \<and>
     remaining s ! 0 = [Sym_refresh 77, Release_lock] \<and> owner s = Some 0"
proof -
  let ?tr = "[Acquire_lock, Sym_refresh 77, Release_lock]"
  let ?s = "\<lparr>owner = Some 0, suspended = (\<lambda>i. 0), remaining = [[Sym_refresh 77, Release_lock], ?tr]\<rparr>"
  have "run_schedule (\<lambda>h. 2) [0] (start [?tr, ?tr]) = Some ?s" by (simp add: start_def thread_step_def)
  then have r: "(step (\<lambda>h. 2))\<^sup>*\<^sup>* (start [?tr, ?tr]) ?s" by (rule run_schedule_steps)
  have p: "\<forall>i<length [?tr, ?tr]. thread_run (\<lambda>h. 2) i UNIV demo_state ([?tr, ?tr] ! i)"
    by (rule demo_two_threads) (simp add: demo_thread_run)
  have "owner ?s = Some 0 \<and> (0 :: nat) = 0" by (rule sym_calls_exclusive [OF p r]) (simp, simp, simp, simp, simp, simp)
  with r show ?thesis by (intro exI [of _ ?s]) simp
qed

theorem calls_complete_witness:
  "\<exists>s'. (step (\<lambda>h. 2))\<^sup>*\<^sup>* (start [[Acquire_lock, Sym_refresh 77, Release_lock], [Acquire_lock, Sym_refresh 77, Release_lock]]) s' \<and> finished s'"
proof -
  let ?tr = "[Acquire_lock, Sym_refresh 77, Release_lock]"
  have p: "\<forall>i<2. thread_run (\<lambda>h. 2) i (insert i {2..}) demo_state ([?tr, ?tr] ! i)"
    using demo_two_threads [of ?tr "\<lambda>i. thread_run (\<lambda>h. 2) i (insert i {2..}) demo_state"] by (simp add: demo_thread_run)
  show ?thesis using calls_complete [OF _ p, of 0 "start [?tr, ?tr]"] by simp
qed

definition inspect_env :: stack_env where
  "inspect_env = demo_stack_env\<lparr>GetCurrentThreadId := 0, GetThreadContext := \<lambda>h. Some \<lparr>reg_ip = 0, reg_sp = 0, reg_lr = 0\<rparr>\<rparr>"

theorem suspend_deadlock_witness:
  "\<exists>s. (step (\<lambda>h. 1))\<^sup>*\<^sup>* (start [[Open_thread 66, Suspend_thread 66 True, Acquire_lock, Release_lock, Resume_thread 66 True, Close_handle 66],
      [Acquire_lock, Sym_refresh 77, Release_lock]]) s \<and> \<not> finished s \<and> (\<forall>s'. \<not> step (\<lambda>h. 1) s s')"
proof -
  obtain m' where r: "get_thread_stack inspect_env demo_state 0 1 2000 10 demo_stack =
     Some ([Open_thread 66, Suspend_thread 66 True, Acquire_lock, Release_lock, Resume_thread 66 True, Close_handle 66], m')"
    by (simp add: get_thread_stack_def inspect_env_def demo_stack_env_def demo_state_def acquire_context_def locked_walk_def
        end_inspection_def store_bytes_def last_byte_def to_size_t_def accessible_put demo_stack_accessible)
  show ?thesis
    by (rule suspend_deadlock [OF r _ _ demo_refresh])
      (simp_all add: demo_state_def inspect_env_def demo_stack_env_def)
qed

end
