(* ===== verification/Spec2Isabelle.thy ===== *)
theory Spec2Isabelle
  imports Logger_V1_V2 Context_Programs Symbol_Lock
begin

text \<open>
  Verification of the c-logging library (\<open>src/v2\<close>): contexts of named, typed properties, the
  printer that renders them, three sinks for log lines, the logger that dispatches a call to
  the configured sinks, the texts of system errors as properties, and the stack of a thread
  as text.

  \<^bold>\<open>The program.\<close>  A client builds a context, a block of property/value pairs and of the
  bytes of their values, on the stack or on the heap, optionally on top of a parent context
  (\<open>log_context.h\<close>, \<open>log_context.c\<close>).  It calls a log macro (\<open>logger.h\<close>), which calls
  \<open>logger_log\<close> (\<open>logger.c\<close>), which calls the \<open>log\<close> function of every sink.  The console and the
  callback sink render the context with \<open>log_context_property_to_string\<close>, which calls the
  \<open>to_string\<close> functions of the property types; the ETW sink encodes it as a self-described
  event.  The logger also initialises the sinks and the thread stack module.

  \<^bold>\<open>Theories.\<close>
  \<^item> \<open>Prelude\<close>: memory as a partial map from addresses to bytes, ranges, fixed width
    conversions, the collections \<open>mem_simps\<close> and \<open>c_arith\<close>.
  \<^item> \<open>C_Runtime\<close>: the C library as the sources use it.  The formatting functions are fields of
    the record \<open>c_env\<close>; \<open>c_printf\<close> is an executable model of the conversions the sources use,
    and \<open>conforming\<close> says that a library agrees with it.
  \<^item> \<open>Property_Types\<close> (\<open>log_context_property_*_type*.c\<close>, \<open>log_context_property_basic_types.c\<close>):
    a type is a record of functions; the locales \<open>copyable_type\<close>, \<open>printable_type\<close> and
    \<open>fitting_type\<close> are what copying and printing promise, and every provided type is shown to
    keep them.
  \<^item> \<open>Property_To_String\<close> (\<open>log_context_property_to_string.c\<close>): the recursive printer refines
    \<open>render\<close> of the forest of properties, with the truncation of \<open>snprintf\<close>; it is memory safe
    whatever the library returns; its masked errors.
  \<^item> \<open>Log_Context\<close> (\<open>log_context.h\<close>, \<open>log_context.c\<close>, \<open>log_internal_error.c\<close>): the macros and
    functions that build contexts; \<open>context_inv\<close> is the invariant, \<open>argument\<close> says what a macro
    argument stores, \<open>value_writes\<close> is the contract of a custom value function.
  \<^item> \<open>Log_Sink\<close>, \<open>Log_Sink_Console\<close>, \<open>Log_Sink_Callback\<close>, \<open>Log_Sink_Etw\<close>
    (\<open>log_level.h\<close>, \<open>log_sink_if.h\<close>, \<open>log_sink_*.c\<close>): the interface of a sink and the three
    sinks.  What the first two print or hand to the callback is characterised on every path,
    the errors included (\<open>expected_line\<close>); an ETW event is decoded
    again and shown to carry the tree of the context; the provider is registered and
    unregistered alternately.
  \<^item> \<open>Get_Thread_Stack\<close> (\<open>get_thread_stack.c\<close>, \<open>logging_stacktrace.c\<close>): the symbol handler,
    its search path, the walk over the frames and the address mask of ARM64; the handles
    left open, which are those of the process and of threads that could not be resumed; the
    search path as the list of the directories of the modules.
  \<^item> \<open>Symbol_Lock\<close> (\<open>get_thread_stack.c\<close>): several threads in that module at once.  A step is one
    effect of one thread; acquiring the lock waits, a suspended thread takes no step.  The locale
    \<open>bracketed_program\<close> is what the lock needs of the threads and gives that the symbol handler
    is called by one thread at a time, \<open>undisturbed_program\<close> adds that the threads do not
    suspend each other and gives that all calls return; both are interpreted for the calls of
    the module, and without the second a deadlock is exhibited.
  \<^item> \<open>Error_Properties\<close> (\<open>format_message_no_newline.c\<close>, \<open>log_errno_*.c\<close>, \<open>log_lasterror.c\<close>,
    \<open>log_hresult.c\<close>): the value functions of the error properties; the locale \<open>error_library\<close>
    is what the platform promises, and under it each function is a \<open>value_function\<close>, the one
    for an HRESULT under \<open>error_library_modules\<close>, in processes of at most 100 modules.
  \<^item> \<open>Logger\<close> (\<open>logger.c\<close>): the state machine with its counter, the dispatch, and the locale
    \<open>sink_protocol\<close> between the logger and sinks that have to be initialised before they are
    used.
  \<^item> \<open>Logger_Sinks\<close> (\<open>logger_sinks_config.c\<close>, \<open>logger.h\<close>): the sinks of the library on one
    world, for which \<open>sink_protocol\<close> is interpreted; the log macros; a log call from
    \<open>LOGGER_LOG_EX\<close> to the output of every sink and the bytes of memory it may write.
  \<^item> \<open>Logger_V1_V2\<close> (\<open>logger_v1_v2.h\<close>): the macros of the first version, and that the text of
    an error (of \<open>LOG_LASTERROR\<close>, \<open>LOG_ERRNO\<close> on both platforms and \<open>LOG_HRESULT\<close>) reaches the line.
  \<^item> \<open>Context_Programs\<close> (\<open>log_context.h\<close>, \<open>logger.h\<close>): programs that define, create and destroy
    contexts on top of each other and log with them.  A type is an upper bound of the entries
    and bytes of a context; a program that type checks is defined from its first operation to
    its last, by preservation of \<open>typed_state\<close> and progress of every operation.

  \<^bold>\<open>Correspondence.\<close>  Definitions have the names of the C functions, macros, types and
  constants.  Static variables are records that are passed and returned.  A function of the
  source returns \<open>None\<close> where the C code has undefined behaviour (an access outside the
  accessible memory, a read of an entry that was never written), \<open>Inl (Aborted out)\<close> where it
  calls \<open>abort\<close> after printing \<open>out\<close>.  Memory is addressed by natural numbers, sizes are natural numbers with the
  wrap-around of \<open>uint8_t\<close>, \<open>uint16_t\<close>, \<open>uint32_t\<close>, \<open>size_t\<close> and \<open>int\<close> written out where the code
  converts; instruction pointers are words of 64 bits.  What the program does to the outside
  is a list of effects: calls of \<open>printf\<close>, registrations and events, handles and threads.
  Functions of the platform are fields of records, and what is relied on of them is a
  hypothesis (\<open>conforming\<close>, \<open>c_library\<close>, \<open>allocates\<close>, \<open>honest\<close>, \<open>error_library\<close>, \<open>finite_stacks\<close>); each
  of them is shown to be satisfiable.

  \<^bold>\<open>Loops.\<close>  All loops end by a measure, except the walk over the frames of a stack, which
  runs on fuel because the unwinder decides when it ends: as much fuel as the stack has frames
  gives the result.

  \<^bold>\<open>Simplifications.\<close>  A formatting function that fails leaves the memory as it was.
  \<open>GetLastError\<close> returns the same value throughout a call.  In the theory of one thread
  \<open>AcquireSRWLockExclusive\<close> always returns, and what is stated of a call there presupposes that
  the call obtains the lock; waiting for it is modelled in \<open>Symbol_Lock\<close>.  The contexts of the
  properties on lines of text have integer, boolean, character-string and struct properties:
  a wide string can be stored without a terminator or with a wrong size, which theorems on the
  type and on \<open>LOG_CONTEXT_CREATE\<close> show; the ETW sink is total for them as well.

  \<^bold>\<open>Not modelled.\<close>  Tests and build files.  Interleavings of threads outside the thread stack
  module: initialisation and deinitialisation are for one thread by the contract of the
  library, as are the settings of the logger and of the callback sink, and each log call works
  on buffers of its own stack; that threads may share the time buffer of the C library is left
  out.  The check of a format against its arguments, which is the compiler's.  What is left of
  the sources is declarations, includes, comments and macros no function uses.
\<close>

end
